(* ===== verification/Prelude.thy ===== *)
theory Prelude
  imports Main "HOL-Library.Word"
begin

text \<open>
  Shared vocabulary of the development: the C integer types as words, byte-addressed memory
  with little-endian 32-bit access, the outcome type of kernel operations, and the generic
  lemmas on outcomes, lists and memory that the component theories use.
\<close>

unbundle bit_operations_syntax

section \<open>Integers and memory\<close>

type_synonym u8 = "8 word"
type_synonym u16 = "16 word"
type_synonym u32 = "32 word"
type_synonym mem = "u32 \<Rightarrow> u8"

named_theorems kern "characteristic equations of kernel operations"
named_theorems framed "fields an operation leaves alone"

definition load32 :: "mem \<Rightarrow> u32 \<Rightarrow> u32" where
  "load32 m a = ucast (m a) OR push_bit 8 (ucast (m (a + 1)))
     OR push_bit 16 (ucast (m (a + 2))) OR push_bit 24 (ucast (m (a + 3)))"

definition store32 :: "mem \<Rightarrow> u32 \<Rightarrow> u32 \<Rightarrow> mem" where
  "store32 m a v = m(a := ucast v, a + 1 := ucast (drop_bit 8 v),
     a + 2 := ucast (drop_bit 16 v), a + 3 := ucast (drop_bit 24 v))"

text \<open>Address ranges \<open>[a, a + n)\<close>, as the distance from the base (wrap-around included).\<close>

definition in_range :: "u32 \<Rightarrow> nat \<Rightarrow> u32 \<Rightarrow> bool" where
  "in_range a n x \<longleftrightarrow> unat (x - a) < n"

lemma load32_store32 [simp]: "load32 (store32 m a v) a = v"
proof (rule bit_word_eqI)
  fix n assume n: "n < LENGTH(32)"
  have d: "a + 1 \<noteq> a" "a + 2 \<noteq> a" "a + 3 \<noteq> a" "a + 2 \<noteq> a + 1" "a + 3 \<noteq> a + 1" "a + 3 \<noteq> a + 2"
    by simp_all
  consider "n < 8" | "8 \<le> n" "n < 16" | "16 \<le> n" "n < 24" | "24 \<le> n" "n < 32"
    using n by fastforce
  then show "bit (load32 (store32 m a v) a) n = bit v n"
    using d by cases (auto simp: load32_def store32_def bit_simps)
qed

lemma unat_sub_le: "unat b \<le> unat a \<Longrightarrow> unat (a - b :: u32) = unat a - unat b"
  by (simp add: unat_sub_if')

lemma unat_add_less: "unat a + unat b < 4294967296 \<Longrightarrow> unat (a + b :: u32) = unat a + unat b"
  by (simp add: unat_word_ariths)

lemma unat_of_nat32: "n < 4294967296 \<Longrightarrow> unat (of_nat n :: u32) = n"
  by (simp add: unat_of_nat)

lemma eq_add_of_nat:
  assumes "n < 4294967296"
  shows "x = a + of_nat n \<longleftrightarrow> unat (x - a :: u32) = n"
proof
  assume "x = a + of_nat n"
  then show "unat (x - a) = n" using assms by (simp add: unat_of_nat)
next
  assume "unat (x - a) = n"
  then have "unat (x - a) = unat (of_nat n :: u32)" using assms by (simp add: unat_of_nat)
  then have "x - a = of_nat n" by (simp only: word_unat_eq_iff)
  then show "x = a + of_nat n" by (simp add: diff_eq_eq add.commute)
qed

lemma unat_dist_Suc:
  assumes "x \<noteq> (d :: u32)"
  shows "unat (x - d) = Suc (unat (x - (d + 1)))"
proof -
  have nz: "x - d \<noteq> 0" using assms by simp
  then have "unat (x - d - 1) = unat (x - d) - 1" by (rule unat_minus_one)
  moreover have e: "x - (d + 1) = x - d - 1" by simp
  moreover have "unat (x - d) \<noteq> 0" using nz by (simp add: unat_eq_0)
  ultimately show ?thesis unfolding e by linarith
qed

lemma in_range_Suc: "in_range d (Suc n) x \<longleftrightarrow> x = d \<or> in_range (d + 1) n x"
proof (cases "x = d")
  case False
  then show ?thesis using unat_dist_Suc [OF False] by (simp add: in_range_def)
qed (simp add: in_range_def)

lemma in_range_0 [simp]: "\<not> in_range d 0 x"
  by (simp add: in_range_def)

lemma not_in_range_pred: "n < 4294967296 \<Longrightarrow> \<not> in_range (d + 1) n d"
  by (simp add: in_range_def unsigned_minus_1_eq_mask mask_eq_exp_minus_1)

lemma unat_aligned_add:
  fixes a i :: u32
  assumes "unat a mod 4 = 0" "i < 4"
  shows "unat (a + i) = unat a + unat i"
proof -
  have "unat a < 4294967296" "unat i < 4"
    using assms(2) unsigned_less [of a, where 'a = nat] by (simp_all add: word_less_nat_alt)
  moreover have "unat a \<le> 4294967292"
    using assms(1) calculation(1) by presburger
  ultimately show ?thesis by (simp add: unat_word_ariths)
qed

lemma aligned4_offset_neq:
  fixes a b :: u32
  assumes "unat a mod 4 = 0" "unat b mod 4 = 0" "a \<noteq> b" "i < 4" "j < 4"
  shows "a + i \<noteq> b + j"
proof
  assume "a + i = b + j"
  then have "unat a + unat i = unat b + unat j"
    using unat_aligned_add [of a i] unat_aligned_add [of b j] assms by simp
  moreover have "unat i < 4" "unat j < 4"
    using assms by (simp_all add: word_less_nat_alt)
  ultimately have "unat a = unat b" using assms(1,2) by presburger
  with assms(3) show False by (simp add: word_unat_eq_iff)
qed

lemma load32_store32_other:
  assumes "unat a mod 4 = 0" "unat b mod 4 = 0" "a \<noteq> b"
  shows "load32 (store32 m a v) b = load32 m b"
proof -
  have n: "b + i \<noteq> a + j" if "i < 4" "j < 4" for i j
    using aligned4_offset_neq [of b a i j] assms that by metis
  have o: "(0::u32) < 4" "(1::u32) < 4" "(2::u32) < 4" "(3::u32) < 4" by simp_all
  show ?thesis
    unfolding load32_def store32_def
    using n [OF o(1) o(1)] n [OF o(1) o(2)] n [OF o(1) o(3)] n [OF o(1) o(4)]
      n [OF o(2) o(1)] n [OF o(2) o(2)] n [OF o(2) o(3)] n [OF o(2) o(4)]
      n [OF o(3) o(1)] n [OF o(3) o(2)] n [OF o(3) o(3)] n [OF o(3) o(4)]
      n [OF o(4) o(1)] n [OF o(4) o(2)] n [OF o(4) o(3)] n [OF o(4) o(4)]
    by simp
qed

section \<open>Outcomes of kernel operations\<close>

text \<open>
  The identity of every spinlock of the kernel, and of the objects a process can sleep on
  (the \<open>void *chan\<close> of \<open>sleep\<close>; distinct objects have distinct addresses).
\<close>

datatype lockid = LkKmem | LkPtable | LkBcache | LkBuf nat | LkLog | LkIcache | LkInode nat
  | LkFtable | LkPipe u32 | LkTicks | LkCons | LkIde | LkKernel

datatype chan = ChProc nat | ChPipeRead u32 | ChPipeWrite u32 | ChLog | ChSleeplock lockid
  | ChTicks | ChInput | ChBuf nat

text \<open>
  An operation started in state \<open>s\<close> returns a value and a state (\<open>Ok\<close>), panics with the
  source's message, spins for ever on a spinlock that is held elsewhere (\<open>Spin\<close>), gives the
  CPU to the scheduler inside \<open>swtch\<close> (\<open>Switch\<close>, with the state at that moment), is in a loop
  that does not end (\<open>Hang\<close>), or follows a null pointer (\<open>Fault\<close>).
\<close>

datatype ('a, 's) res = Ok 'a 's | Panic string | Spin lockid 's | Switch 's | Hang | Fault

definition bind :: "('a, 's) res \<Rightarrow> ('a \<Rightarrow> 's \<Rightarrow> ('b, 's) res) \<Rightarrow> ('b, 's) res" where
  "bind r f = (case r of Ok a s \<Rightarrow> f a s | Panic m \<Rightarrow> Panic m | Spin l s \<Rightarrow> Spin l s
     | Switch s \<Rightarrow> Switch s | Hang \<Rightarrow> Hang | Fault \<Rightarrow> Fault)"

lemma bind_simps [simp]:
  "bind (Ok a s) f = f a s" "bind (Panic m) f = Panic m"
  "bind (Spin l s) f = Spin l s" "bind (Switch s) f = Switch s"
  "bind Hang f = Hang" "bind Fault f = Fault"
  by (simp_all add: bind_def)

lemma bind_eq_Ok: "bind r f = Ok b t \<longleftrightarrow> (\<exists>a s. r = Ok a s \<and> f a s = Ok b t)"
  by (cases r) simp_all

lemma bind_OkE [elim!]:
  assumes "bind r f = Ok b t"
  obtains a s where "r = Ok a s" "f a s = Ok b t"
  using assms by (auto simp: bind_eq_Ok)

lemma bind_eq_Switch:
  "bind r f = Switch u \<longleftrightarrow> r = Switch u \<or> (\<exists>a s. r = Ok a s \<and> f a s = Switch u)"
  by (cases r) simp_all

lemma bind_cong [fundef_cong]:
  assumes "r = r'" "\<And>a s. r' = Ok a s \<Longrightarrow> f a s = g a s"
  shows "bind r f = bind r' g"
  using assms by (cases r') simp_all

lemma bind_assoc: "bind (bind r f) g = bind r (\<lambda>a s. bind (f a s) g)"
  by (cases r) simp_all

lemma bind_if: "bind (if c then r else r') f = (if c then bind r f else bind r' f)"
  by simp

section \<open>Framing\<close>

text \<open>
  An operation keeps a relation between states if it relates the initial state to every state
  it can leave behind. For a reflexive and transitive relation this is compositional, so that
  frame conditions of composite operations follow from those of their parts.
\<close>

definition keeps :: "('s \<Rightarrow> 's \<Rightarrow> bool) \<Rightarrow> 's \<Rightarrow> ('a, 's) res \<Rightarrow> bool" where
  "keeps R s r \<longleftrightarrow> (case r of Ok a t \<Rightarrow> R s t | Spin l t \<Rightarrow> R s t | Switch t \<Rightarrow> R s t | _ \<Rightarrow> True)"

lemma keeps_simps [simp]:
  "keeps R s (Ok a t) = R s t" "keeps R s (Spin l t) = R s t" "keeps R s (Switch t) = R s t"
  "keeps R s (Panic m)" "keeps R s Hang" "keeps R s Fault"
  by (simp_all add: keeps_def)

lemma keeps_if: "(c \<Longrightarrow> keeps R s r) \<Longrightarrow> (\<not> c \<Longrightarrow> keeps R s r') \<Longrightarrow> keeps R s (if c then r else r')"
  by simp

lemma keeps_Ok: "keeps R s r \<Longrightarrow> r = Ok a t \<Longrightarrow> R s t"
  by simp

lemma keeps_Switch: "keeps R s r \<Longrightarrow> r = Switch t \<Longrightarrow> R s t"
  by simp

locale state_frame =
  fixes R :: "'s \<Rightarrow> 's \<Rightarrow> bool"
  assumes refl [simp]: "R s s"
    and trans: "R s t \<Longrightarrow> R t u \<Longrightarrow> R s u"
begin

lemma weaken: "R s t \<Longrightarrow> keeps R t r \<Longrightarrow> keeps R s r"
  by (cases r) (auto intro: trans)

lemma keeps_bind:
  assumes "keeps R s r" "\<And>a t. r = Ok a t \<Longrightarrow> R s t \<Longrightarrow> keeps R t (f a t)"
  shows "keeps R s (bind r f)"
  using assms by (cases r) (auto intro: weaken)

lemma keeps_bind_upd:
  assumes "keeps R s r" "\<And>a t. r = Ok a t \<Longrightarrow> R s t \<Longrightarrow> R t (g a t) \<and> keeps R (g a t) (f a (g a t))"
  shows "keeps R s (bind r (\<lambda>a t. f a (g a t)))"
  using assms by (intro keeps_bind) (auto intro: weaken)

end

text \<open>Total correctness: the operation comes back with a result and a state that satisfy \<open>Q\<close>.\<close>

definition returns :: "('a, 's) res \<Rightarrow> ('a \<Rightarrow> 's \<Rightarrow> bool) \<Rightarrow> bool" where
  "returns r Q \<longleftrightarrow> (case r of Ok a t \<Rightarrow> Q a t | _ \<Rightarrow> False)"

lemma returns_simps [simp]:
  "returns (Ok a t) Q = Q a t" "\<not> returns (Panic m) Q" "\<not> returns (Spin l t) Q"
  "\<not> returns (Switch t) Q" "\<not> returns Hang Q" "\<not> returns Fault Q"
  by (simp_all add: returns_def)

lemma returns_bind [simp]: "returns (bind r f) Q = returns r (\<lambda>a t. returns (f a t) Q)"
  by (cases r) simp_all

lemma returns_mono: "returns r P \<Longrightarrow> (\<And>a t. P a t \<Longrightarrow> Q a t) \<Longrightarrow> returns r Q"
  by (cases r) auto

lemma returns_bind_cong: "returns r P \<Longrightarrow> (\<And>a t. P a t \<Longrightarrow> f a t = g a t) \<Longrightarrow> bind r f = bind r g"
  by (cases r) auto

lemma returns_conj: "returns r P \<Longrightarrow> returns r Q \<Longrightarrow> returns r (\<lambda>a t. P a t \<and> Q a t)"
  by (cases r) auto

lemma returns_iff: "returns r Q \<longleftrightarrow> (\<exists>a t. r = Ok a t \<and> Q a t)"
  by (cases r) auto

lemma returns_if: "(c \<Longrightarrow> returns r Q) \<Longrightarrow> (\<not> c \<Longrightarrow> returns r' Q) \<Longrightarrow> returns (if c then r else r') Q"
  by simp

end
