(* ===== verification/Spinlock.thy ===== *)
theory Spinlock
  imports Prelude
begin

text \<open>
  Spinlocks and interrupt masking: \<open>src/my-xv6-public/spinlock.c\<close> and \<open>mycpu\<close> of
  \<open>proc.c\<close>. The operations are sequential functions of the machine as one CPU sees it;
  the last section interleaves the CPUs at the granularity of single memory accesses.
  The debugging fields \<open>name\<close> and \<open>pcs\<close> of \<open>struct spinlock\<close> are left out.
\<close>

section \<open>State\<close>

record spinlock =
  lk_locked :: u32
  lk_cpu :: "nat option"

record cpu =
  apicid :: nat
  ncli :: int
  intena :: bool
  cpu_proc :: "nat option"

text \<open>
  \<open>lapicid\<close> is the local APIC id of the processor that executes, \<open>iflag\<close> the \<open>FL_IF\<close>
  bit of each processor's eflags (by APIC id), \<open>cpus\<close> the kernel's table of CPUs.
\<close>

record mach =
  lapicid :: nat
  iflag :: "nat \<Rightarrow> bool"
  ncpu :: nat
  cpus :: "nat \<Rightarrow> cpu"
  locks :: "lockid \<Rightarrow> spinlock"

definition readeflags_IF :: "'a mach_scheme \<Rightarrow> bool" where
  "readeflags_IF s = iflag s (lapicid s)"

definition cli :: "'a mach_scheme \<Rightarrow> 'a mach_scheme" where
  "cli s = s\<lparr>iflag := (iflag s)(lapicid s := False)\<rparr>"

definition sti :: "'a mach_scheme \<Rightarrow> 'a mach_scheme" where
  "sti s = s\<lparr>iflag := (iflag s)(lapicid s := True)\<rparr>"

section \<open>Operations\<close>

text \<open>\<open>mycpu\<close> scans the CPU table for the executing processor's APIC id.\<close>

fun mycpu_scan :: "(nat \<Rightarrow> cpu) \<Rightarrow> nat \<Rightarrow> nat \<Rightarrow> nat \<Rightarrow> nat option" where
  "mycpu_scan cs a i 0 = None"
| "mycpu_scan cs a i (Suc k) = (if apicid (cs i) = a then Some i else mycpu_scan cs a (Suc i) k)"

lemma mycpu_scan_numeral [simp]:
  "mycpu_scan cs a i (numeral k)
    = (if apicid (cs i) = a then Some i else mycpu_scan cs a (Suc i) (pred_numeral k))"
  by (simp add: numeral_eq_Suc)

definition mycpu :: "'a mach_scheme \<Rightarrow> (nat, 'a mach_scheme) res" where
  "mycpu s = (if readeflags_IF s then Panic ''mycpu called with interrupts enabled''
     else case mycpu_scan (cpus s) (lapicid s) 0 (ncpu s) of
       None \<Rightarrow> Panic ''unknown apicid'' | Some c \<Rightarrow> Ok c s)"

definition upd_cpu :: "nat \<Rightarrow> (cpu \<Rightarrow> cpu) \<Rightarrow> 'a mach_scheme \<Rightarrow> 'a mach_scheme" where
  "upd_cpu c f s = s\<lparr>cpus := (cpus s)(c := f (cpus s c))\<rparr>"

definition pushcli :: "'a mach_scheme \<Rightarrow> (unit, 'a mach_scheme) res" where
  "pushcli s = (let eflags = readeflags_IF s; s = cli s in
     bind (mycpu s) (\<lambda>c s.
     let s = (if ncli (cpus s c) = 0 then upd_cpu c (\<lambda>x. x\<lparr>intena := eflags\<rparr>) s else s) in
     Ok () (upd_cpu c (\<lambda>x. x\<lparr>ncli := ncli x + 1\<rparr>) s)))"

definition popcli :: "'a mach_scheme \<Rightarrow> (unit, 'a mach_scheme) res" where
  "popcli s = (if readeflags_IF s then Panic ''popcli - interruptible'' else
     bind (mycpu s) (\<lambda>c s.
     let s = upd_cpu c (\<lambda>x. x\<lparr>ncli := ncli x - 1\<rparr>) s in
     if ncli (cpus s c) < 0 then Panic ''popcli''
     else if ncli (cpus s c) = 0 \<and> intena (cpus s c) then Ok () (sti s)
     else Ok () s))"

definition holding :: "lockid \<Rightarrow> 'a mach_scheme \<Rightarrow> (bool, 'a mach_scheme) res" where
  "holding lk s = bind (pushcli s) (\<lambda>_ s. bind (mycpu s) (\<lambda>c s.
     let r = (lk_locked (locks s lk) \<noteq> 0 \<and> lk_cpu (locks s lk) = Some c) in
     bind (popcli s) (\<lambda>_ s. Ok r s)))"

definition initlock :: "lockid \<Rightarrow> 'a mach_scheme \<Rightarrow> 'a mach_scheme" where
  "initlock lk s = s\<lparr>locks := (locks s)(lk := \<lparr>lk_locked = 0, lk_cpu = None\<rparr>)\<rparr>"

text \<open>
  \<open>acquire\<close>: while the lock word is nonzero the \<open>xchg\<close> loop never ends for this CPU on its
  own (\<open>Spin\<close>); otherwise the \<open>xchg\<close> stores 1 and the owner is recorded.
\<close>

definition acquire :: "lockid \<Rightarrow> 'a mach_scheme \<Rightarrow> (unit, 'a mach_scheme) res" where
  "acquire lk s = bind (pushcli s) (\<lambda>_ s. bind (holding lk s) (\<lambda>h s.
     if h then Panic ''acquire''
     else if lk_locked (locks s lk) \<noteq> 0 then Spin lk s
     else bind (mycpu s) (\<lambda>c s.
       Ok () (s\<lparr>locks := (locks s)(lk := \<lparr>lk_locked = 1, lk_cpu = Some c\<rparr>)\<rparr>))))"

definition release :: "lockid \<Rightarrow> 'a mach_scheme \<Rightarrow> (unit, 'a mach_scheme) res" where
  "release lk s = bind (holding lk s) (\<lambda>h s.
     if \<not> h then Panic ''release''
     else popcli (s\<lparr>locks := (locks s)(lk := \<lparr>lk_locked = 0, lk_cpu = None\<rparr>)\<rparr>))"

section \<open>Characteristic equations\<close>

definition curcpu :: "'a mach_scheme \<Rightarrow> nat" where
  "curcpu s = the (mycpu_scan (cpus s) (lapicid s) 0 (ncpu s))"

text \<open>
  The machine is sane for the executing CPU: it is in the table, its nesting count is not
  negative, and interrupts are off whenever the count is positive.
\<close>

definition mach_ok :: "'a mach_scheme \<Rightarrow> bool" where
  "mach_ok s \<longleftrightarrow> mycpu_scan (cpus s) (lapicid s) 0 (ncpu s) \<noteq> None \<and> 0 \<le> ncli (cpus s (curcpu s))
     \<and> (0 < ncli (cpus s (curcpu s)) \<longrightarrow> \<not> iflag s (lapicid s))"

definition lk_free :: "lockid \<Rightarrow> 'a mach_scheme \<Rightarrow> bool" where
  "lk_free lk s \<longleftrightarrow> locks s lk = \<lparr>lk_locked = 0, lk_cpu = None\<rparr>"

text \<open>The state after a successful \<open>acquire\<close>, and after the matching \<open>release\<close>.\<close>

definition push_st :: "'a mach_scheme \<Rightarrow> 'a mach_scheme" where
  "push_st s = s\<lparr>iflag := (iflag s)(lapicid s := False),
     cpus := (cpus s)(curcpu s := (cpus s (curcpu s))
       \<lparr>intena := (if ncli (cpus s (curcpu s)) = 0 then iflag s (lapicid s)
                   else intena (cpus s (curcpu s))),
        ncli := ncli (cpus s (curcpu s)) + 1\<rparr>)\<rparr>"

definition touch :: "'a mach_scheme \<Rightarrow> 'a mach_scheme" where
  "touch s = s\<lparr>cpus := (cpus s)(curcpu s := (cpus s (curcpu s))
       \<lparr>intena := (if ncli (cpus s (curcpu s)) = 0 then iflag s (lapicid s)
                   else intena (cpus s (curcpu s)))\<rparr>)\<rparr>"

definition lock_st :: "lockid \<Rightarrow> 'a mach_scheme \<Rightarrow> 'a mach_scheme" where
  "lock_st lk s = (push_st s)\<lparr>locks := (locks s)
     (lk := \<lparr>lk_locked = 1, lk_cpu = Some (curcpu s)\<rparr>)\<rparr>"

lemma mycpu_scan_upd:
  assumes "apicid x = apicid (cs j)"
  shows "mycpu_scan (cs(j := x)) a i k = mycpu_scan cs a i k"
  using assms by (induction cs a i k rule: mycpu_scan.induct) auto

lemma scan_upd_fields [simp]:
  "mycpu_scan (cs(j := (cs j)\<lparr>intena := y, ncli := x\<rparr>)) a i k = mycpu_scan cs a i k"
  "mycpu_scan (cs(j := (cs j)\<lparr>intena := y\<rparr>)) a i k = mycpu_scan cs a i k"
  "mycpu_scan (cs(j := (cs j)\<lparr>ncli := x\<rparr>)) a i k = mycpu_scan cs a i k"
  "mycpu_scan (cs(j := (cs j)\<lparr>cpu_proc := z\<rparr>)) a i k = mycpu_scan cs a i k"
  by (simp_all add: mycpu_scan_upd)

text \<open>Updates of a CPU's fields commute; they are kept in one order.\<close>

lemma cpu_upd_order [simp]:
  "c\<lparr>ncli := x, intena := y\<rparr> = c\<lparr>intena := y, ncli := x\<rparr>"
  "c\<lparr>intena := y, ncli := ncli c\<rparr> = c\<lparr>intena := y\<rparr>"
  "c\<lparr>intena := intena c, ncli := x\<rparr> = c\<lparr>ncli := x\<rparr>"
  "c\<lparr>intena := intena c\<rparr> = c"
  "c\<lparr>ncli := ncli c\<rparr> = c"
  by (simp_all add: cpu.equality)

lemma curcpu_push_st [simp]: "curcpu (push_st s) = curcpu s"
  by (simp add: curcpu_def push_st_def)

lemma curcpu_touch [simp]: "curcpu (touch s) = curcpu s"
  by (simp add: curcpu_def touch_def)

lemma curcpu_lock_st [simp]: "curcpu (lock_st lk s) = curcpu s"
  by (simp add: curcpu_def lock_st_def push_st_def)

lemma mycpu_off: "mach_ok s \<Longrightarrow> \<not> iflag s (lapicid s) \<Longrightarrow> mycpu s = Ok (curcpu s) s"
  by (auto simp: mycpu_def mach_ok_def readeflags_IF_def curcpu_def)

lemma pushcli_eq [kern]:
  assumes "mach_ok s"
  shows "pushcli s = Ok () (push_st s)"
proof -
  have "mycpu_scan (cpus s) (lapicid s) 0 (ncpu s) = Some (curcpu s)"
    using assms by (auto simp: mach_ok_def curcpu_def)
  then show ?thesis
    by (auto simp: pushcli_def Let_def mycpu_def cli_def readeflags_IF_def push_st_def upd_cpu_def)
qed

lemma mach_ok_push_st [simp]: "mach_ok s \<Longrightarrow> mach_ok (push_st s)"
  by (auto simp: mach_ok_def push_st_def curcpu_def)

lemma mach_ok_touch [simp]: "mach_ok s \<Longrightarrow> mach_ok (touch s)"
  by (auto simp: mach_ok_def touch_def curcpu_def)

lemma mach_ok_lock_st [simp]: "mach_ok s \<Longrightarrow> mach_ok (lock_st lk s)"
  by (auto simp: mach_ok_def lock_st_def push_st_def curcpu_def)


lemma locks_touch [simp]: "locks (touch s) = locks s"
  by (simp add: touch_def)

lemma locks_push_st [simp]: "locks (push_st s) = locks s"
  by (simp add: push_st_def)

lemma locks_lock_st [simp]:
  "locks (lock_st lk s) = (locks s)(lk := \<lparr>lk_locked = 1, lk_cpu = Some (curcpu s)\<rparr>)"
  by (simp add: lock_st_def)

lemma iflag_push_st [simp]: "iflag (push_st s) (lapicid s) = False"
  by (simp add: push_st_def)

lemma lapicid_st [simp]: "lapicid (push_st s) = lapicid s" "lapicid (touch s) = lapicid s"
  "lapicid (lock_st lk s) = lapicid s"
  by (simp_all add: push_st_def touch_def lock_st_def)

lemma mycpu_push_st: "mach_ok s \<Longrightarrow> mycpu (push_st s) = Ok (curcpu s) (push_st s)"
  using mycpu_off [of "push_st s"] by simp

lemma popcli_push_st [kern]:
  assumes "mach_ok s"
  shows "popcli (push_st s) = Ok () (touch s)"
proof -
  have sc: "mycpu_scan (cpus s) (lapicid s) 0 (ncpu s) = Some (curcpu s)"
    using assms by (auto simp: mach_ok_def curcpu_def)
  have "mycpu (push_st s) = Ok (curcpu s) (push_st s)"
    using assms by (rule mycpu_push_st)
  then show ?thesis using assms
    by (auto simp: popcli_def Let_def readeflags_IF_def push_st_def touch_def upd_cpu_def sti_def
        mach_ok_def intro!: mach.equality cpu.equality ext split: if_splits)
qed

lemma holding_eq [kern]:
  assumes "mach_ok s"
  shows "holding lk s =
    Ok (lk_locked (locks s lk) \<noteq> 0 \<and> lk_cpu (locks s lk) = Some (curcpu s)) (touch s)"
proof -
  have "mycpu (push_st s) = Ok (curcpu s) (push_st s)"
    using assms by (rule mycpu_push_st)
  then show ?thesis
    using assms by (simp add: holding_def pushcli_eq popcli_push_st Let_def)
qed

lemma touch_push_st [simp]: "mach_ok s \<Longrightarrow> touch (push_st s) = push_st s"
  by (auto simp: touch_def push_st_def mach_ok_def curcpu_def)

lemma touch_idem [simp]: "mach_ok s \<Longrightarrow> touch (touch s) = touch s"
  by (auto simp: touch_def curcpu_def)

lemma touch_lock_st [simp]: "mach_ok s \<Longrightarrow> touch (lock_st lk s) = lock_st lk s"
  by (auto simp: touch_def lock_st_def push_st_def mach_ok_def curcpu_def)

lemma push_st_touch [simp]: "mach_ok s \<Longrightarrow> push_st (touch s) = push_st s"
  by (auto simp: push_st_def touch_def curcpu_def)

lemma lock_st_touch [simp]: "mach_ok s \<Longrightarrow> lock_st lk (touch s) = lock_st lk s"
  by (simp add: lock_st_def)

lemma lk_free_touch [simp]: "lk_free lk (touch s) = lk_free lk s"
  by (simp add: lk_free_def)

lemma lk_free_lock_st [simp]: "lk_free lk (lock_st lk' s) \<longleftrightarrow> lk \<noteq> lk' \<and> lk_free lk s"
  by (auto simp: lk_free_def)

text \<open>A free lock is taken; the CPU's own lock is refused; another CPU's lock spins.\<close>

lemma acquire_free [kern]:
  assumes "mach_ok s" "lk_free lk s"
  shows "acquire lk s = Ok () (lock_st lk s)"
proof -
  have "mycpu (push_st s) = Ok (curcpu s) (push_st s)"
    using assms by (simp add: mycpu_push_st)
  then show ?thesis
    using assms by (simp add: acquire_def pushcli_eq holding_eq lk_free_def lock_st_def)
qed

lemma acquire_busy:
  assumes "mach_ok s" "lk_locked (locks s lk) \<noteq> 0"
  shows "acquire lk s = (if lk_cpu (locks s lk) = Some (curcpu s) then Panic ''acquire''
    else Spin lk (push_st s))"
  using assms by (simp add: acquire_def pushcli_eq holding_eq lk_free_def)

text \<open>Releasing a held lock: the state before its \<open>acquire\<close>, up to the \<open>intena\<close> bookkeeping.\<close>

lemma lock_st_unlock:
  assumes "lk_free lk s"
  shows "(lock_st lk s)\<lparr>locks := (locks s)(lk := \<lparr>lk_locked = 0, lk_cpu = None\<rparr>)\<rparr> = push_st s"
proof -
  have "(locks s)(lk := \<lparr>lk_locked = 0, lk_cpu = None\<rparr>) = locks s"
    using assms by (auto simp: lk_free_def fun_eq_iff)
  then show ?thesis by (simp add: lock_st_def push_st_def)
qed

lemma release_lock_st [kern]:
  assumes "mach_ok s" "lk_free lk s"
  shows "release lk (lock_st lk s) = Ok () (touch s)"
  using assms by (simp add: release_def holding_eq lock_st_unlock popcli_push_st)

lemma release_not_held:
  assumes "mach_ok s" "lk_cpu (locks s lk) \<noteq> Some (curcpu s) \<or> lk_locked (locks s lk) = 0"
  shows "release lk s = Panic ''release''"
  using assms by (auto simp: release_def holding_eq)

text \<open>Locks taken in one order may be released in another (as \<open>sleep\<close> does).\<close>

lemma lock_st_commute:
  assumes "mach_ok s" "lk \<noteq> lk'"
  shows "lock_st lk (lock_st lk' s) = lock_st lk' (lock_st lk s)"
  using assms
  by (auto simp: lock_st_def push_st_def curcpu_def fun_upd_twist mach_ok_def
      intro!: mach.equality)

section \<open>The lock interface\<close>

text \<open>
  What the rest of the kernel relies on: inside \<open>ok\<close> states a free lock can be taken,
  a taken lock can be given back, and giving it back restores the state before up to
  \<open>norm\<close> (which the lock operations do not distinguish).
\<close>

locale lock_iface =
  fixes acq rel :: "lockid \<Rightarrow> 's \<Rightarrow> (unit, 's) res"
    and held_st :: "lockid \<Rightarrow> 's \<Rightarrow> 's"
    and norm :: "'s \<Rightarrow> 's"
    and ok :: "'s \<Rightarrow> bool"
    and free :: "lockid \<Rightarrow> 's \<Rightarrow> bool"
  assumes acq_free: "ok s \<Longrightarrow> free l s \<Longrightarrow> acq l s = Ok () (held_st l s)"
    and rel_held: "ok s \<Longrightarrow> free l s \<Longrightarrow> rel l (held_st l s) = Ok () (norm s)"
    and ok_held: "ok s \<Longrightarrow> ok (held_st l s)"
    and free_held: "free l (held_st l' s) \<longleftrightarrow> l \<noteq> l' \<and> free l s"
    and held_norm: "ok s \<Longrightarrow> held_st l (norm s) = held_st l s"
    and norm_held: "ok s \<Longrightarrow> norm (held_st l s) = held_st l s"
    and ok_norm: "ok s \<Longrightarrow> ok (norm s)"
    and free_norm: "free l (norm s) = free l s"
    and held_commute: "ok s \<Longrightarrow> l \<noteq> l' \<Longrightarrow> held_st l (held_st l' s) = held_st l' (held_st l s)"
begin

lemma critical_section:
  "ok s \<Longrightarrow> free l s \<Longrightarrow> bind (acq l s) (\<lambda>_ s. rel l s) = Ok () (norm s)"
  by (simp add: acq_free rel_held)

lemma nested_section:
  assumes "ok s" "free l s" "free l' s" "l \<noteq> l'"
  shows "bind (acq l (held_st l' s)) (\<lambda>_ s. rel l s) = Ok () (held_st l' s)"
  using assms by (simp add: acq_free rel_held ok_held free_held norm_held)

text \<open>Hand-over-hand: taking \<open>l'\<close> inside \<open>l\<close> and releasing \<open>l\<close> first.\<close>

lemma hand_over:
  assumes "ok s" "free l s" "free l' s" "l \<noteq> l'"
  shows "bind (acq l' (held_st l s)) (\<lambda>_ s. rel l s) = Ok () (norm (held_st l' s))"
proof -
  have "rel l (held_st l' (held_st l s)) = rel l (held_st l (held_st l' s))"
    using assms by (simp add: held_commute)
  also have "\<dots> = Ok () (norm (held_st l' s))"
    using assms by (intro rel_held) (auto simp: ok_held free_held)
  finally show ?thesis using assms by (simp add: acq_free ok_held free_held)
qed

text \<open>Any well-nested sequence of critical sections, run from a quiet state.\<close>

fun sections :: "lockid list \<Rightarrow> 's \<Rightarrow> (unit, 's) res" where
  "sections [] s = Ok () s"
| "sections (l # ls) s = bind (acq l s) (\<lambda>_ s. bind (sections ls s) (\<lambda>_ s. rel l s))"

lemma norm_sections:
  assumes "ok s" "distinct ls" "\<forall>l \<in> set ls. free l s"
  shows "sections ls s = Ok () (if ls = [] then s else norm s)"
  using assms
proof (induction ls arbitrary: s)
  case Nil
  then show ?case by simp
next
  case (Cons l ls)
  have "sections ls (held_st l s) = Ok () (held_st l s)"
    using Cons.IH [of "held_st l s"] Cons.prems
    by (subst Cons.IH) (auto simp: ok_held free_held norm_held)
  with Cons.prems show ?case by (simp add: acq_free rel_held)
qed

end

interpretation xv6_lock: lock_iface acquire release lock_st touch mach_ok lk_free
  by unfold_locales (auto simp: kern lock_st_commute)

section \<open>Interleaved CPUs\<close>

text \<open>
  The lock as the CPUs really run it: \<open>acquire\<close> is a sequence of \<open>xchg\<close> instructions and a
  store of the owner, \<open>release\<close> two stores; between any two accesses any CPU may move.
  A CPU is outside, spinning, past its successful \<open>xchg\<close> (owner not yet stored), in the
  critical section, or inside \<open>release\<close> with the owner cleared and the word not yet.
\<close>

datatype lkpc = Outside | Spinning | Xchged | Critical | Releasing

record lksys =
  word :: u32
  owner :: "nat option"
  pcs :: "nat \<Rightarrow> lkpc"

definition lksys_init :: lksys where
  "lksys_init = \<lparr>word = 0, owner = None, pcs = (\<lambda>_. Outside)\<rparr>"

text \<open>What \<open>holding\<close> computes on CPU \<open>c\<close>.\<close>

definition holding_on :: "nat \<Rightarrow> lksys \<Rightarrow> bool" where
  "holding_on c s \<longleftrightarrow> word s \<noteq> 0 \<and> owner s = Some c"

inductive lk_step :: "lksys \<Rightarrow> lksys \<Rightarrow> bool" where
  enter: "pcs s c = Outside \<Longrightarrow> \<not> holding_on c s \<Longrightarrow> lk_step s (s\<lparr>pcs := (pcs s)(c := Spinning)\<rparr>)"
| xchg_fail: "pcs s c = Spinning \<Longrightarrow> word s \<noteq> 0 \<Longrightarrow> lk_step s (s\<lparr>word := 1\<rparr>)"
| xchg_win: "pcs s c = Spinning \<Longrightarrow> word s = 0 \<Longrightarrow>
     lk_step s (s\<lparr>word := 1, pcs := (pcs s)(c := Xchged)\<rparr>)"
| set_owner: "pcs s c = Xchged \<Longrightarrow>
     lk_step s (s\<lparr>owner := Some c, pcs := (pcs s)(c := Critical)\<rparr>)"
| clear_owner: "pcs s c = Critical \<Longrightarrow> holding_on c s \<Longrightarrow>
     lk_step s (s\<lparr>owner := None, pcs := (pcs s)(c := Releasing)\<rparr>)"
| clear_word: "pcs s c = Releasing \<Longrightarrow>
     lk_step s (s\<lparr>word := 0, pcs := (pcs s)(c := Outside)\<rparr>)"

inductive lk_reachable :: "lksys \<Rightarrow> bool" where
  lk_start: "lk_reachable lksys_init"
| lk_next: "lk_reachable s \<Longrightarrow> lk_step s t \<Longrightarrow> lk_reachable t"

definition inside :: "lkpc \<Rightarrow> bool" where
  "inside p \<longleftrightarrow> p = Xchged \<or> p = Critical \<or> p = Releasing"

definition lk_inv :: "lksys \<Rightarrow> bool" where
  "lk_inv s \<longleftrightarrow> (word s = 0 \<longrightarrow> (\<forall>c. \<not> inside (pcs s c)))
     \<and> (\<forall>c d. inside (pcs s c) \<longrightarrow> inside (pcs s d) \<longrightarrow> c = d)
     \<and> (\<forall>c. owner s = Some c \<longleftrightarrow> pcs s c = Critical)"

lemma lk_inv_init: "lk_inv lksys_init"
  by (simp add: lk_inv_def lksys_init_def inside_def)

lemma lk_step_inv: "lk_step s t \<Longrightarrow> lk_inv s \<Longrightarrow> lk_inv t"
proof (induction rule: lk_step.induct)
  case (xchg_win s c)
  then show ?case by (force simp: lk_inv_def inside_def)
next
  case (set_owner s c)
  then show ?case by (auto simp: lk_inv_def inside_def)
next
  case (clear_owner s c)
  then show ?case by (auto simp: lk_inv_def inside_def holding_on_def)
next
  case (clear_word s c)
  then show ?case by (auto simp: lk_inv_def inside_def)
qed (auto simp: lk_inv_def inside_def)

lemma lk_reachable_inv: "lk_reachable s \<Longrightarrow> lk_inv s"
  by (induction rule: lk_reachable.induct) (auto intro: lk_inv_init lk_step_inv)

section \<open>Properties\<close>

text \<open>C3: mutual exclusion. In every state reachable by any interleaving of the CPUs'
  \<open>xchg\<close>, owner and release accesses, at most one CPU is past its \<open>xchg\<close> and not yet
  through \<open>release\<close>, and \<open>holding\<close> answers true on exactly the CPU that is in its
  critical section.\<close>

theorem spinlock_mutual_exclusion:
  assumes "lk_reachable s"
  shows "(inside (pcs s c) \<and> inside (pcs s d) \<longrightarrow> c = d) \<and> (holding_on c s \<longleftrightarrow> pcs s c = Critical)"
proof -
  have "lk_inv s" using assms by (rule lk_reachable_inv)
  then show ?thesis by (auto simp: lk_inv_def holding_on_def inside_def)
qed

lemma lk_run_critical:
  "lk_reachable (lksys_init\<lparr>word := 1, owner := Some 0, pcs := (pcs lksys_init)(0 := Critical)\<rparr>)"
proof -
  let ?s1 = "lksys_init\<lparr>pcs := (pcs lksys_init)(0 := Spinning)\<rparr>"
  let ?s2 = "?s1\<lparr>word := 1, pcs := (pcs ?s1)(0 := Xchged)\<rparr>"
  let ?s3 = "?s2\<lparr>owner := Some 0, pcs := (pcs ?s2)(0 := Critical)\<rparr>"
  have "lk_reachable ?s1"
    by (rule lk_next [OF lk_start], rule lk_step.enter)
      (simp_all add: lksys_init_def holding_on_def)
  then have "lk_reachable ?s2"
    by (rule lk_next, intro lk_step.xchg_win) (simp_all add: lksys_init_def)
  then have "lk_reachable ?s3"
    by (rule lk_next, intro lk_step.set_owner) simp
  then show ?thesis by (simp add: lksys_init_def)
qed

theorem spinlock_mutual_exclusion_witness:
  "holding_on 0 (lksys_init\<lparr>word := 1, owner := Some 0, pcs := (pcs lksys_init)(0 := Critical)\<rparr>)"
  using spinlock_mutual_exclusion [OF lk_run_critical, of 0 0] by simp

text \<open>C4: a critical section is transparent. From a sane machine with the lock free, \<open>acquire\<close>
  followed by \<open>release\<close> returns, and gives back the interrupt flags, every lock, every CPU's
  nesting depth and the rest of the state as they were.\<close>

theorem acquire_release_transparent:
  assumes "mach_ok s" "lk_free l s"
  shows "\<exists>t. bind (acquire l s) (\<lambda>_ s. release l s) = Ok () t \<and> iflag t = iflag s
    \<and> locks t = locks s \<and> (\<forall>c. ncli (cpus t c) = ncli (cpus s c))
    \<and> mach.more t = mach.more s"
  using xv6_lock.critical_section [OF assms] by (simp add: touch_def)

definition mach0 :: mach where
  "mach0 = \<lparr>lapicid = 7, iflag = (\<lambda>_. True), ncpu = 2,
     cpus = (\<lambda>i. \<lparr>apicid = (if i = 0 then 3 else 7), ncli = 0, intena = False, cpu_proc = None\<rparr>),
     locks = (\<lambda>_. \<lparr>lk_locked = 0, lk_cpu = None\<rparr>)\<rparr>"

theorem acquire_release_transparent_witness:
  "mach_ok mach0 \<and> lk_free LkKmem mach0 \<and>
   (\<exists>t. bind (acquire LkKmem mach0) (\<lambda>_ s. release LkKmem s) = Ok () t \<and> iflag t = iflag mach0)"
proof -
  have h: "mach_ok mach0" "lk_free LkKmem mach0"
    by (simp_all add: mach_ok_def mach0_def lk_free_def curcpu_def)
  show ?thesis using h acquire_release_transparent [OF h] by auto
qed

end
