(* ===== verification/Strings.thy ===== *)
theory Strings
  imports Prelude
begin

text \<open>
  The memory and string routines of xv6, \<open>src/my-xv6-public/string.c\<close> (kernel) and
  \<open>ulib.c\<close> (user library), over byte-addressed memory, with their closed forms. Routines that
  scan for a NUL byte with no bound are partial: \<open>None\<close> when they never return.
\<close>

section \<open>Kernel routines\<close>

text \<open>The string instructions \<open>rep stosb\<close> and \<open>rep stosl\<close> with the direction flag clear.\<close>

primrec stosb :: "mem \<Rightarrow> u32 \<Rightarrow> u8 \<Rightarrow> nat \<Rightarrow> mem" where
  "stosb m a c 0 = m"
| "stosb m a c (Suc n) = (stosb m a c n)(a + of_nat n := c)"

primrec stosl :: "mem \<Rightarrow> u32 \<Rightarrow> u32 \<Rightarrow> nat \<Rightarrow> mem" where
  "stosl m a d 0 = m"
| "stosl m a d (Suc n) = store32 (stosl m a d n) (a + 4 * of_nat n) d"

definition memset :: "mem \<Rightarrow> u32 \<Rightarrow> u32 \<Rightarrow> u32 \<Rightarrow> mem" where
  "memset m dst c n =
    (if dst mod 4 = 0 \<and> n mod 4 = 0 then
       let c = c AND 0xFF in
       stosl m dst (push_bit 24 c OR push_bit 16 c OR push_bit 8 c OR c) (unat (n div 4))
     else stosb m dst (ucast c) (unat n))"

primrec memcmp_loop :: "mem \<Rightarrow> u32 \<Rightarrow> u32 \<Rightarrow> nat \<Rightarrow> int" where
  "memcmp_loop m s1 s2 0 = 0"
| "memcmp_loop m s1 s2 (Suc n) = (if m s1 \<noteq> m s2 then uint (m s1) - uint (m s2)
     else memcmp_loop m (s1 + 1) (s2 + 1) n)"

definition memcmp :: "mem \<Rightarrow> u32 \<Rightarrow> u32 \<Rightarrow> u32 \<Rightarrow> int" where
  "memcmp m v1 v2 n = memcmp_loop m v1 v2 (unat n)"

primrec move_up :: "mem \<Rightarrow> u32 \<Rightarrow> u32 \<Rightarrow> nat \<Rightarrow> mem" where
  "move_up m d s 0 = m"
| "move_up m d s (Suc n) = move_up (m(d := m s)) (d + 1) (s + 1) n"

lemma move_up_numeral [simp]:
  "move_up m d s (numeral k) = move_up (m(d := m s)) (d + 1) (s + 1) (pred_numeral k)"
  by (simp add: numeral_eq_Suc)

primrec move_down :: "mem \<Rightarrow> u32 \<Rightarrow> u32 \<Rightarrow> nat \<Rightarrow> mem" where
  "move_down m d s 0 = m"
| "move_down m d s (Suc n) = move_down (m(d - 1 := m (s - 1))) (d - 1) (s - 1) n"

definition memmove :: "mem \<Rightarrow> u32 \<Rightarrow> u32 \<Rightarrow> u32 \<Rightarrow> mem" where
  "memmove m dst src n =
    (if src < dst \<and> src + n > dst then move_down m (dst + n) (src + n) (unat n)
     else move_up m dst src (unat n))"

definition memcpy :: "mem \<Rightarrow> u32 \<Rightarrow> u32 \<Rightarrow> u32 \<Rightarrow> mem" where
  "memcpy m dst src n = memmove m dst src n"

primrec strncmp_loop :: "mem \<Rightarrow> u32 \<Rightarrow> u32 \<Rightarrow> nat \<Rightarrow> int" where
  "strncmp_loop m p q 0 = 0"
| "strncmp_loop m p q (Suc n) = (if m p \<noteq> 0 \<and> m p = m q then strncmp_loop m (p + 1) (q + 1) n
     else uint (m p) - uint (m q))"

definition strncmp :: "mem \<Rightarrow> u32 \<Rightarrow> u32 \<Rightarrow> u32 \<Rightarrow> int" where
  "strncmp m p q n = strncmp_loop m p q (unat n)"

text \<open>
  The copying loop of \<open>strncpy\<close> and \<open>safestrcpy\<close>: the memory, the destination pointer after the
  last store, and what is left of the count.
\<close>

primrec copy_str :: "mem \<Rightarrow> u32 \<Rightarrow> u32 \<Rightarrow> nat \<Rightarrow> mem \<times> u32 \<times> nat" where
  "copy_str m s t 0 = (m, s, 0)"
| "copy_str m s t (Suc n) = (if m t \<noteq> 0 then copy_str (m(s := m t)) (s + 1) (t + 1) n
     else (m(s := m t), s + 1, n))"

definition strncpy :: "mem \<Rightarrow> u32 \<Rightarrow> u32 \<Rightarrow> int \<Rightarrow> mem" where
  "strncpy m s t n = (case copy_str m s t (nat n) of (m, s, k) \<Rightarrow> stosb m s 0 k)"

definition safestrcpy :: "mem \<Rightarrow> u32 \<Rightarrow> u32 \<Rightarrow> int \<Rightarrow> mem" where
  "safestrcpy m s t n = (if n \<le> 0 then m
     else case copy_str m s t (nat (n - 1)) of (m, s, k) \<Rightarrow> m(s := 0))"

partial_function (option) strlen_loop :: "mem \<Rightarrow> u32 \<Rightarrow> nat \<Rightarrow> nat option" where
  "strlen_loop m s n = (if m (s + of_nat n) \<noteq> 0 then strlen_loop m s (Suc n) else Some n)"

definition strlen :: "mem \<Rightarrow> u32 \<Rightarrow> nat option" where
  "strlen m s = strlen_loop m s 0"

section \<open>User library routines\<close>

partial_function (option) strcpy :: "mem \<Rightarrow> u32 \<Rightarrow> u32 \<Rightarrow> mem option" where
  "strcpy m s t = (let m' = m(s := m t) in if m' s \<noteq> 0 then strcpy m' (s + 1) (t + 1) else Some m')"

partial_function (option) strcmp :: "mem \<Rightarrow> u32 \<Rightarrow> u32 \<Rightarrow> int option" where
  "strcmp m p q = (if m p \<noteq> 0 \<and> m p = m q then strcmp m (p + 1) (q + 1)
     else Some (uint (m p) - uint (m q)))"

definition umemset :: "mem \<Rightarrow> u32 \<Rightarrow> u32 \<Rightarrow> u32 \<Rightarrow> mem" where
  "umemset m dst c n = stosb m dst (ucast c) (unat n)"

partial_function (option) strchr :: "mem \<Rightarrow> u32 \<Rightarrow> u8 \<Rightarrow> u32 option" where
  "strchr m s c = (if m s \<noteq> 0 then if m s = c then Some s else strchr m (s + 1) c else Some 0)"

text \<open>\<open>n*10 + *s++ - '0'\<close> in 32-bit arithmetic; \<open>char\<close> is signed but digits are positive.\<close>

partial_function (option) atoi_loop :: "mem \<Rightarrow> u32 \<Rightarrow> u32 \<Rightarrow> u32 option" where
  "atoi_loop m s n = (if 0x30 \<le> m s \<and> m s \<le> 0x39
     then atoi_loop m (s + 1) (n * 10 + ucast (m s) - 0x30) else Some n)"

definition atoi :: "mem \<Rightarrow> u32 \<Rightarrow> u32 option" where
  "atoi m s = atoi_loop m s 0"

definition umemmove :: "mem \<Rightarrow> u32 \<Rightarrow> u32 \<Rightarrow> int \<Rightarrow> mem" where
  "umemmove m vdst vsrc n = move_up m vdst vsrc (nat n)"

section \<open>Closed forms\<close>

definition mem_fill :: "mem \<Rightarrow> u32 \<Rightarrow> u8 \<Rightarrow> nat \<Rightarrow> mem" where
  "mem_fill m dst c n = (\<lambda>x. if in_range dst n x then c else m x)"

definition mem_copy :: "mem \<Rightarrow> u32 \<Rightarrow> u32 \<Rightarrow> nat \<Rightarrow> mem" where
  "mem_copy m dst src n = (\<lambda>x. if in_range dst n x then m (src + (x - dst)) else m x)"

lemma stosb_eq: "n \<le> 4294967296 \<Longrightarrow> stosb m a c n = mem_fill m a c n"
proof (induction n)
  case 0
  show ?case by (simp add: mem_fill_def in_range_def)
next
  case (Suc n)
  then have "n < 4294967296" by simp
  then show ?case
    using Suc eq_add_of_nat [of n _ a] by (auto simp: mem_fill_def in_range_def fun_eq_iff less_Suc_eq)
qed

lemma stosb_add: "stosb m a c (n + k) = stosb (stosb m a c n) (a + of_nat n) c k"
  by (induction k) (simp_all add: add.assoc)

lemma store32_fill:
  assumes "d = push_bit 24 c OR push_bit 16 c OR push_bit 8 c OR c" "c = e AND 0xFF"
  shows "store32 m a d = stosb m a (ucast e) 4"
proof -
  have c: "bit c n \<longleftrightarrow> n < 8 \<and> bit e n" for n
  proof -
    have "c = take_bit 8 e" using assms(2) by (simp add: take_bit_eq_mask mask_eq_exp_minus_1)
    then show ?thesis by (auto simp: bit_simps)
  qed
  have "ucast d = (ucast e :: u8)" "ucast (drop_bit 8 d) = (ucast e :: u8)"
    "ucast (drop_bit 16 d) = (ucast e :: u8)" "ucast (drop_bit 24 d) = (ucast e :: u8)"
    unfolding assms(1) by (rule bit_word_eqI; auto simp: bit_simps c)+
  then show ?thesis by (simp add: store32_def numeral_eq_Suc add.assoc)
qed

lemma stosl_eq:
  assumes "d = push_bit 24 c OR push_bit 16 c OR push_bit 8 c OR c" "c = e AND 0xFF"
  shows "stosl m a d n = stosb m a (ucast e) (n * 4)"
proof (induction n)
  case (Suc n)
  have "stosb m a (ucast e) (Suc n * 4) = stosb m a (ucast e) (n * 4 + 4)"
    by (simp add: algebra_simps)
  also have "\<dots> = stosb (stosl m a d n) (a + of_nat (n * 4)) (ucast e) 4"
    by (simp only: stosb_add Suc.IH)
  also have "\<dots> = stosl m a d (Suc n)"
    using store32_fill [OF assms] by (simp add: mult.commute)
  finally show ?case by simp
qed simp

lemma memset_eq: "memset m dst c n = mem_fill m dst (ucast c) (unat n)"
proof -
  have le: "unat n \<le> 4294967296" using unsigned_less [of n, where 'a = nat] by simp
  have "unat (n div 4) * 4 = unat n" if "n mod 4 = 0"
  proof -
    have "unat n mod 4 = 0" using that by (simp add: word_unat_eq_iff unat_mod)
    then show ?thesis by (auto simp: unat_div)
  qed
  then show ?thesis
    using stosl_eq [OF refl refl, of m dst c] stosb_eq [OF le, of m dst "ucast c"]
    by (auto simp: memset_def Let_def)
qed

lemma mem_fill_out: "\<not> in_range dst n x \<Longrightarrow> mem_fill m dst c n x = m x"
  by (simp add: mem_fill_def)

lemma mem_fill_in: "in_range dst n x \<Longrightarrow> mem_fill m dst c n x = c"
  by (simp add: mem_fill_def)

subsection \<open>Copying\<close>

lemma move_up_eq:
  assumes "d = s \<or> n \<le> unat (d - s)"
  shows "move_up m d s n = mem_copy m d s n"
  using assms
proof (induction n arbitrary: m d s)
  case (Suc n)
  have far: "s + (x - d) \<noteq> d \<or> d = s" if "unat (x - d) < Suc n" for x
    using that Suc.prems by (metis add_diff_cancel_left' leD)
  have "move_up m d s (Suc n) = mem_copy (m(d := m s)) (d + 1) (s + 1) n"
    unfolding move_up.simps by (rule Suc.IH) (use Suc.prems in auto)
  also have "\<dots> = mem_copy m d s (Suc n)"
  proof
    fix x
    show "mem_copy (m(d := m s)) (d + 1) (s + 1) n x = mem_copy m d s (Suc n) x"
    proof (cases "x = d")
      case True
      then show ?thesis by (auto simp: mem_copy_def in_range_def)
    next
      case False
      then have "unat (x - d) = Suc (unat (x - (d + 1)))" by (rule unat_dist_Suc)
      moreover have "s + 1 + (x - (d + 1)) = s + (x - d)" by simp
      ultimately show ?thesis
        using False far [of x] by (auto simp: mem_copy_def in_range_def simp del: add_diff_eq)
    qed
  qed
  finally show ?case .
qed (simp add: mem_copy_def in_range_def)

lemma move_down_eq:
  assumes "s = d \<or> n \<le> unat (s - d)"
  shows "move_down m (d + of_nat n) (s + of_nat n) n = mem_copy m d s n"
  using assms
proof (induction n arbitrary: m)
  case (Suc n)
  let ?m = "m(d + of_nat n := m (s + of_nat n))"
  have n: "n < 4294967296 \<or> s = d"
    using Suc.prems unsigned_less [of "s - d", where 'a = nat] by auto
  have far: "s + (x - d) \<noteq> d + of_nat n \<or> s = d" if x: "unat (x - d) < n" for x
  proof (rule ccontr)
    assume "\<not> ?thesis"
    then have e: "(s - d) + (x - d) = of_nat n" "s \<noteq> d" "n < 4294967296"
      using n by (simp_all add: algebra_simps)
    have "(unat (s - d) + unat (x - d)) mod 4294967296 = unat ((s - d) + (x - d))"
      by (simp only: unat_word_ariths(1)) simp
    also have "\<dots> = n" using e by (simp add: unat_of_nat)
    finally have mod: "(unat (s - d) + unat (x - d)) mod 4294967296 = n" .
    have "unat (s - d) < 4294967296" "n < unat (s - d)"
      using e(2) Suc.prems unsigned_less [of "s - d", where 'a = nat] by auto
    then show False
      using mod x le_mod_geq [of 4294967296 "unat (s - d) + unat (x - d)"]
      by (cases "unat (s - d) + unat (x - d) < 4294967296") simp_all
  qed
  have "move_down m (d + of_nat (Suc n)) (s + of_nat (Suc n)) (Suc n) = mem_copy ?m d s n"
    using Suc.prems by (simp del: fun_upd_apply, intro Suc.IH) auto
  also have "\<dots> = mem_copy m d s (Suc n)"
  proof
    fix x
    show "mem_copy ?m d s n x = mem_copy m d s (Suc n) x"
    proof (cases "s = d")
      case True
      then show ?thesis by (simp add: mem_copy_def)
    next
      case False
      then have "x = d + of_nat n \<longleftrightarrow> unat (x - d) = n" using n by (intro eq_add_of_nat) simp
      then show ?thesis
        using far [of x] False by (cases "x = d + of_nat n") (simp_all add: mem_copy_def in_range_def less_Suc_eq)
    qed
  qed
  finally show ?case .
qed (simp add: mem_copy_def in_range_def)

lemma memmove_eq:
  assumes "unat src + unat n \<le> 4294967296" "unat dst + unat n \<le> 4294967296"
  shows "memmove m dst src n = mem_copy m dst src (unat n)"
proof (cases "src < dst \<and> src + n > dst")
  case True
  then have "unat (src - dst) = 4294967296 + unat src - unat dst"
    by (simp add: unat_sub_if' word_less_nat_alt)
  then have "unat n \<le> unat (src - dst)" using assms True by (simp add: word_less_nat_alt)
  then show ?thesis using move_down_eq [of src dst "unat n" m] True by (simp add: memmove_def)
next
  case False
  have "src = dst \<or> unat n \<le> unat (dst - src)"
  proof (cases "unat dst \<le> unat src")
    case True
    then have "src = dst \<or> unat (dst - src) = 4294967296 + unat dst - unat src"
      by (auto simp: unat_sub_if' word_unat_eq_iff)
    then show ?thesis using assms True by auto
  next
    case lt: False
    have "src + n \<le> dst" using False lt by (simp add: word_less_nat_alt word_le_nat_alt not_less)
    moreover have "unat (src + n) = unat src + unat n"
      using assms lt unsigned_less [of dst, where 'a = nat] calculation
      by (cases "unat src + unat n = 4294967296")
        (simp_all add: unat_word_ariths word_le_nat_alt)
    ultimately show ?thesis using lt by (simp add: unat_sub_if' word_le_nat_alt) linarith
  qed
  then show ?thesis using move_up_eq [of dst src "unat n" m] False by (auto simp: memmove_def)
qed

section \<open>C strings\<close>

text \<open>\<open>cstr m p xs\<close>: at \<open>p\<close> memory holds the bytes \<open>xs\<close>, none of them NUL, then a NUL.\<close>

fun cstr :: "mem \<Rightarrow> u32 \<Rightarrow> u8 list \<Rightarrow> bool" where
  "cstr m p [] \<longleftrightarrow> m p = 0"
| "cstr m p (x # xs) \<longleftrightarrow> m p = x \<and> x \<noteq> 0 \<and> cstr m (p + 1) xs"

lemma cstr_unique: "cstr m p xs \<Longrightarrow> cstr m p ys \<Longrightarrow> xs = ys"
proof (induction xs arbitrary: p ys)
  case Nil
  then show ?case by (cases ys) auto
next
  case (Cons x xs)
  then show ?case by (cases ys) auto
qed

lemma strlen_loop_cstr: "cstr m (s + of_nat n) xs \<Longrightarrow> strlen_loop m s n = Some (n + length xs)"
proof (induction xs arbitrary: n)
  case (Cons x xs)
  then show ?case using Cons.IH [of "Suc n"] by (simp add: strlen_loop.simps [of m s n] ac_simps)
qed (simp add: strlen_loop.simps)

lemma strlen_cstr: "cstr m s xs \<Longrightarrow> strlen m s = Some (length xs)"
  using strlen_loop_cstr [of m s 0] by (simp add: strlen_def)

text \<open>The order of C strings: bytes compare as unsigned numbers, a proper prefix is smaller.\<close>

fun bytes_cmp :: "u8 list \<Rightarrow> u8 list \<Rightarrow> int" where
  "bytes_cmp (x # xs) (y # ys) = (if x = y then bytes_cmp xs ys else uint x - uint y)"
| "bytes_cmp (x # xs) [] = uint x"
| "bytes_cmp [] (y # ys) = - uint y"
| "bytes_cmp [] [] = 0"

lemma uint_eq_iff: "uint x = uint y \<longleftrightarrow> x = (y :: u8)"
  by (simp add: word_uint_eq_iff)

lemma bytes_cmp_eq_0:
  "0 \<notin> set xs \<Longrightarrow> 0 \<notin> set ys \<Longrightarrow> bytes_cmp xs ys = 0 \<longleftrightarrow> xs = ys"
  by (induction xs ys rule: bytes_cmp.induct) (auto simp: uint_eq_iff uint_0_iff)

lemma bytes_cmp_antisym: "bytes_cmp ys xs = - bytes_cmp xs ys"
  by (induction xs ys rule: bytes_cmp.induct) auto

lemma cstr_no_nul: "cstr m p xs \<Longrightarrow> 0 \<notin> set xs"
  by (induction xs arbitrary: p) auto

lemma strcmp_cstr: "cstr m p xs \<Longrightarrow> cstr m q ys \<Longrightarrow> strcmp m p q = Some (bytes_cmp xs ys)"
proof (induction xs ys arbitrary: p q rule: bytes_cmp.induct)
  case (1 x xs y ys)
  then show ?case by (simp add: strcmp.simps [of m p])
qed (simp_all add: strcmp.simps)

lemma strncmp_cstr:
  "cstr m p xs \<Longrightarrow> cstr m q ys \<Longrightarrow> strncmp_loop m p q n = bytes_cmp (take n xs) (take n ys)"
proof (induction n arbitrary: p q xs ys)
  case (Suc n)
  then show ?case by (cases xs; cases ys) auto
qed simp

lemma memcmp_bytes:
  "memcmp_loop m p q n = bytes_cmp (map (\<lambda>i. m (p + of_nat i)) [0..<n]) (map (\<lambda>i. m (q + of_nat i)) [0..<n])"
proof (induction n arbitrary: p q)
  case (Suc n)
  have s: "map f [0..<Suc n] = f 0 # map (\<lambda>i. f (Suc i)) [0..<n]" for f :: "nat \<Rightarrow> u8"
    by (simp add: upt_conv_Cons map_Suc_upt [symmetric] del: upt_Suc)
  show ?case using Suc [of "p + 1" "q + 1"] unfolding s by (simp add: ac_simps)
qed simp

text \<open>Writes outside a string leave it alone.\<close>

lemma cstr_cong:
  assumes "\<And>i. i \<le> length xs \<Longrightarrow> m' (p + of_nat i) = m (p + of_nat i)"
  shows "cstr m' p xs = cstr m p xs"
  using assms
proof (induction xs arbitrary: p)
  case Nil
  then show ?case by (auto dest: spec [of _ 0])
next
  case (Cons x xs)
  have "m' p = m p" using Cons.prems [of 0] by simp
  moreover have "cstr m' (p + 1) xs = cstr m (p + 1) xs"
    using Cons.prems [of "Suc _"] by (intro Cons.IH) (simp add: ac_simps)
  ultimately show ?case by simp
qed

lemma strchr_cstr:
  "cstr m s xs \<Longrightarrow> strchr m s c =
    Some (if c \<in> set xs then s + of_nat (length (takeWhile (\<lambda>x. x \<noteq> c) xs)) else 0)"
proof (induction xs arbitrary: s)
  case (Cons x xs)
  then show ?case using Cons.IH [of "s + 1"] by (auto simp: strchr.simps [of m s] ac_simps)
qed (simp add: strchr.simps)

text \<open>The bounded copies, when source and destination do not overlap.\<close>

lemma copy_str_cstr:
  assumes "cstr m t xs" "\<And>i j. i \<le> length xs \<Longrightarrow> j < n \<Longrightarrow> t + of_nat i \<noteq> s + of_nat j"
    and "n < 4294967296" "copy_str m s t n = (m', e, k)"
  shows "e = s + of_nat (min n (Suc (length xs)))" "k = n - Suc (length xs)"
    and "\<And>x. \<not> in_range s n x \<Longrightarrow> m' x = m x"
    and "\<And>i. i < n \<Longrightarrow> i \<le> length xs \<Longrightarrow> m' (s + of_nat i) = (xs @ [0]) ! i"
  using assms
proof (atomize (full), induction n arbitrary: m s t xs)
  case (Suc n)
  have ov: "t + of_nat i \<noteq> s + of_nat j" if "i \<le> length xs" "j < Suc n" for i j
    using Suc.prems(2) that by auto
  show ?case
  proof (cases xs)
    case Nil
    then show ?thesis using Suc.prems by (auto simp: in_range_Suc)
  next
    case (Cons y ys)
    define m1 where "m1 = m(s := y)"
    have y: "m t = y" "y \<noteq> 0" using Suc.prems(1) Cons by auto
    have "cstr m1 (t + 1) ys"
    proof -
      have "t + 1 + of_nat i \<noteq> s" if "i \<le> length ys" for i
        using ov [of "Suc i" 0] that Cons by (simp add: ac_simps)
      then show ?thesis using Suc.prems(1) Cons cstr_cong [of ys m1 "t + 1" m] by (simp add: m1_def)
    qed
    moreover have "t + 1 + of_nat i \<noteq> s + 1 + of_nat j" if "i \<le> length ys" "j < n" for i j
      using ov [of "Suc i" "Suc j"] that Cons by (simp add: ac_simps)
    moreover have "copy_str m1 (s + 1) (t + 1) n = (m', e, k)" using Suc.prems(4) y by (simp add: m1_def)
    ultimately have IH: "e = s + 1 + of_nat (min n (Suc (length ys)))" "k = n - Suc (length ys)"
      "\<And>x. \<not> in_range (s + 1) n x \<Longrightarrow> m' x = m1 x"
      "\<And>i. i < n \<Longrightarrow> i \<le> length ys \<Longrightarrow> m' (s + 1 + of_nat i) = (ys @ [0]) ! i"
      using Suc.IH [of m1 "t + 1" ys "s + 1"] Suc.prems(3) by auto
    have "m' s = y" using IH(3) [of s] not_in_range_pred [of n s] Suc.prems(3) by (simp add: m1_def)
    then have "m' (s + of_nat i) = (xs @ [0]) ! i" if "i < Suc n" "i \<le> length xs" for i
      using IH(4) [of "i - 1"] that Cons by (cases i) (auto simp: ac_simps)
    then show ?thesis using IH(1-3) Cons by (auto simp: in_range_Suc m1_def)
  qed
qed auto

lemma cstr_nth:
  assumes "0 \<notin> set xs" "\<And>i. i \<le> length xs \<Longrightarrow> m (p + of_nat i) = (xs @ [0]) ! i"
  shows "cstr m p xs"
  using assms
proof (induction xs arbitrary: p)
  case Nil
  then show ?case by (auto dest: spec [of _ 0])
next
  case (Cons x xs)
  have "cstr m (p + 1) xs"
    using Cons.prems(1) Cons.prems(2) [of "Suc _"] by (intro Cons.IH) (auto simp: ac_simps)
  then show ?case using Cons.prems(1) Cons.prems(2) [of 0] by auto
qed

section \<open>Properties\<close>

text \<open>C7: \<open>memmove\<close> copies correctly whether or not the regions overlap: afterwards the
  destination holds the bytes the source held before the call and every other byte of memory
  is unchanged, for regions that do not wrap around the end of the address space.\<close>

theorem memmove_correct:
  assumes "unat src + unat n \<le> 4294967296" "unat dst + unat n \<le> 4294967296"
  shows "(\<forall>i. i < unat n \<longrightarrow> memmove m dst src n (dst + of_nat i) = m (src + of_nat i))
    \<and> (\<forall>x. \<not> in_range dst (unat n) x \<longrightarrow> memmove m dst src n x = m x)"
proof -
  have "unat n < 4294967296" using unsigned_less [of n, where 'a = nat] by simp
  then show ?thesis
    using memmove_eq [OF assms] by (simp add: mem_copy_def in_range_def unat_of_nat32)
qed

theorem memmove_correct_witness:
  "memmove (\<lambda>a. ucast a) 0x1002 0x1000 5 0x1005 = 3
    \<and> memmove (\<lambda>a. ucast a) 0x1002 0x1000 5 0x1007 = 7"
proof -
  have w: "(\<forall>i. i < unat (5::u32) \<longrightarrow> memmove (\<lambda>a. ucast a) 0x1002 0x1000 5 (0x1002 + of_nat i) = ucast (0x1000 + of_nat i :: u32))
    \<and> (\<forall>x. \<not> in_range 0x1002 (unat (5::u32)) x \<longrightarrow> memmove (\<lambda>a. ucast a) 0x1002 0x1000 5 x = ucast x)"
    by (rule memmove_correct) simp_all
  have "memmove (\<lambda>a. ucast a) 0x1002 0x1000 5 0x1005 = 3" using conjunct1 [OF w, THEN spec, of 3] by simp
  moreover have "memmove (\<lambda>a. ucast a) 0x1002 0x1000 5 0x1007 = 7"
    using conjunct2 [OF w, THEN spec, of "0x1007"] by (simp add: in_range_def)
  ultimately show ?thesis by blast
qed

text \<open>C8: \<open>safestrcpy\<close> always leaves a NUL-terminated string at the destination: the source
  string cut to at most \<open>n - 1\<close> bytes; it writes nothing outside the \<open>n\<close> bytes of the destination.\<close>

theorem safestrcpy_terminates_string:
  assumes "cstr m t xs" "0 < n" "n < 4294967296"
    and "\<And>i j. i \<le> length xs \<Longrightarrow> j < nat n \<Longrightarrow> t + of_nat i \<noteq> s + of_nat j"
  shows "cstr (safestrcpy m s t n) s (take (nat (n - 1)) xs)
    \<and> (\<forall>x. \<not> in_range s (nat n) x \<longrightarrow> safestrcpy m s t n x = m x)"
proof -
  define k where "k = nat (n - 1)"
  have n: "nat n = Suc k" "k < 4294967295" using assms(2,3) by (auto simp: k_def)
  obtain m' e r where c: "copy_str m s t k = (m', e, r)" by (cases "copy_str m s t k") auto
  have ov: "\<And>i j. i \<le> length xs \<Longrightarrow> j < k \<Longrightarrow> t + of_nat i \<noteq> s + of_nat j"
    using assms(4) n by simp
  have k: "k < 4294967296" using n by simp
  from copy_str_cstr [OF assms(1) ov k c]
  have cc: "e = s + of_nat (min k (Suc (length xs)))" "\<And>x. \<not> in_range s k x \<Longrightarrow> m' x = m x"
    "\<And>i. i < k \<Longrightarrow> i \<le> length xs \<Longrightarrow> m' (s + of_nat i) = (xs @ [0]) ! i" by blast+
  have eq: "safestrcpy m s t n = m'(e := 0)"
    using assms(2) c by (simp add: safestrcpy_def k_def [symmetric])
  have "min k (Suc (length xs)) < 4294967296" using k by simp
  then have e: "x = e \<longleftrightarrow> unat (x - s) = min k (Suc (length xs))" for x
    unfolding cc(1) by (rule eq_add_of_nat)
  have "cstr (m'(e := 0)) s (take k xs)"
  proof (rule cstr_nth)
    show "0 \<notin> set (take k xs)" using cstr_no_nul [OF assms(1)] set_take_subset by fast
    fix i assume i: "i \<le> length (take k xs)"
    then have "unat (s + of_nat i - s) = i" using k by (simp add: unat_of_nat32)
    then have "s + of_nat i = e \<longleftrightarrow> i = min k (Suc (length xs))" unfolding e by simp
    then show "(m'(e := 0)) (s + of_nat i) = (take k xs @ [0]) ! i"
      using i cc(3) [of i] by (auto simp: nth_append min_def split: if_splits)
  qed
  moreover have "(m'(e := 0)) x = m x" if "\<not> in_range s (Suc k) x" for x
    using that cc(2) [of x] e [of x] by (auto simp: in_range_def)
  ultimately show ?thesis unfolding eq n k_def [symmetric] by blast
qed

definition hello_mem :: mem where
  "hello_mem = (\<lambda>_. 7)(0x100 := 104, 0x101 := 105, 0x102 := 106, 0x103 := 0)"

theorem safestrcpy_terminates_string_witness:
  "cstr (safestrcpy hello_mem 0x200 0x100 3) 0x200 [104, 105]
    \<and> safestrcpy hello_mem 0x200 0x100 3 0x203 = 7"
proof -
  have "(0x100 :: u32) + of_nat i \<noteq> 0x200 + of_nat j" if "i \<le> 3" "j < 3" for i j
  proof -
    have "i = 0 \<or> i = 1 \<or> i = 2 \<or> i = 3" "j = 0 \<or> j = 1 \<or> j = 2" using that by arith+
    then show ?thesis by auto
  qed
  then show ?thesis
    using safestrcpy_terminates_string [of hello_mem "0x100" "[104, 105, 106]" 3 "0x200"]
    by (simp add: hello_mem_def in_range_def)
qed



end
