(* ===== verification/Mmu.thy ===== *)
theory Mmu
  imports Strings
begin

text \<open>
  The paging arithmetic of \<open>src/my-xv6-public/mmu.h\<close> and \<open>memlayout.h\<close>, with the facts about
  pages (address arithmetic, page-sized ranges, little-endian cells inside pages) that the
  allocator and the page-table code use.
\<close>

section \<open>Macros\<close>

definition PGSIZE :: u32 where "PGSIZE = 4096"
definition PTXSHIFT :: nat where "PTXSHIFT = 12"
definition PDXSHIFT :: nat where "PDXSHIFT = 22"
definition NPDENTRIES :: nat where "NPDENTRIES = 1024"
definition NPTENTRIES :: nat where "NPTENTRIES = 1024"

definition PTE_P :: u32 where "PTE_P = 1"
definition PTE_W :: u32 where "PTE_W = 2"
definition PTE_U :: u32 where "PTE_U = 4"

definition PDX :: "u32 \<Rightarrow> u32" where "PDX va = drop_bit PDXSHIFT va AND 0x3FF"
definition PTX :: "u32 \<Rightarrow> u32" where "PTX va = drop_bit PTXSHIFT va AND 0x3FF"
definition PGADDR :: "u32 \<Rightarrow> u32 \<Rightarrow> u32 \<Rightarrow> u32" where
  "PGADDR d t off = push_bit PDXSHIFT d OR push_bit PTXSHIFT t OR off"
definition PGROUNDUP :: "u32 \<Rightarrow> u32" where "PGROUNDUP sz = (sz + PGSIZE - 1) AND NOT (PGSIZE - 1)"
definition PGROUNDDOWN :: "u32 \<Rightarrow> u32" where "PGROUNDDOWN a = a AND NOT (PGSIZE - 1)"
definition PTE_ADDR :: "u32 \<Rightarrow> u32" where "PTE_ADDR pte = pte AND NOT 0xFFF"
definition PTE_FLAGS :: "u32 \<Rightarrow> u32" where "PTE_FLAGS pte = pte AND 0xFFF"

definition EXTMEM :: u32 where "EXTMEM = 0x100000"
definition PHYSTOP :: u32 where "PHYSTOP = 0xE000000"
definition DEVSPACE :: u32 where "DEVSPACE = 0xFE000000"
definition KERNBASE :: u32 where "KERNBASE = 0x80000000"
definition KERNLINK :: u32 where "KERNLINK = KERNBASE + EXTMEM"
definition V2P :: "u32 \<Rightarrow> u32" where "V2P a = a - KERNBASE"
definition P2V :: "u32 \<Rightarrow> u32" where "P2V a = a + KERNBASE"

lemmas page_consts = PGSIZE_def PTXSHIFT_def PDXSHIFT_def
lemmas layout_consts = EXTMEM_def PHYSTOP_def DEVSPACE_def KERNBASE_def KERNLINK_def

section \<open>Page arithmetic\<close>

definition page_aligned :: "u32 \<Rightarrow> bool" where
  "page_aligned a \<longleftrightarrow> unat a mod 4096 = 0"

lemma u32_less [simp]: "unat (a::u32) < 4294967296"
  using unsigned_less [of a, where 'a = nat] by simp

lemma and_not_4095: "(a::u32) AND - 4096 = push_bit 12 (drop_bit 12 a)"
proof -
  have "(- 4096::u32) = NOT (mask 12)" by (simp add: mask_eq_exp_minus_1)
  also have "a AND \<dots> = push_bit 12 (drop_bit 12 a)"
    by (rule bit_word_eqI) (auto simp: bit_simps)
  finally show ?thesis .
qed

lemma unat_and_not_4095: "unat ((a::u32) AND - 4096) = unat a div 4096 * 4096"
proof -
  have "unat (drop_bit 12 a) = unat a div 4096"
    by (simp add: drop_bit_eq_div unat_div)
  moreover have "unat a div 4096 * 4096 < 4294967296"
    using u32_less [of a] by (metis div_times_less_eq_dividend le_less_trans)
  ultimately show ?thesis
    by (simp add: and_not_4095 push_bit_eq_mult unat_word_ariths)
qed

lemma unat_PGROUNDDOWN: "unat (PGROUNDDOWN a) = unat a div 4096 * 4096"
  by (simp add: PGROUNDDOWN_def PGSIZE_def unat_and_not_4095)

lemma unat_PTE_ADDR: "unat (PTE_ADDR a) = unat a div 4096 * 4096"
  by (simp add: PTE_ADDR_def unat_and_not_4095)

lemma PGROUNDDOWN_aligned [simp]: "page_aligned (PGROUNDDOWN a)"
  by (simp add: page_aligned_def unat_PGROUNDDOWN)

lemma PTE_ADDR_aligned [simp]: "page_aligned (PTE_ADDR a)"
  by (simp add: page_aligned_def unat_PTE_ADDR)

lemma PGROUNDUP_aligned [simp]: "page_aligned (PGROUNDUP a)"
  by (simp add: page_aligned_def PGROUNDUP_def PGSIZE_def unat_and_not_4095)

lemma unat_PGROUNDUP:
  assumes "unat a \<le> 4294963200"
  shows "unat (PGROUNDUP a) = (unat a + 4095) div 4096 * 4096"
proof -
  have "unat (a + 4095) = unat a + 4095"
    using assms by (simp add: unat_word_ariths)
  then show ?thesis
    by (simp add: PGROUNDUP_def PGSIZE_def unat_and_not_4095 add_diff_eq [symmetric])
qed

lemma PGROUNDDOWN_id: "page_aligned a \<Longrightarrow> PGROUNDDOWN a = a"
  by (auto simp: word_unat_eq_iff unat_PGROUNDDOWN page_aligned_def)

section \<open>Pages as ranges of memory\<close>

lemma aligned_dist:
  fixes v x n :: nat
  assumes "v mod n = 0" "0 < n" "v \<le> x"
  shows "x - v < n \<longleftrightarrow> x div n = v div n"
proof
  have v: "v = v div n * n" using assms(1) by (metis add.right_neutral div_mult_mod_eq)
  assume "x - v < n"
  then have "x < (v div n + 1) * n" using v assms(3) by (simp add: algebra_simps)
  then have "x div n < v div n + 1" by (rule less_mult_imp_div_less)
  moreover have "v div n \<le> x div n" using assms(3) by (rule div_le_mono)
  ultimately show "x div n = v div n" by simp
next
  assume "x div n = v div n"
  then have "x - v = x mod n"
    using assms(1) by (metis add.right_neutral add_diff_cancel_left' div_mult_mod_eq)
  then show "x - v < n" using assms(2) by simp
qed

lemma aligned_less_top: "page_aligned v \<Longrightarrow> unat v \<le> 4294963200"
proof -
  assume "page_aligned v"
  then have v: "unat v = unat v div 4096 * 4096"
    unfolding page_aligned_def by (metis add.right_neutral div_mult_mod_eq)
  have "unat v div 4096 < 1048576" by (rule less_mult_imp_div_less) simp
  then show ?thesis using v by linarith
qed

lemma aligned_div_inj:
  "page_aligned v \<Longrightarrow> page_aligned w \<Longrightarrow> unat v div 4096 = unat w div 4096 \<Longrightarrow> v = w"
  unfolding page_aligned_def word_unat_eq_iff
  by (metis add.right_neutral div_mult_mod_eq)

lemma in_page_iff:
  assumes "page_aligned v"
  shows "in_range v 4096 y \<longleftrightarrow> unat y div 4096 = unat v div 4096"
proof (cases "unat v \<le> unat y")
  case True
  then have "unat (y - v) = unat y - unat v" by (simp add: unat_sub_if')
  then show ?thesis
    using True assms aligned_dist [of "unat v" 4096 "unat y"]
    by (simp add: in_range_def page_aligned_def)
next
  case False
  then have "unat (y - v) = 4294967296 + unat y - unat v" by (simp add: unat_sub_if')
  then have "\<not> unat (y - v) < 4096" using aligned_less_top [OF assms] False by linarith
  moreover have "unat y div 4096 \<noteq> unat v div 4096"
  proof
    assume "unat y div 4096 = unat v div 4096"
    then have "unat v = unat y div 4096 * 4096"
      using assms unfolding page_aligned_def by (metis add.right_neutral div_mult_mod_eq)
    then have "unat v \<le> unat y" by simp
    with False show False by simp
  qed
  ultimately show ?thesis by (simp add: in_range_def)
qed

lemma page_disjoint:
  assumes "page_aligned v" "page_aligned w" "v \<noteq> w" "in_range w 4096 y"
  shows "\<not> in_range v 4096 y"
  using assms aligned_div_inj [of v w] by (auto simp: in_page_iff)

lemma in_range_base: "in_range a n (a + i) \<longleftrightarrow> unat i < n"
  by (simp add: in_range_def)

lemma load32_page_cong:
  assumes "\<And>i. unat i < 4096 \<Longrightarrow> m (w + i) = m' (w + i)" "unat (j::u32) < 4093"
  shows "load32 m (w + j) = load32 m' (w + j)"
proof -
  have "unat (j + 1) = unat j + 1" "unat (j + 2) = unat j + 2" "unat (j + 3) = unat j + 3"
    using assms(2) by (simp_all add: unat_word_ariths)
  then have "m (w + j) = m' (w + j)" "m (w + (j + 1)) = m' (w + (j + 1))"
    "m (w + (j + 2)) = m' (w + (j + 2))" "m (w + (j + 3)) = m' (w + (j + 3))"
    using assms by auto
  then show ?thesis by (simp add: load32_def add.assoc)
qed

lemma load32_fill_other_page:
  assumes "page_aligned v" "page_aligned w" "v \<noteq> w" "unat j < 4093"
  shows "load32 (mem_fill m v c 4096) (w + j) = load32 m (w + j)"
proof (rule load32_page_cong)
  fix i :: u32 assume "unat i < 4096"
  then have "\<not> in_range v 4096 (w + i)"
    using assms by (intro page_disjoint [of v w]) (simp_all add: in_range_base)
  then show "mem_fill m v c 4096 (w + i) = m (w + i)" by (rule mem_fill_out)
qed (use assms in auto)

lemma store32_out:
  assumes "x \<noteq> a" "x \<noteq> a + 1" "x \<noteq> a + 2" "x \<noteq> a + 3"
  shows "store32 m a v x = m x"
  using assms by (simp add: store32_def)

lemma store32_out_page:
  assumes "\<not> in_range w 4096 x" "unat (j::u32) < 4093"
  shows "store32 m (w + j) v x = m x"
proof -
  have "unat (j + 1) = unat j + 1" "unat (j + 2) = unat j + 2" "unat (j + 3) = unat j + 3"
    using assms(2) by (simp_all add: unat_word_ariths)
  then have "x \<noteq> w + j" "x \<noteq> w + (j + 1)" "x \<noteq> w + (j + 2)" "x \<noteq> w + (j + 3)"
    using assms by (auto simp: in_range_base)
  then show ?thesis by (intro store32_out) (simp_all add: add.assoc)
qed

lemma load32_store32_other_page:
  assumes "page_aligned v" "page_aligned w" "v \<noteq> w" "unat i < 4093" "unat j < 4093"
  shows "load32 (store32 m (v + i) c) (w + j) = load32 m (w + j)"
proof (rule load32_page_cong)
  fix k :: u32 assume "unat k < 4096"
  then have "\<not> in_range v 4096 (w + k)"
    using assms by (intro page_disjoint [of v w]) (simp_all add: in_range_base)
  then show "store32 m (v + i) c (w + k) = m (w + k)"
    using assms(4) by (rule store32_out_page)
qed (use assms in auto)

section \<open>Indices of linear addresses\<close>

definition same_page :: "u32 \<Rightarrow> u32 \<Rightarrow> bool" where
  "same_page a b \<longleftrightarrow> unat a div 4096 = unat b div 4096"

lemma unat_and_3FF: "unat (x AND 0x3FF :: u32) = unat x mod 1024"
proof -
  have "x AND 0x3FF = take_bit 10 x" by (simp add: take_bit_eq_mask mask_eq_exp_minus_1)
  then show ?thesis by (simp add: take_bit_eq_mod unat_mod)
qed

lemma unat_PDX: "unat (PDX va) = unat va div 4194304"
proof -
  have "unat va div 4194304 < 1024" by (rule less_mult_imp_div_less) simp
  then show ?thesis
    by (simp add: PDX_def PDXSHIFT_def unat_and_3FF drop_bit_eq_div unat_div)
qed

lemma unat_PTX: "unat (PTX va) = unat va div 4096 mod 1024"
  by (simp add: PTX_def PTXSHIFT_def unat_and_3FF drop_bit_eq_div unat_div)

lemma PDX_less: "unat (PDX va) < 1024"
  unfolding unat_PDX by (rule less_mult_imp_div_less) simp

lemma PTX_less: "unat (PTX va) < 1024"
  by (simp add: unat_PTX)

lemma same_page_iff: "same_page a b \<longleftrightarrow> PDX a = PDX b \<and> PTX a = PTX b"
proof
  have d: "unat x div 4194304 = unat x div 4096 div 1024" for x :: u32
    by (simp add: div_mult2_eq [symmetric])
  show "same_page a b \<Longrightarrow> PDX a = PDX b \<and> PTX a = PTX b"
    by (simp add: same_page_def word_unat_eq_iff unat_PDX unat_PTX d)
  assume "PDX a = PDX b \<and> PTX a = PTX b"
  then have "unat a div 4096 div 1024 = unat b div 4096 div 1024"
    "unat a div 4096 mod 1024 = unat b div 4096 mod 1024"
    by (simp_all add: word_unat_eq_iff unat_PDX unat_PTX d)
  then show "same_page a b" unfolding same_page_def by (metis div_mult_mod_eq)
qed

end
