(* ===== verification/Kalloc.thy ===== *)
theory Kalloc
  imports Spinlock Mmu "HOL-Library.Multiset"
begin

text \<open>
  The physical page allocator, \<open>src/my-xv6-public/kalloc.c\<close>. The free list is the linked list
  of \<open>struct run\<close> that the code threads through the free pages themselves: the link of a
  free page is the 32-bit cell at its first byte.
\<close>

section \<open>State and operations\<close>

text \<open>\<open>kend\<close> is the linker symbol \<open>end\<close>, the first address after the kernel image.\<close>

record kmem = mach +
  kend :: u32
  mem :: mem
  freelist :: u32
  use_lock :: bool

definition kfree :: "u32 \<Rightarrow> 'a kmem_scheme \<Rightarrow> (unit, 'a kmem_scheme) res" where
  "kfree v s =
    (if v mod PGSIZE \<noteq> 0 \<or> v < kend s \<or> V2P v \<ge> PHYSTOP then Panic ''kfree''
     else
       let s = s\<lparr>mem := memset (mem s) v 1 PGSIZE\<rparr> in
       bind (if use_lock s then acquire LkKmem s else Ok () s) (\<lambda>_ s.
       let s = s\<lparr>mem := store32 (mem s) v (freelist s), freelist := v\<rparr> in
       if use_lock s then release LkKmem s else Ok () s))"

definition kalloc :: "'a kmem_scheme \<Rightarrow> (u32, 'a kmem_scheme) res" where
  "kalloc s =
     bind (if use_lock s then acquire LkKmem s else Ok () s) (\<lambda>_ s.
     let r = freelist s;
         s = (if r \<noteq> 0 then s\<lparr>freelist := load32 (mem s) r\<rparr> else s) in
     bind (if use_lock s then release LkKmem s else Ok () s) (\<lambda>_ s. Ok r s))"

lemma V2P_less_PHYSTOP: "V2P v < PHYSTOP \<Longrightarrow> unat v < 0x8E000000"
  unfolding V2P_def PHYSTOP_def KERNBASE_def word_less_nat_alt unat_sub_if'
  by (simp split: if_splits)

lemma mod_PGSIZE: "v mod PGSIZE = 0 \<longleftrightarrow> page_aligned v"
  by (simp add: page_aligned_def PGSIZE_def word_unat_eq_iff unat_mod)

text \<open>The addresses \<open>kfree\<close> accepts.\<close>

definition kpage :: "'a kmem_scheme \<Rightarrow> u32 \<Rightarrow> bool" where
  "kpage s v \<longleftrightarrow> page_aligned v \<and> kend s \<le> v \<and> V2P v < PHYSTOP"

lemma kfree_Ok_kpage: "kfree v s = Ok a t \<Longrightarrow> kpage s v"
  by (auto simp: kfree_def kpage_def mod_PGSIZE split: if_splits)

text \<open>
  \<open>freerange\<close>: the pointer comparison and increment are on 32-bit addresses; the loop ends
  because \<open>kfree\<close> accepts nothing at or above \<open>P2V(PHYSTOP)\<close>.
\<close>

function freerange_loop :: "u32 \<Rightarrow> u32 \<Rightarrow> 'a kmem_scheme \<Rightarrow> (unit, 'a kmem_scheme) res" where
  "freerange_loop p vend s = (if p + PGSIZE \<le> vend
     then bind (kfree p s) (\<lambda>_ s. freerange_loop (p + PGSIZE) vend s) else Ok () s)"
  by pat_completeness auto
termination
proof (relation "measure (\<lambda>(p, vend, s). 0x8E001000 - unat p)", simp)
  fix p vend :: u32 and s :: "'a kmem_scheme" and a t
  assume "kfree p s = Ok a t"
  then have "unat p < 0x8E000000"
    using kfree_Ok_kpage V2P_less_PHYSTOP by (auto simp: kpage_def)
  then show "((p + PGSIZE, vend, t), p, vend, s) \<in> measure (\<lambda>(p, vend, s). 0x8E001000 - unat p)"
    by (simp add: PGSIZE_def unat_word_ariths)
qed

declare freerange_loop.simps [simp del]

definition freerange :: "u32 \<Rightarrow> u32 \<Rightarrow> 'a kmem_scheme \<Rightarrow> (unit, 'a kmem_scheme) res" where
  "freerange vstart vend s = freerange_loop (PGROUNDUP vstart) vend s"

definition kinit1 :: "u32 \<Rightarrow> u32 \<Rightarrow> 'a kmem_scheme \<Rightarrow> (unit, 'a kmem_scheme) res" where
  "kinit1 vstart vend s = freerange vstart vend ((initlock LkKmem s)\<lparr>use_lock := False\<rparr>)"

definition kinit2 :: "u32 \<Rightarrow> u32 \<Rightarrow> 'a kmem_scheme \<Rightarrow> (unit, 'a kmem_scheme) res" where
  "kinit2 vstart vend s = bind (freerange vstart vend s) (\<lambda>_ s. Ok () (s\<lparr>use_lock := True\<rparr>))"

section \<open>Lock states and the allocator's fields\<close>

lemma kmem_lock_st [simp]:
  "kend (lock_st l s) = kend s" "mem (lock_st l s) = mem s"
  "freelist (lock_st l s) = freelist s" "use_lock (lock_st l s) = use_lock s"
  by (simp_all add: lock_st_def push_st_def)

lemma kmem_touch [simp]:
  "kend (touch s) = kend s" "mem (touch s) = mem s"
  "freelist (touch s) = freelist s" "use_lock (touch s) = use_lock s"
  by (simp_all add: touch_def)

lemma lock_st_kmem [simp]:
  "(lock_st l s)\<lparr>mem := m\<rparr> = lock_st l (s\<lparr>mem := m\<rparr>)"
  "(lock_st l s)\<lparr>freelist := f\<rparr> = lock_st l (s\<lparr>freelist := f\<rparr>)"
  by (simp_all add: lock_st_def push_st_def curcpu_def)

lemma mach_ok_kmem [simp]:
  "mach_ok (s\<lparr>mem := m\<rparr>) = mach_ok s" "mach_ok (s\<lparr>freelist := f\<rparr>) = mach_ok s"
  "lk_free l (s\<lparr>mem := m\<rparr>) = lk_free l s" "lk_free l (s\<lparr>freelist := f\<rparr>) = lk_free l s"
  "curcpu (s\<lparr>mem := m\<rparr>) = curcpu s" "curcpu (s\<lparr>freelist := f\<rparr>) = curcpu s"
  by (simp_all add: mach_ok_def curcpu_def lk_free_def)

text \<open>The allocator may run: its lock is not in use yet, or it is free.\<close>

definition kmem_ready :: "'a kmem_scheme \<Rightarrow> bool" where
  "kmem_ready s \<longleftrightarrow> use_lock s \<longrightarrow> mach_ok s \<and> lk_free LkKmem s"

definition kmem_norm :: "'a kmem_scheme \<Rightarrow> 'a kmem_scheme" where
  "kmem_norm s = (if use_lock s then touch s else s)"

lemma kmem_norm_fields [simp]:
  "kend (kmem_norm s) = kend s" "mem (kmem_norm s) = mem s"
  "freelist (kmem_norm s) = freelist s" "use_lock (kmem_norm s) = use_lock s"
  by (simp_all add: kmem_norm_def)

lemma kmem_ready_norm [simp]: "kmem_ready s \<Longrightarrow> kmem_ready (kmem_norm s)"
  by (simp add: kmem_ready_def kmem_norm_def)

lemma kmem_ready_upd [simp]:
  "kmem_ready (s\<lparr>mem := m\<rparr>) = kmem_ready s" "kmem_ready (s\<lparr>freelist := f\<rparr>) = kmem_ready s"
  by (simp_all add: kmem_ready_def)

lemma memset_PGSIZE: "memset m v c PGSIZE = mem_fill m v (ucast c) 4096"
  by (simp add: memset_eq PGSIZE_def)

lemma kfree_eq [kern]:
  assumes "kmem_ready s" "kpage s v"
  shows "kfree v s = Ok () (kmem_norm (s\<lparr>mem := store32 (mem_fill (mem s) v 1 4096) v (freelist s),
    freelist := v\<rparr>))"
  using assms
  by (auto simp: kfree_def kpage_def mod_PGSIZE Let_def kmem_ready_def kmem_norm_def kern memset_PGSIZE)

lemma kalloc_eq [kern]:
  assumes "kmem_ready s"
  shows "kalloc s = Ok (freelist s) (kmem_norm (if freelist s = 0 then s
    else s\<lparr>freelist := load32 (mem s) (freelist s)\<rparr>))"
  using assms by (auto simp: kalloc_def Let_def kmem_ready_def kmem_norm_def kern)

section \<open>The free list\<close>

fun flist :: "mem \<Rightarrow> u32 \<Rightarrow> u32 list \<Rightarrow> bool" where
  "flist m p [] \<longleftrightarrow> p = 0"
| "flist m p (x # xs) \<longleftrightarrow> p = x \<and> x \<noteq> 0 \<and> flist m (load32 m x) xs"

definition kmem_inv :: "'a kmem_scheme \<Rightarrow> u32 list \<Rightarrow> bool" where
  "kmem_inv s xs \<longleftrightarrow> flist (mem s) (freelist s) xs \<and> distinct xs \<and> (\<forall>x \<in> set xs. kpage s x)"

lemma kpage_nonzero: "kpage s v \<Longrightarrow> v \<noteq> 0"
  by (auto simp: kpage_def V2P_def PHYSTOP_def KERNBASE_def)

lemma flist_cong:
  assumes "\<And>x. x \<in> set xs \<Longrightarrow> load32 m x = load32 m' x"
  shows "flist m p xs = flist m' p xs"
  using assms by (induction xs arbitrary: p) auto

lemma flist_unique: "flist m p xs \<Longrightarrow> flist m p ys \<Longrightarrow> xs = ys"
proof (induction xs arbitrary: p ys)
  case Nil
  then show ?case by (cases ys) auto
next
  case (Cons x xs)
  then show ?case by (cases ys) auto
qed

lemma kpage_upd [simp]:
  "kpage (s\<lparr>mem := m\<rparr>) = kpage s" "kpage (s\<lparr>freelist := f\<rparr>) = kpage s"
  "kpage (kmem_norm s) = kpage s"
  by (simp_all add: kpage_def fun_eq_iff)

lemma kmem_inv_norm [simp]: "kmem_inv (kmem_norm s) xs = kmem_inv s xs"
  by (simp add: kmem_inv_def)

text \<open>Filling a page that is not on the list does not disturb the list's links.\<close>

lemma kfree_links:
  assumes "page_aligned v" "page_aligned x" "v \<noteq> x"
  shows "load32 (store32 (mem_fill m v c 4096) v l) x = load32 m x"
  using load32_store32_other_page [of v x 0 0 "mem_fill m v c 4096" l]
    load32_fill_other_page [of v x 0 m c] assms by simp

lemma kfree_inv:
  assumes "kmem_ready s" "kmem_inv s xs" "kpage s v" "v \<notin> set xs"
  shows "\<exists>t. kfree v s = Ok () t \<and> kmem_ready t \<and> kmem_inv t (v # xs) \<and> kpage t = kpage s"
proof -
  let ?m = "store32 (mem_fill (mem s) v 1 4096) v (freelist s)"
  let ?t = "kmem_norm (s\<lparr>mem := ?m, freelist := v\<rparr>)"
  have al: "page_aligned v" using assms(3) by (simp add: kpage_def)
  have "flist ?m (freelist s) xs = flist (mem s) (freelist s) xs"
  proof (rule flist_cong)
    fix x assume "x \<in> set xs"
    then have "page_aligned x" "v \<noteq> x"
      using assms(2,4) by (auto simp: kmem_inv_def kpage_def)
    then show "load32 ?m x = load32 (mem s) x"
      using al by (intro kfree_links)
  qed
  then have "kmem_inv ?t (v # xs)"
    using assms(2,3,4) kpage_nonzero [OF assms(3)] by (simp add: kmem_inv_def)
  moreover have "kfree v s = Ok () ?t" using assms by (simp add: kfree_eq)
  moreover have "kmem_ready ?t" using assms(1) by simp
  ultimately show ?thesis by simp
qed

lemma kalloc_inv_Cons:
  assumes "kmem_ready s" "kmem_inv s (x # xs)"
  shows "\<exists>t. kalloc s = Ok x t \<and> kmem_ready t \<and> kmem_inv t xs \<and> kpage t = kpage s"
  using assms by (simp add: kalloc_eq) (simp add: kmem_inv_def)

lemma kalloc_inv_Nil:
  assumes "kmem_ready s" "kmem_inv s []"
  shows "\<exists>t. kalloc s = Ok 0 t \<and> kmem_ready t \<and> kmem_inv t [] \<and> kpage t = kpage s"
  using assms by (simp add: kalloc_eq) (simp add: kmem_inv_def)

section \<open>The allocator as an interface\<close>

text \<open>
  Clients of the allocator see a stack of free pages. A client's history is a list of
  requests: allocate a page, or give back the \<open>i\<close>-th of the pages it owns.
\<close>

datatype pg_req = PgAlloc | PgFree nat

fun page_trace :: "('s \<Rightarrow> (u32, 's) res) \<Rightarrow> (u32 \<Rightarrow> 's \<Rightarrow> (unit, 's) res) \<Rightarrow> pg_req list
    \<Rightarrow> u32 list \<Rightarrow> 's \<Rightarrow> (u32 list, 's) res" where
  "page_trace al fr [] own s = Ok own s"
| "page_trace al fr (PgAlloc # rs) own s =
     bind (al s) (\<lambda>p s. page_trace al fr rs (if p = 0 then own else p # own) s)"
| "page_trace al fr (PgFree i # rs) own s =
     (if i < length own
      then bind (fr (own ! i) s) (\<lambda>_ s. page_trace al fr rs (take i own @ drop (Suc i) own) s)
      else page_trace al fr rs own s)"

locale page_allocator =
  fixes al :: "'s \<Rightarrow> (u32, 's) res"
    and fr :: "u32 \<Rightarrow> 's \<Rightarrow> (unit, 's) res"
    and inv :: "'s \<Rightarrow> u32 list \<Rightarrow> bool"
    and legal :: "'s \<Rightarrow> u32 \<Rightarrow> bool"
  assumes al_Cons: "inv s (x # xs) \<Longrightarrow> \<exists>t. al s = Ok x t \<and> inv t xs \<and> legal t = legal s"
    and al_Nil: "inv s [] \<Longrightarrow> \<exists>t. al s = Ok 0 t \<and> inv t [] \<and> legal t = legal s"
    and fr_inv: "inv s xs \<Longrightarrow> legal s v \<Longrightarrow> v \<notin> set xs \<Longrightarrow>
      \<exists>t. fr v s = Ok () t \<and> inv t (v # xs) \<and> legal t = legal s"
    and inv_legal: "inv s xs \<Longrightarrow> x \<in> set xs \<Longrightarrow> legal s x"
    and legal_nonzero: "legal s x \<Longrightarrow> x \<noteq> 0"
    and inv_distinct: "inv s xs \<Longrightarrow> distinct xs"
begin

lemma free_then_alloc:
  assumes "inv s xs" "legal s v" "v \<notin> set xs"
  shows "\<exists>t. bind (fr v s) (\<lambda>_ s. al s) = Ok v t \<and> inv t xs"
proof -
  obtain t where "fr v s = Ok () t" "inv t (v # xs)" using fr_inv [OF assms] by blast
  moreover from this obtain u where "al t = Ok v u" "inv u xs" using al_Cons by blast
  ultimately show ?thesis by auto
qed

text \<open>
  Whatever the client does, it never panics and pages are never duplicated or lost: what it
  owns together with what is free is always the same collection of pages.
\<close>

lemma trace_Cons:
  "page_trace al fr (r # rs) own s = bind (page_trace al fr [r] own s) (page_trace al fr rs)"
  by (cases r) (simp_all add: bind_assoc)

lemma alloc_conserves:
  assumes "inv s xs" "\<forall>p \<in> set own. legal s p"
  shows "\<exists>own' t xs'. page_trace al fr [PgAlloc] own s = Ok own' t \<and> inv t xs'
    \<and> mset own' + mset xs' = mset own + mset xs \<and> (\<forall>p \<in> set own'. legal t p)"
proof (cases xs)
  case Nil
  then show ?thesis using assms al_Nil [of s] by fastforce
next
  case (Cons x ys)
  then obtain t where t: "al s = Ok x t" "inv t ys" "legal t = legal s"
    using al_Cons assms(1) by blast
  have x: "legal s x" using inv_legal Cons assms(1) by auto
  then have "x \<noteq> 0" by (rule legal_nonzero)
  with t x Cons assms(2) show ?thesis by auto
qed

lemma free_conserves:
  assumes "inv s xs" "distinct (own @ xs)" "\<forall>p \<in> set own. legal s p"
  shows "\<exists>own' t xs'. page_trace al fr [PgFree i] own s = Ok own' t \<and> inv t xs'
    \<and> mset own' + mset xs' = mset own + mset xs \<and> (\<forall>p \<in> set own'. legal t p)"
proof (cases "i < length own")
  case False
  with assms show ?thesis by auto
next
  case True
  let ?rest = "take i own @ drop (Suc i) own"
  have split: "mset own = add_mset (own ! i) (mset ?rest)"
    using True by (metis id_take_nth_drop mset_append mset.simps(2) union_mset_add_mset_right)
  have "own ! i \<in> set own" using True by simp
  then have "own ! i \<notin> set xs" "legal s (own ! i)" using assms by auto
  then obtain t where t: "fr (own ! i) s = Ok () t" "inv t (own ! i # xs)" "legal t = legal s"
    using fr_inv [OF assms(1)] by blast
  have "set ?rest \<subseteq> set own"
    using split by (metis set_mset_add_mset_insert set_mset_mset subset_insertI)
  then have "\<forall>p \<in> set ?rest. legal t p" using assms(3) t(3) by auto
  then have "page_trace al fr [PgFree i] own s = Ok ?rest t \<and> inv t (own ! i # xs)
    \<and> mset ?rest + mset (own ! i # xs) = mset own + mset xs \<and> (\<forall>p \<in> set ?rest. legal t p)"
    using True t split by simp
  then show ?thesis by blast
qed

lemma trace_conserves:
  assumes "inv s xs" "distinct (own @ xs)" "\<forall>p \<in> set own. legal s p"
  shows "\<exists>own' t xs'. page_trace al fr rs own s = Ok own' t \<and> inv t xs'
    \<and> mset own' + mset xs' = mset own + mset xs \<and> (\<forall>p \<in> set own'. legal t p)"
  using assms
proof (induction rs arbitrary: s xs own)
  case Nil
  then show ?case by auto
next
  case (Cons r rs)
  have "\<exists>own' t xs'. page_trace al fr [r] own s = Ok own' t \<and> inv t xs'
    \<and> mset own' + mset xs' = mset own + mset xs \<and> (\<forall>p \<in> set own'. legal t p)"
    using alloc_conserves free_conserves Cons.prems by (cases r) blast+
  then obtain own' t xs' where 1: "page_trace al fr [r] own s = Ok own' t" "inv t xs'"
    "mset own' + mset xs' = mset own + mset xs" "\<forall>p \<in> set own'. legal t p" by blast
  have "mset (own' @ xs') = mset (own @ xs)" using 1(3) by simp
  then have "distinct (own' @ xs')" using Cons.prems(2) by (metis mset_eq_imp_distinct_iff)
  from Cons.IH [OF 1(2) this 1(4)] 1 show ?case by (auto simp: trace_Cons [of r rs])
qed

end

interpretation xv6_pages: page_allocator kalloc kfree "\<lambda>s xs. kmem_ready s \<and> kmem_inv s xs" kpage
proof (unfold_locales, goal_cases)
  case (1 s x xs)
  then show ?case using kalloc_inv_Cons by blast
next
  case (2 s)
  then show ?case using kalloc_inv_Nil by blast
next
  case (3 s xs v)
  then show ?case using kfree_inv by blast
qed (auto simp: kmem_inv_def kpage_nonzero)

section \<open>Filling the list\<close>

text \<open>The pages \<open>freerange\<close> visits, last one first.\<close>

fun page_run :: "u32 \<Rightarrow> nat \<Rightarrow> u32 list" where
  "page_run p 0 = []"
| "page_run p (Suc n) = page_run (p + PGSIZE) n @ [p]"

lemma freerange_loop_run:
  assumes "kmem_ready s" "kmem_inv s xs" "unat vend \<le> 0x8E000000"
    "unat p + 4096 * n \<le> unat vend" "unat vend < unat p + 4096 * n + 4096"
    "\<forall>x \<in> set (page_run p n). kpage s x \<and> x \<notin> set xs" "distinct (page_run p n)"
  shows "\<exists>t. freerange_loop p vend s = Ok () t \<and> kmem_ready t \<and> kmem_inv t (page_run p n @ xs)"
  using assms
proof (induction n arbitrary: p s xs)
  case 0
  then have "unat (p + 4096) = unat p + 4096" by (simp add: unat_word_ariths)
  then have "\<not> p + PGSIZE \<le> vend"
    using "0.prems" by (simp add: PGSIZE_def word_le_nat_alt)
  with "0.prems" show ?case by (simp add: freerange_loop.simps [of p])
next
  case (Suc n)
  have p: "unat (p + PGSIZE) = unat p + 4096"
    using Suc.prems by (simp add: PGSIZE_def unat_word_ariths)
  then have c: "p + PGSIZE \<le> vend" using Suc.prems by (simp add: word_le_nat_alt)
  obtain t where t: "kfree p s = Ok () t" "kmem_ready t" "kmem_inv t (p # xs)" "kpage t = kpage s"
    using kfree_inv [of s xs p] Suc.prems by auto
  obtain u where u: "freerange_loop (p + PGSIZE) vend t = Ok () u" "kmem_ready u"
    "kmem_inv u (page_run (p + PGSIZE) n @ p # xs)"
    using Suc.IH [of t "p # xs" "p + PGSIZE"] Suc.prems t p by auto
  show ?case using c t u by (simp add: freerange_loop.simps [of p])
qed

lemma unat_page_run:
  assumes "unat p + 4096 * n < 4294967296"
  shows "x \<in> set (page_run p n) \<Longrightarrow> unat p \<le> unat x \<and> unat x < unat p + 4096 * n"
  using assms
proof (induction n arbitrary: p)
  case (Suc n)
  have "unat (p + PGSIZE) = unat p + 4096"
    using Suc.prems by (simp add: PGSIZE_def unat_word_ariths)
  then show ?case using Suc.IH [of "p + PGSIZE"] Suc.prems by auto
qed simp

lemma distinct_page_run: "unat p + 4096 * n < 4294967296 \<Longrightarrow> distinct (page_run p n)"
proof (induction n arbitrary: p)
  case (Suc n)
  have "unat (p + PGSIZE) = unat p + 4096"
    using Suc.prems by (simp add: PGSIZE_def unat_word_ariths)
  then show ?case
    using Suc.IH [of "p + PGSIZE"] unat_page_run [of "p + PGSIZE" n p] Suc.prems by auto
qed simp

lemma page_aligned_add: "page_aligned p \<Longrightarrow> page_aligned (p + PGSIZE)"
proof -
  assume "page_aligned p"
  then have "4096 dvd unat p" by (auto simp: page_aligned_def)
  moreover have "(4096::nat) dvd 4294967296" by simp
  ultimately have "4096 dvd (unat p + 4096) mod 4294967296"
    by (metis dvd_add dvd_mod dvd_refl)
  then show ?thesis by (simp add: page_aligned_def PGSIZE_def unat_word_ariths)
qed

lemma aligned_page_run: "page_aligned p \<Longrightarrow> x \<in> set (page_run p n) \<Longrightarrow> page_aligned x"
  by (induction n arbitrary: p) (auto dest: page_aligned_add)

lemma kpageI:
  assumes "page_aligned x" "unat (kend s) \<le> unat x" "0x80000000 \<le> unat x" "unat x < 0x8E000000"
  shows "kpage s x"
  using assms
  by (simp add: kpage_def word_le_nat_alt word_less_nat_alt V2P_def KERNBASE_def PHYSTOP_def
      unat_sub_if')

section \<open>Properties\<close>

text \<open>C5: conservation of pages. From a consistent free list \<open>xs\<close>, whatever sequence of
  \<open>kalloc\<close> calls and \<open>kfree\<close> calls on pages it owns a client makes, no call panics, the
  free list stays consistent, and the pages owned together with the pages free are exactly
  the pages of \<open>xs\<close>: none is handed out twice and none is lost.\<close>

theorem kalloc_conserves_pages:
  assumes "kmem_ready s" "kmem_inv s xs"
  shows "\<exists>own t free. page_trace kalloc kfree rs [] s = Ok own t \<and> kmem_inv t free
    \<and> mset (own @ free) = mset xs \<and> distinct (own @ free)"
proof -
  have d: "distinct ([] @ xs)" using assms(2) by (simp add: kmem_inv_def)
  obtain own t free where "page_trace kalloc kfree rs [] s = Ok own t" "kmem_inv t free"
    "mset own + mset free = mset xs"
    using xv6_pages.trace_conserves [of s xs "[]" rs] assms d by auto
  moreover from this(3) have "distinct (own @ free)"
    using d mset_eq_imp_distinct_iff [of "own @ free" xs] by simp
  ultimately show ?thesis by auto
qed

definition kmem0 :: kmem where
  "kmem0 = mach.extend mach0 \<lparr>kend = 0x80100000, mem = (\<lambda>_. 0), freelist = 0x80200000, use_lock = True\<rparr>"

lemma kmem0_ok: "kmem_ready kmem0" "kmem_inv kmem0 [0x80200000]" "kend kmem0 = 0x80100000"
  by (simp_all add: kmem_ready_def kmem0_def mach0_def mach.defs mach_ok_def curcpu_def lk_free_def
      kmem_inv_def load32_def kpage_def page_aligned_def V2P_def KERNBASE_def PHYSTOP_def)

theorem kalloc_conserves_pages_witness:
  "\<exists>own t free. page_trace kalloc kfree [PgAlloc, PgFree 0, PgAlloc, PgAlloc] [] kmem0 = Ok own t
    \<and> kmem_inv t free \<and> mset (own @ free) = mset [0x80200000] \<and> distinct (own @ free)"
  by (rule kalloc_conserves_pages [OF kmem0_ok(1,2)])

text \<open>C6: \<open>freerange\<close> puts exactly the whole pages of \<open>[vstart, vend)\<close> on an empty list: it
  terminates without a panic and the list is the run of those pages, the last one first.\<close>

theorem freerange_fills:
  assumes "kmem_ready s" "kmem_inv s []" "unat (kend s) \<le> unat vstart"
    and "0x80000000 \<le> unat vstart" "unat vstart \<le> unat vend" "unat vend \<le> 0x8E000000"
    and "unat (PGROUNDUP vstart) + 4096 * n \<le> unat vend"
    and "unat vend < unat (PGROUNDUP vstart) + 4096 * n + 4096"
  shows "\<exists>t. freerange vstart vend s = Ok () t \<and> kmem_inv t (page_run (PGROUNDUP vstart) n)"
proof -
  let ?p = "PGROUNDUP vstart"
  have "unat ?p + 4096 * n < 4294967296" using assms(6,7) by linarith
  note run = unat_page_run [OF this] distinct_page_run [OF this]
  have "unat vstart \<le> (unat vstart + 4095) div 4096 * 4096"
    using div_mult_mod_eq [of "unat vstart + 4095" 4096] mod_less_divisor [of 4096 "unat vstart + 4095"]
    by linarith
  then have "unat vstart \<le> unat ?p" using assms(5,6) by (simp add: unat_PGROUNDUP)
  then have "\<forall>x \<in> set (page_run ?p n). kpage s x \<and> x \<notin> set []"
    using run(1) assms aligned_page_run [of ?p] by (fastforce intro!: kpageI)
  from freerange_loop_run [OF assms(1,2,6-8) this run(2)] show ?thesis
    by (auto simp: freerange_def)
qed

definition kmem_boot :: kmem where
  "kmem_boot = kmem0\<lparr>freelist := 0\<rparr>"

lemma kmem_boot_ok: "kmem_ready kmem_boot" "kmem_inv kmem_boot []" "kend kmem_boot = 0x80100000"
  using kmem0_ok by (simp_all add: kmem_boot_def kmem_ready_def kmem_inv_def)

theorem freerange_fills_witness:
  "\<exists>t. freerange 0x80100004 0x80104010 kmem_boot = Ok () t
    \<and> kmem_inv t [0x80103000, 0x80102000, 0x80101000]"
  using freerange_fills [of kmem_boot "0x80100004" "0x80104010" 3] kmem_boot_ok
  by (simp add: PGROUNDUP_def PGSIZE_def numeral_3_eq_3)

end
