(* ===== verification/Vm.thy ===== *)
theory Vm
  imports Kalloc
begin

text \<open>
  Virtual memory, \<open>src/my-xv6-public/vm.c\<close>: page directories and page tables as the 32-bit
  cells the hardware reads, in the same byte-addressed memory that holds the free list.
  The diagnostics that \<open>allocuvm\<close> prints with \<open>cprintf\<close> are not part of the state.
\<close>

section \<open>State\<close>

record segdesc =
  lim_15_0 :: u32
  base_15_0 :: u32
  base_23_16 :: u32
  sd_type :: u32
  sd_s :: u32
  dpl :: u32
  sd_p :: u32
  lim_19_16 :: u32
  avl :: u32
  rsv1 :: u32
  db :: u32
  sd_g :: u32
  base_31_24 :: u32

definition SEG :: "u32 \<Rightarrow> u32 \<Rightarrow> u32 \<Rightarrow> u32 \<Rightarrow> segdesc" where
  "SEG type base lim d = \<lparr>lim_15_0 = drop_bit 12 lim AND 0xFFFF, base_15_0 = base AND 0xFFFF,
     base_23_16 = drop_bit 16 base AND 0xFF, sd_type = type, sd_s = 1, dpl = d, sd_p = 1,
     lim_19_16 = drop_bit 28 lim, avl = 0, rsv1 = 0, db = 1, sd_g = 1,
     base_31_24 = drop_bit 24 base\<rparr>"

definition SEG16 :: "u32 \<Rightarrow> u32 \<Rightarrow> u32 \<Rightarrow> u32 \<Rightarrow> segdesc" where
  "SEG16 type base lim d = \<lparr>lim_15_0 = lim AND 0xFFFF, base_15_0 = base AND 0xFFFF,
     base_23_16 = drop_bit 16 base AND 0xFF, sd_type = type, sd_s = 1, dpl = d, sd_p = 1,
     lim_19_16 = drop_bit 16 lim, avl = 0, rsv1 = 0, db = 1, sd_g = 0,
     base_31_24 = drop_bit 24 base\<rparr>"

definition SEG_KCODE :: nat where "SEG_KCODE = 1"
definition SEG_KDATA :: nat where "SEG_KDATA = 2"
definition SEG_UCODE :: nat where "SEG_UCODE = 3"
definition SEG_UDATA :: nat where "SEG_UDATA = 4"
definition SEG_TSS :: nat where "SEG_TSS = 5"
definition DPL_USER :: u32 where "DPL_USER = 3"
definition STA_X :: u32 where "STA_X = 8"
definition STA_W :: u32 where "STA_W = 2"
definition STA_R :: u32 where "STA_R = 2"
definition STS_T32A :: u32 where "STS_T32A = 9"
definition KSTACKSIZE :: u32 where "KSTACKSIZE = 4096"

text \<open>The fields of the task state segment that the kernel sets (the others are never read).\<close>

record taskstate =
  ts_esp0 :: u32
  ts_ss0 :: u32
  ts_iomb :: u32

text \<open>
  \<open>kdata\<close> is the linker symbol \<open>data\<close>, \<open>ts_addr c\<close> the address of \<open>cpus[c].ts\<close>; \<open>cr3\<close>, \<open>gdtr\<close>
  and \<open>tr\<close> are the registers of each processor, by local APIC id.
\<close>

record kvm = kmem +
  kpgdir :: u32
  kdata :: u32
  ts_addr :: "nat \<Rightarrow> u32"
  gdt :: "nat \<Rightarrow> nat \<Rightarrow> segdesc"
  tss :: "nat \<Rightarrow> taskstate"
  cr3 :: "nat \<Rightarrow> u32"
  gdtr :: "nat \<Rightarrow> nat option"
  tr :: "nat \<Rightarrow> nat"

section \<open>Operations\<close>

definition seginit :: "'a kvm_scheme \<Rightarrow> (unit, 'a kvm_scheme) res" where
  "seginit s = bind (mycpu s) (\<lambda>c s.
     let g = (gdt s c)(SEG_KCODE := SEG (STA_X OR STA_R) 0 0xFFFFFFFF 0,
                       SEG_KDATA := SEG STA_W 0 0xFFFFFFFF 0,
                       SEG_UCODE := SEG (STA_X OR STA_R) 0 0xFFFFFFFF DPL_USER,
                       SEG_UDATA := SEG STA_W 0 0xFFFFFFFF DPL_USER) in
     Ok () (s\<lparr>gdt := (gdt s)(c := g), gdtr := (gdtr s)(lapicid s := Some c)\<rparr>))"

definition walkpgdir :: "u32 \<Rightarrow> u32 \<Rightarrow> bool \<Rightarrow> 'a kmem_scheme \<Rightarrow> (u32, 'a kmem_scheme) res" where
  "walkpgdir pgdir va alloc s =
    (let pde = pgdir + 4 * PDX va in
     if load32 (mem s) pde AND PTE_P \<noteq> 0
     then Ok (P2V (PTE_ADDR (load32 (mem s) pde)) + 4 * PTX va) s
     else if \<not> alloc then Ok 0 s
     else bind (kalloc s) (\<lambda>pgtab s.
       if pgtab = 0 then Ok 0 s
       else
         let s = s\<lparr>mem := memset (mem s) pgtab 0 PGSIZE\<rparr>;
             s = s\<lparr>mem := store32 (mem s) pde (V2P pgtab OR PTE_P OR PTE_W OR PTE_U)\<rparr> in
         Ok (pgtab + 4 * PTX va) s))"

text \<open>
  The loop of \<open>mappages\<close> ends when \<open>a\<close> reaches \<open>last\<close>; both are page aligned there, and an \<open>a\<close>
  that is off by part of a page would never meet \<open>last\<close>.
\<close>

function mappages_loop ::
  "u32 \<Rightarrow> u32 \<Rightarrow> u32 \<Rightarrow> u32 \<Rightarrow> u32 \<Rightarrow> 'a kmem_scheme \<Rightarrow> (int, 'a kmem_scheme) res" where
  "mappages_loop pgdir a stop pa perm s = bind (walkpgdir pgdir a True s) (\<lambda>pte s.
     if pte = 0 then Ok (- 1) s
     else if load32 (mem s) pte AND PTE_P \<noteq> 0 then Panic ''remap''
     else
       let s = s\<lparr>mem := store32 (mem s) pte (pa OR perm OR PTE_P)\<rparr> in
       if a = stop then Ok 0 s
       else if unat (stop - a) < 4096 then Hang
       else mappages_loop pgdir (a + PGSIZE) stop (pa + PGSIZE) perm s)"
  by pat_completeness auto
termination
proof (relation "measure (\<lambda>(pgdir, a, stop, pa, perm, s). unat (stop - a))", simp)
  fix a stop :: u32 and pgdir pa perm :: u32 and s t :: "'a kmem_scheme"
  assume "\<not> unat (stop - a) < 4096"
  then have "unat ((stop - a) - 4096) < unat (stop - a)" by (subst unat_sub_le) simp_all
  moreover have "stop - (a + PGSIZE) = (stop - a) - 4096" by (simp add: PGSIZE_def)
  ultimately have "unat (stop - (a + PGSIZE)) < unat (stop - a)" by (simp only:)
  then show "((pgdir, a + PGSIZE, stop, pa + PGSIZE, perm, t), pgdir, a, stop, pa, perm, s)
    \<in> measure (\<lambda>(pgdir, a, stop, pa, perm, s). unat (stop - a))" by simp
qed

declare mappages_loop.simps [simp del]

definition mappages ::
  "u32 \<Rightarrow> u32 \<Rightarrow> u32 \<Rightarrow> u32 \<Rightarrow> u32 \<Rightarrow> 'a kmem_scheme \<Rightarrow> (int, 'a kmem_scheme) res" where
  "mappages pgdir va siz pa perm s =
     mappages_loop pgdir (PGROUNDDOWN va) (PGROUNDDOWN (va + siz - 1)) pa perm s"

text \<open>
  Loops over user pages count their iterations: an iteration moves on by at least one page,
  so a loop still running after \<open>2\<^sup>2\<^sup>0\<close> of them has wrapped around the address space and starts
  over below its bound (\<open>Hang\<close>).
\<close>

definition npages :: nat where "npages = Suc 1048576"

primrec deallocuvm_loop ::
  "nat \<Rightarrow> u32 \<Rightarrow> u32 \<Rightarrow> u32 \<Rightarrow> 'a kmem_scheme \<Rightarrow> (unit, 'a kmem_scheme) res" where
  "deallocuvm_loop 0 pgdir a oldsz s = Hang"
| "deallocuvm_loop (Suc k) pgdir a oldsz s =
    (if a < oldsz then
       bind (walkpgdir pgdir a False s) (\<lambda>pte s.
       if pte = 0 then
         let a = PGADDR (PDX a + 1) 0 0 - PGSIZE in deallocuvm_loop k pgdir (a + PGSIZE) oldsz s
       else if load32 (mem s) pte AND PTE_P \<noteq> 0 then
         let pa = PTE_ADDR (load32 (mem s) pte) in
         if pa = 0 then Panic ''kfree''
         else bind (kfree (P2V pa) s) (\<lambda>_ s.
           deallocuvm_loop k pgdir (a + PGSIZE) oldsz (s\<lparr>mem := store32 (mem s) pte 0\<rparr>))
       else deallocuvm_loop k pgdir (a + PGSIZE) oldsz s)
     else Ok () s)"

definition deallocuvm :: "u32 \<Rightarrow> u32 \<Rightarrow> u32 \<Rightarrow> 'a kmem_scheme \<Rightarrow> (u32, 'a kmem_scheme) res" where
  "deallocuvm pgdir oldsz newsz s =
    (if newsz \<ge> oldsz then Ok oldsz s
     else bind (deallocuvm_loop npages pgdir (PGROUNDUP newsz) oldsz s) (\<lambda>_ s. Ok newsz s))"

fun freevm_loop :: "u32 \<Rightarrow> nat list \<Rightarrow> 'a kmem_scheme \<Rightarrow> (unit, 'a kmem_scheme) res" where
  "freevm_loop pgdir [] s = Ok () s"
| "freevm_loop pgdir (i # is) s =
    (let pde = load32 (mem s) (pgdir + 4 * of_nat i) in
     if pde AND PTE_P \<noteq> 0
     then bind (kfree (P2V (PTE_ADDR pde)) s) (\<lambda>_ s. freevm_loop pgdir is s)
     else freevm_loop pgdir is s)"

definition freevm :: "u32 \<Rightarrow> 'a kmem_scheme \<Rightarrow> (unit, 'a kmem_scheme) res" where
  "freevm pgdir s =
    (if pgdir = 0 then Panic ''freevm: no pgdir''
     else bind (deallocuvm pgdir KERNBASE 0 s) (\<lambda>_ s.
       bind (freevm_loop pgdir [0..<NPDENTRIES] s) (\<lambda>_ s. kfree pgdir s)))"

definition kmap :: "u32 \<Rightarrow> (u32 \<times> u32 \<times> u32 \<times> u32) list" where
  "kmap dat = [(KERNBASE, 0, EXTMEM, PTE_W), (KERNLINK, V2P KERNLINK, V2P dat, 0),
     (dat, V2P dat, PHYSTOP, PTE_W), (DEVSPACE, DEVSPACE, 0, PTE_W)]"

fun setupkvm_loop :: "u32 \<Rightarrow> (u32 \<times> u32 \<times> u32 \<times> u32) list \<Rightarrow> 'a kmem_scheme
    \<Rightarrow> (u32, 'a kmem_scheme) res" where
  "setupkvm_loop pgdir [] s = Ok pgdir s"
| "setupkvm_loop pgdir ((virt, phys_start, phys_end, perm) # ks) s =
     bind (mappages pgdir virt (phys_end - phys_start) phys_start perm s) (\<lambda>r s.
     if r < 0 then bind (freevm pgdir s) (\<lambda>_ s. Ok 0 s)
     else setupkvm_loop pgdir ks s)"

definition setupkvm :: "'a kvm_scheme \<Rightarrow> (u32, 'a kvm_scheme) res" where
  "setupkvm s = bind (kalloc s) (\<lambda>pgdir s.
     if pgdir = 0 then Ok 0 s
     else
       let s = s\<lparr>mem := memset (mem s) pgdir 0 PGSIZE\<rparr> in
       if P2V PHYSTOP > DEVSPACE then Panic ''PHYSTOP too high''
       else setupkvm_loop pgdir (kmap (kdata s)) s)"

definition switchkvm :: "'a kvm_scheme \<Rightarrow> 'a kvm_scheme" where
  "switchkvm s = s\<lparr>cr3 := (cr3 s)(lapicid s := V2P (kpgdir s))\<rparr>"

definition kvmalloc :: "'a kvm_scheme \<Rightarrow> (unit, 'a kvm_scheme) res" where
  "kvmalloc s = bind (setupkvm s) (\<lambda>p s. Ok () (switchkvm (s\<lparr>kpgdir := p\<rparr>)))"

text \<open>\<open>switchuvm\<close> takes the two fields of the process it reads (\<open>sizeof(struct taskstate)\<close> is 104).\<close>

definition switchuvm :: "u32 \<Rightarrow> u32 \<Rightarrow> 'a kvm_scheme \<Rightarrow> (unit, 'a kvm_scheme) res" where
  "switchuvm kstk pgd s =
    (if kstk = 0 then Panic ''switchuvm: no kstack''
     else if pgd = 0 then Panic ''switchuvm: no pgdir''
     else bind (pushcli s) (\<lambda>_ s. bind (mycpu s) (\<lambda>c s.
       let s = s\<lparr>gdt := (gdt s)(c := (gdt s c)(SEG_TSS := (SEG16 STS_T32A (ts_addr s c) (104 - 1) 0)\<lparr>sd_s := 0\<rparr>)),
                 tss := (tss s)(c := \<lparr>ts_esp0 = kstk + KSTACKSIZE, ts_ss0 = push_bit 3 (of_nat SEG_KDATA),
                                      ts_iomb = 0xFFFF\<rparr>),
                 tr := (tr s)(lapicid s := push_bit 3 SEG_TSS),
                 cr3 := (cr3 s)(lapicid s := V2P pgd)\<rparr> in
       popcli s)))"

text \<open>
  \<open>inituvm\<close> checks neither \<open>kalloc\<close> nor \<open>mappages\<close>; the source bytes \<open>init\<close> are the embedded binary.
\<close>

definition inituvm :: "u32 \<Rightarrow> u32 \<Rightarrow> u32 \<Rightarrow> 'a kvm_scheme \<Rightarrow> (unit, 'a kvm_scheme) res" where
  "inituvm pgdir init siz s =
    (if siz \<ge> PGSIZE then Panic ''inituvm: more than a page''
     else bind (kalloc s) (\<lambda>pg s.
       let s = s\<lparr>mem := memset (mem s) pg 0 PGSIZE\<rparr> in
       bind (mappages pgdir 0 PGSIZE (V2P pg) (PTE_W OR PTE_U) s) (\<lambda>_ s.
       Ok () (s\<lparr>mem := memmove (mem s) pg init siz\<rparr>))))"

primrec allocuvm_loop :: "nat \<Rightarrow> u32 \<Rightarrow> u32 \<Rightarrow> u32 \<Rightarrow> u32 \<Rightarrow> 'a kmem_scheme
    \<Rightarrow> (u32, 'a kmem_scheme) res" where
  "allocuvm_loop 0 pgdir a oldsz newsz s = Hang"
| "allocuvm_loop (Suc k) pgdir a oldsz newsz s =
    (if a < newsz then
       bind (kalloc s) (\<lambda>pg s.
       if pg = 0 then bind (deallocuvm pgdir newsz oldsz s) (\<lambda>_ s. Ok 0 s)
       else
         let s = s\<lparr>mem := memset (mem s) pg 0 PGSIZE\<rparr> in
         bind (mappages pgdir a PGSIZE (V2P pg) (PTE_W OR PTE_U) s) (\<lambda>r s.
         if r < 0 then
           bind (deallocuvm pgdir newsz oldsz s) (\<lambda>_ s. bind (kfree pg s) (\<lambda>_ s. Ok 0 s))
         else allocuvm_loop k pgdir (a + PGSIZE) oldsz newsz s))
     else Ok newsz s)"

definition allocuvm :: "u32 \<Rightarrow> u32 \<Rightarrow> u32 \<Rightarrow> 'a kmem_scheme \<Rightarrow> (u32, 'a kmem_scheme) res" where
  "allocuvm pgdir oldsz newsz s =
    (if newsz \<ge> KERNBASE then Ok 0 s
     else if newsz < oldsz then Ok oldsz s
     else allocuvm_loop npages pgdir (PGROUNDUP oldsz) oldsz newsz s)"

definition clearpteu :: "u32 \<Rightarrow> u32 \<Rightarrow> 'a kmem_scheme \<Rightarrow> (unit, 'a kmem_scheme) res" where
  "clearpteu pgdir uva s = bind (walkpgdir pgdir uva False s) (\<lambda>pte s.
     if pte = 0 then Panic ''clearpteu''
     else Ok () (s\<lparr>mem := store32 (mem s) pte (load32 (mem s) pte AND NOT PTE_U)\<rparr>))"

primrec copyuvm_loop :: "nat \<Rightarrow> u32 \<Rightarrow> u32 \<Rightarrow> u32 \<Rightarrow> u32 \<Rightarrow> 'a kmem_scheme
    \<Rightarrow> (u32, 'a kmem_scheme) res" where
  "copyuvm_loop 0 d pgdir i siz s = Hang"
| "copyuvm_loop (Suc k) d pgdir i siz s =
    (if i < siz then
       bind (walkpgdir pgdir i False s) (\<lambda>pte s.
       if pte = 0 then Panic ''copyuvm: pte should exist''
       else if load32 (mem s) pte AND PTE_P = 0 then Panic ''copyuvm: page not present''
       else
         let pa = PTE_ADDR (load32 (mem s) pte); flags = PTE_FLAGS (load32 (mem s) pte) in
         bind (kalloc s) (\<lambda>pg s.
         if pg = 0 then bind (freevm d s) (\<lambda>_ s. Ok 0 s)
         else
           let s = s\<lparr>mem := memmove (mem s) pg (P2V pa) PGSIZE\<rparr> in
           bind (mappages d i PGSIZE (V2P pg) flags s) (\<lambda>r s.
           if r < 0 then bind (kfree pg s) (\<lambda>_ s. bind (freevm d s) (\<lambda>_ s. Ok 0 s))
           else copyuvm_loop k d pgdir (i + PGSIZE) siz s)))
     else Ok d s)"

definition copyuvm :: "u32 \<Rightarrow> u32 \<Rightarrow> 'a kvm_scheme \<Rightarrow> (u32, 'a kvm_scheme) res" where
  "copyuvm pgdir siz s = bind (setupkvm s) (\<lambda>d s.
     if d = 0 then Ok 0 s else copyuvm_loop npages d pgdir 0 siz s)"

text \<open>
  \<open>uva2ka\<close> reads \<open>*pte\<close> without checking the pointer: with no page-table page the address read
  is 0.
\<close>

definition uva2ka :: "u32 \<Rightarrow> u32 \<Rightarrow> 'a kmem_scheme \<Rightarrow> (u32, 'a kmem_scheme) res" where
  "uva2ka pgdir uva s = bind (walkpgdir pgdir uva False s) (\<lambda>pte s.
     if load32 (mem s) pte AND PTE_P = 0 then Ok 0 s
     else if load32 (mem s) pte AND PTE_U = 0 then Ok 0 s
     else Ok (P2V (PTE_ADDR (load32 (mem s) pte))) s)"

lemma page_offset: "unat (va - PGROUNDDOWN va) = unat va mod 4096"
proof -
  have "unat va div 4096 * 4096 \<le> unat va" by simp
  then show ?thesis
    by (simp add: unat_sub_if' unat_PGROUNDDOWN minus_div_mult_eq_mod)
qed

definition copy_chunk :: "u32 \<Rightarrow> u32 \<Rightarrow> u32" where
  "copy_chunk va len =
    (let n = PGSIZE - (va - PGROUNDDOWN va) in if n > len then len else n)"

lemma unat_copy_chunk: "unat (copy_chunk va len) = min (unat len) (4096 - unat va mod 4096)"
proof -
  have "unat (PGSIZE - (va - PGROUNDDOWN va)) = 4096 - unat va mod 4096"
    using mod_less_divisor [of 4096 "unat va"]
    by (subst unat_sub_le) (simp_all add: page_offset PGSIZE_def)
  then show ?thesis by (simp add: copy_chunk_def Let_def word_less_nat_alt min_def)
qed

function copyout :: "u32 \<Rightarrow> u32 \<Rightarrow> u32 \<Rightarrow> u32 \<Rightarrow> 'a kmem_scheme \<Rightarrow> (int, 'a kmem_scheme) res" where
  "copyout pgdir va buf len s =
    (if len > 0 then
       let va0 = PGROUNDDOWN va in
       bind (uva2ka pgdir va0 s) (\<lambda>pa0 s.
       if pa0 = 0 then Ok (- 1) s
       else
         let n = copy_chunk va len;
             s = s\<lparr>mem := memmove (mem s) (pa0 + (va - va0)) buf n\<rparr> in
         copyout pgdir (va0 + PGSIZE) (buf + n) (len - n) s)
     else Ok 0 s)"
  by pat_completeness auto
termination
proof (relation "measure (\<lambda>(pgdir, va, buf, len, s). unat len)", simp)
  fix pgdir va buf len va0 n pa0 :: u32 and s t u :: "'a kmem_scheme"
  assume "len > 0" and n: "n = copy_chunk va len"
  have "0 < unat n" "unat n \<le> unat len"
    using \<open>len > 0\<close> mod_less_divisor [of 4096 "unat va"]
    unfolding n unat_copy_chunk by (simp_all add: word_less_nat_alt)
  then show "((pgdir, va0 + PGSIZE, buf + n, len - n, u), pgdir, va, buf, len, s)
    \<in> measure (\<lambda>(pgdir, va, buf, len, s). unat len)"
    by (simp add: unat_sub_if')
qed

declare copyout.simps [simp del]

section \<open>Page tables as maps\<close>

text \<open>The entry of a page directory for \<open>va\<close>, its page table, and the page-table entry.\<close>

definition present :: "u32 \<Rightarrow> bool" where
  "present e \<longleftrightarrow> e AND PTE_P \<noteq> 0"

definition pde_of :: "mem \<Rightarrow> u32 \<Rightarrow> u32 \<Rightarrow> u32" where
  "pde_of m pgdir i = load32 m (pgdir + 4 * i)"

definition ptab_of :: "mem \<Rightarrow> u32 \<Rightarrow> u32 \<Rightarrow> u32" where
  "ptab_of m pgdir i = P2V (PTE_ADDR (pde_of m pgdir i))"

definition pte_of :: "mem \<Rightarrow> u32 \<Rightarrow> u32 \<Rightarrow> u32" where
  "pte_of m pgdir va = (if present (pde_of m pgdir (PDX va))
     then load32 m (ptab_of m pgdir (PDX va) + 4 * PTX va) else 0)"

lemma unat_4mult: "unat i < 1024 \<Longrightarrow> unat (4 * i :: u32) = 4 * unat i"
  by (simp add: unat_word_ariths)

lemma entry_off: "unat i < 1024 \<Longrightarrow> unat (4 * i :: u32) < 4093"
  by (simp add: unat_4mult)

lemma entry_aligned:
  assumes "page_aligned p" "unat i < 1024"
  shows "unat (p + 4 * i) mod 4 = 0"
proof -
  have "unat (p + 4 * i) = unat p + 4 * unat i"
    using aligned_less_top [OF assms(1)] assms(2) by (subst unat_add_less) (simp_all add: unat_4mult)
  moreover have "unat p mod 4 = 0"
    using assms(1) mod_mod_cancel [of 4 4096 "unat p"] by (simp add: page_aligned_def)
  ultimately show ?thesis by (simp add: mod_add_left_eq [symmetric, of "unat p"])
qed

lemma entry_inj: "unat i < 1024 \<Longrightarrow> unat j < 1024 \<Longrightarrow> p + 4 * i = p + 4 * j \<longleftrightarrow> i = (j :: u32)"
  using unat_4mult [of i] unat_4mult [of j] by (metis add_left_cancel mult_left_cancel word_unat_eq_iff
      zero_neq_numeral)

text \<open>A store into one entry, seen from any entry.\<close>

lemma load_entry_store:
  assumes "page_aligned p" "page_aligned q" "unat i < 1024" "unat j < 1024"
  shows "load32 (store32 m (p + 4 * i) v) (q + 4 * j)
    = (if p = q \<and> i = j then v else load32 m (q + 4 * j))"
proof (cases "p = q")
  case True
  then show ?thesis
    using load32_store32_other [of "p + 4 * i" "q + 4 * j" m v] entry_aligned assms entry_inj [of i j p]
    by (cases "i = j") simp_all
next
  case False
  then show ?thesis
    using load32_store32_other_page [of p q "4 * i" "4 * j" m v] assms by (simp add: entry_off)
qed

lemma load_entry_fill:
  assumes "page_aligned p" "page_aligned q" "unat j < 1024"
  shows "load32 (mem_fill m p 0 4096) (q + 4 * j)
    = (if p = q then 0 else load32 m (q + 4 * j))"
proof (cases "p = q")
  case True
  have "unat (4 * j) < 4093" "unat (4 * j + 1) = unat (4 * j) + 1" "unat (4 * j + 2) = unat (4 * j) + 2"
    "unat (4 * j + 3) = unat (4 * j) + 3"
    using entry_off [OF assms(3)] by (simp_all add: unat_word_ariths)
  then have "in_range p 4096 (p + (4 * j))" "in_range p 4096 (p + (4 * j + 1))"
    "in_range p 4096 (p + (4 * j + 2))" "in_range p 4096 (p + (4 * j + 3))"
    by (auto simp only: in_range_base) 
  then show ?thesis using True by (simp add: load32_def mem_fill_in add.assoc)
next
  case False
  then show ?thesis using assms load32_fill_other_page [of p q "4 * j"] by (simp add: entry_off)
qed

lemma aligned_bits: "page_aligned a \<Longrightarrow> n < 12 \<Longrightarrow> \<not> bit a n"
proof -
  assume a: "page_aligned a" and n: "n < 12"
  have "take_bit 12 a = 0"
    using a by (simp add: page_aligned_def word_unat_eq_iff unat_mod take_bit_eq_mod)
  then show "\<not> bit a n" using n by (metis bit_take_bit_iff bit_0_eq bot_apply bot_bool_def)
qed

lemma small_bits:
  assumes "unat (f :: u32) < 4096" "12 \<le> n"
  shows "\<not> bit f n"
proof -
  have "take_bit 12 f = f"
    using assms(1) by (simp add: word_unat_eq_iff unat_mod take_bit_eq_mod)
  then show ?thesis using assms(2) by (metis bit_take_bit_iff not_le)
qed

lemma PTE_ADDR_or: "page_aligned a \<Longrightarrow> unat f < 4096 \<Longrightarrow> PTE_ADDR (a OR f) = a"
  unfolding PTE_ADDR_def
proof (rule bit_word_eqI)
  fix n assume "page_aligned a" "unat f < 4096" "n < LENGTH(32)"
  moreover have "bit (0xFFF :: u32) n \<longleftrightarrow> n < 12"
  proof -
    have "(0xFFF :: u32) = mask 12" by (simp add: mask_eq_exp_minus_1)
    then show ?thesis by (simp only: bit_mask_iff) auto
  qed
  ultimately show "bit ((a OR f) AND NOT 0xFFF) n = bit a n"
    using aligned_bits [of a n] small_bits [of f n]
    by (cases "n < 12") (auto simp: bit_simps)
qed

lemma P2V_V2P [simp]: "P2V (V2P x) = x" "V2P (P2V x) = x"
  by (simp_all add: P2V_def V2P_def)

lemma V2P_aligned:
  assumes "page_aligned x"
  shows "page_aligned (V2P x)"
proof -
  have x: "4096 dvd unat x" using assms by (auto simp: page_aligned_def)
  have k: "(4096::nat) dvd 2147483648" by simp
  have "unat (x - KERNBASE) = unat x - 2147483648 \<or> unat (x - KERNBASE) = unat x + 2147483648"
    by (simp add: KERNBASE_def unat_sub_if')
  then have "4096 dvd unat (x - KERNBASE)"
    using dvd_diff_nat [OF x k] dvd_add [OF x k] by (elim disjE) (simp_all only:)
  then show ?thesis by (auto simp: page_aligned_def V2P_def)
qed

lemma P2V_aligned: "page_aligned x \<Longrightarrow> page_aligned (P2V x)"
proof -
  assume "page_aligned x"
  moreover have "P2V x = V2P x" by (simp add: P2V_def V2P_def KERNBASE_def)
  ultimately show ?thesis using V2P_aligned by simp
qed

lemma ptab_aligned [simp]: "page_aligned (ptab_of m pgdir i)"
  by (simp add: ptab_of_def P2V_aligned)

section \<open>The invariant of a page directory\<close>

text \<open>
  The directory and its page tables are distinct pages of kernel memory, none of them on the
  free list \<open>xs\<close>.
\<close>

definition pd_tables :: "mem \<Rightarrow> u32 \<Rightarrow> u32 list \<Rightarrow> bool" where
  "pd_tables m pgdir xs \<longleftrightarrow>
    (\<forall>i. unat i < 1024 \<longrightarrow> present (pde_of m pgdir i) \<longrightarrow>
       ptab_of m pgdir i \<notin> set xs \<and> ptab_of m pgdir i \<noteq> pgdir \<and>
       (\<forall>j. unat j < 1024 \<longrightarrow> present (pde_of m pgdir j) \<longrightarrow> i \<noteq> j \<longrightarrow>
          ptab_of m pgdir i \<noteq> ptab_of m pgdir j))"

definition pd_inv :: "'a kmem_scheme \<Rightarrow> u32 \<Rightarrow> u32 list \<Rightarrow> bool" where
  "pd_inv s pgdir xs \<longleftrightarrow> kmem_ready s \<and> kmem_inv s xs \<and> kpage s pgdir \<and> pgdir \<notin> set xs
    \<and> (\<forall>i. unat i < 1024 \<longrightarrow> present (pde_of (mem s) pgdir i) \<longrightarrow> kpage s (ptab_of (mem s) pgdir i))
    \<and> pd_tables (mem s) pgdir xs"

text \<open>The pages whose bytes the page-table code may change: the directory, its tables, free pages.\<close>

definition pt_page :: "mem \<Rightarrow> u32 \<Rightarrow> u32 list \<Rightarrow> u32 \<Rightarrow> bool" where
  "pt_page m pgdir xs p \<longleftrightarrow> p = pgdir \<or> p \<in> set xs
     \<or> (\<exists>i. unat i < 1024 \<and> present (pde_of m pgdir i) \<and> p = ptab_of m pgdir i)"

definition same_outside :: "mem \<Rightarrow> u32 \<Rightarrow> u32 list \<Rightarrow> mem \<Rightarrow> bool" where
  "same_outside m pgdir xs m' \<longleftrightarrow>
    (\<forall>x. \<not> pt_page m pgdir xs (PGROUNDDOWN x) \<longrightarrow> m' x = m x)"

lemma in_own_page: "page_aligned p \<Longrightarrow> in_range p 4096 x \<longleftrightarrow> PGROUNDDOWN x = p"
  by (metis in_page_iff aligned_div_inj PGROUNDDOWN_aligned unat_PGROUNDDOWN div_mult_self_is_m
      zero_less_numeral)

lemma entry_in_page: "page_aligned p \<Longrightarrow> unat i < 1024 \<Longrightarrow> PGROUNDDOWN (p + 4 * i) = p"
  using in_own_page [of p "p + 4 * i"] entry_off [of i] by (simp add: in_range_base)

lemma store_entry_outside:
  "page_aligned p \<Longrightarrow> unat i < 1024 \<Longrightarrow> PGROUNDDOWN x \<noteq> p \<Longrightarrow> store32 m (p + 4 * i) v x = m x"
  by (intro store32_out_page) (simp_all add: in_own_page entry_off)

lemma free_link_store:
  assumes "page_aligned p" "unat i < 1024" "page_aligned x" "x \<noteq> p"
  shows "load32 (store32 m (p + 4 * i) v) x = load32 m x"
  using load_entry_store [of p x i 0 m v] assms by simp

lemma kmem_inv_store:
  assumes "kmem_inv s xs" "page_aligned p" "unat i < 1024" "p \<notin> set xs"
  shows "kmem_inv (s\<lparr>mem := store32 (mem s) (p + 4 * i) v\<rparr>) xs"
proof -
  have "flist (store32 (mem s) (p + 4 * i) v) (freelist s) xs = flist (mem s) (freelist s) xs"
    using assms by (intro flist_cong free_link_store) (auto simp: kmem_inv_def kpage_def)
  then show ?thesis using assms(1) by (simp add: kmem_inv_def)
qed

lemma kmem_inv_fill:
  assumes "kmem_inv s xs" "page_aligned p" "p \<notin> set xs"
  shows "kmem_inv (s\<lparr>mem := mem_fill (mem s) p 0 4096\<rparr>) xs"
proof -
  have "flist (mem_fill (mem s) p 0 4096) (freelist s) xs = flist (mem s) (freelist s) xs"
  proof (rule flist_cong)
    fix x assume "x \<in> set xs"
    then have "page_aligned x" "x \<noteq> p" using assms by (auto simp: kmem_inv_def kpage_def)
    then show "load32 (mem_fill (mem s) p 0 4096) x = load32 (mem s) x"
      using load_entry_fill [of p x 0 "mem s"] assms(2) by simp
  qed
  then show ?thesis using assms(1) by (simp add: kmem_inv_def)
qed

text \<open>Storing a page-table entry.\<close>

lemma set_pte_inv:
  fixes v :: u32
  assumes "pd_inv s pgdir xs" "present (pde_of (mem s) pgdir (PDX va))"
  defines "p \<equiv> ptab_of (mem s) pgdir (PDX va) + 4 * PTX va"
  defines "t \<equiv> s\<lparr>mem := store32 (mem s) p v\<rparr>"
  shows "pd_inv t pgdir xs" "\<And>i. unat i < 1024 \<Longrightarrow> pde_of (mem t) pgdir i = pde_of (mem s) pgdir i"
    and "\<And>va'. pte_of (mem t) pgdir va' = (if same_page va' va then v else pte_of (mem s) pgdir va')"
    and "same_outside (mem s) pgdir xs (mem t)"
proof -
  let ?pt = "ptab_of (mem s) pgdir (PDX va)"
  have pg: "page_aligned pgdir" using assms(1) by (simp add: pd_inv_def kpage_def)
  have pt: "?pt \<noteq> pgdir" "?pt \<notin> set xs" "kpage s ?pt"
    using assms(1,2) PDX_less [of va] by (auto simp: pd_inv_def pd_tables_def)
  show pde: "pde_of (mem t) pgdir i = pde_of (mem s) pgdir i" if "unat i < 1024" for i
    using load_entry_store [of ?pt pgdir "PTX va" i "mem s" v] pt pg that PTX_less [of va]
    by (simp add: pde_of_def t_def p_def)
  then have tab: "ptab_of (mem t) pgdir i = ptab_of (mem s) pgdir i" if "unat i < 1024" for i
    using that by (simp add: ptab_of_def)
  have "kmem_inv t xs"
    unfolding t_def p_def using assms(1) pt(2) PTX_less by (intro kmem_inv_store) (simp_all add: pd_inv_def)
  then show "pd_inv t pgdir xs"
    using assms(1) pde tab by (auto simp: pd_inv_def pd_tables_def t_def)
  show "pte_of (mem t) pgdir va' = (if same_page va' va then v else pte_of (mem s) pgdir va')" for va'
  proof (cases "present (pde_of (mem s) pgdir (PDX va'))")
    case False
    then show ?thesis using assms(2) pde [OF PDX_less] by (auto simp: pte_of_def same_page_iff)
  next
    case True
    then have "?pt = ptab_of (mem s) pgdir (PDX va') \<longleftrightarrow> PDX va = PDX va'"
      using assms(1,2) PDX_less [of va] PDX_less [of va'] by (auto simp: pd_inv_def pd_tables_def)
    then show ?thesis
      using True pde [OF PDX_less] tab [OF PDX_less] PTX_less [of va] PTX_less [of va']
        load_entry_store [of ?pt "ptab_of (mem s) pgdir (PDX va')" "PTX va" "PTX va'" "mem s" v]
      by (auto simp: pte_of_def same_page_iff t_def p_def)
  qed
  show "same_outside (mem s) pgdir xs (mem t)"
    unfolding same_outside_def t_def p_def using assms(2) PDX_less [of va] PTX_less [of va]
    by (auto simp: pt_page_def intro!: store_entry_outside)
qed

text \<open>\<open>walkpgdir\<close>: a present table, a missing one, and one that is allocated.\<close>

lemma walk_present:
  "present (pde_of (mem s) pgdir (PDX va)) \<Longrightarrow>
    walkpgdir pgdir va al s = Ok (ptab_of (mem s) pgdir (PDX va) + 4 * PTX va) s"
  by (simp add: walkpgdir_def present_def pde_of_def ptab_of_def)

lemma walk_absent:
  "\<not> present (pde_of (mem s) pgdir (PDX va)) \<Longrightarrow> walkpgdir pgdir va False s = Ok 0 s"
  by (simp add: walkpgdir_def present_def pde_of_def)

lemma present_table [simp]: "present (a OR PTE_P OR PTE_W OR PTE_U)" "present (a OR f OR PTE_P)"
  by (simp_all add: present_def PTE_P_def word_bw_assocs bit.conj_disj_distrib2 bit.conj_disj_distrib)

lemma PTE_ADDR_table: "page_aligned x \<Longrightarrow> PTE_ADDR (V2P x OR PTE_P OR PTE_W OR PTE_U) = V2P x"
  using PTE_ADDR_or [of "V2P x" 7] V2P_aligned [of x]
  by (simp add: PTE_P_def PTE_W_def PTE_U_def or.assoc)

lemma new_table:
  assumes inv: "pd_inv s pgdir (x # xs)" and abs: "\<not> present (pde_of (mem s) pgdir (PDX va))"
  defines "m \<equiv> store32 (mem_fill (mem s) x 0 4096) (pgdir + 4 * PDX va)
    (V2P x OR PTE_P OR PTE_W OR PTE_U)"
  shows "present (pde_of m pgdir (PDX va))" "ptab_of m pgdir (PDX va) = x"
    and "\<And>i. unat i < 1024 \<Longrightarrow> i \<noteq> PDX va \<Longrightarrow> pde_of m pgdir i = pde_of (mem s) pgdir i"
    and "\<And>va'. pte_of m pgdir va' = pte_of (mem s) pgdir va'"
    and "same_outside (mem s) pgdir (x # xs) m"
proof -
  have al: "page_aligned x" "page_aligned pgdir" "x \<noteq> pgdir"
    using inv by (auto simp: pd_inv_def kmem_inv_def kpage_def)
  have pde: "pde_of m pgdir i = (if i = PDX va then V2P x OR PTE_P OR PTE_W OR PTE_U
    else pde_of (mem s) pgdir i)" if "unat i < 1024" for i
    using load_entry_store [OF al(2,2) PDX_less that] load_entry_fill [OF al(1,2) that] al(3)
    by (auto simp: pde_of_def m_def)
  then show p: "present (pde_of m pgdir (PDX va))" and t: "ptab_of m pgdir (PDX va) = x"
    using PDX_less [of va] al by (simp_all add: ptab_of_def PTE_ADDR_table)
  show o: "pde_of m pgdir i = pde_of (mem s) pgdir i" if "unat i < 1024" "i \<noteq> PDX va" for i
    using pde that by simp
  show "pte_of m pgdir va' = pte_of (mem s) pgdir va'" for va'
  proof (cases "PDX va' = PDX va")
    case True
    have "load32 m (x + 4 * PTX va') = 0"
      using load_entry_store [OF al(2,1) PDX_less PTX_less] load_entry_fill [OF al(1,1) PTX_less] al(3)
      by (simp add: m_def)
    then show ?thesis using True p t abs by (simp add: pte_of_def)
  next
    case False
    note eq = o [OF PDX_less False]
    then have tab: "ptab_of m pgdir (PDX va') = ptab_of (mem s) pgdir (PDX va')"
      by (simp add: ptab_of_def)
    show ?thesis
    proof (cases "present (pde_of (mem s) pgdir (PDX va'))")
      case True
      then have "ptab_of (mem s) pgdir (PDX va') \<noteq> pgdir" "ptab_of (mem s) pgdir (PDX va') \<noteq> x"
        using inv PDX_less [of va'] by (auto simp: pd_inv_def pd_tables_def)
      then show ?thesis
        using True eq tab load_entry_store [OF al(2) ptab_aligned PDX_less PTX_less]
          load_entry_fill [OF al(1) ptab_aligned PTX_less]
        by (auto simp: pte_of_def m_def)
    qed (simp add: pte_of_def eq)
  qed
  show "same_outside (mem s) pgdir (x # xs) m"
    unfolding same_outside_def
  proof (intro allI impI)
    fix y assume "\<not> pt_page (mem s) pgdir (x # xs) (PGROUNDDOWN y)"
    then have "PGROUNDDOWN y \<noteq> pgdir" "\<not> in_range x 4096 y"
      using al by (auto simp: pt_page_def in_own_page)
    then show "m y = mem s y"
      using al PDX_less by (simp add: m_def store_entry_outside mem_fill_out)
  qed
qed

lemma walk_new:
  assumes inv: "pd_inv s pgdir (x # xs)" and abs: "\<not> present (pde_of (mem s) pgdir (PDX va))"
  shows "\<exists>t. walkpgdir pgdir va True s = Ok (ptab_of (mem t) pgdir (PDX va) + 4 * PTX va) t
    \<and> pd_inv t pgdir xs \<and> kpage t = kpage s \<and> present (pde_of (mem t) pgdir (PDX va))
    \<and> (\<forall>va'. pte_of (mem t) pgdir va' = pte_of (mem s) pgdir va')
    \<and> same_outside (mem s) pgdir (x # xs) (mem t)
    \<and> (\<forall>p. pt_page (mem t) pgdir xs p \<longrightarrow> pt_page (mem s) pgdir (x # xs) p)"
proof -
  let ?m = "store32 (mem_fill (mem s) x 0 4096) (pgdir + 4 * PDX va) (V2P x OR PTE_P OR PTE_W OR PTE_U)"
  let ?u = "kmem_norm (s\<lparr>freelist := load32 (mem s) x\<rparr>)"
  let ?t = "?u\<lparr>mem := ?m\<rparr>"
  note nt = new_table [OF inv abs]
  have s: "kmem_ready s" "kmem_inv s (x # xs)" "x \<noteq> 0" "page_aligned x" "page_aligned pgdir"
    "x \<notin> set xs" "x \<noteq> pgdir" "freelist s = x" "pgdir \<notin> set xs" "kpage s x"
    using inv kpage_nonzero [of s x] by (auto simp: pd_inv_def kmem_inv_def kpage_def)
  have ka: "kalloc s = Ok x ?u" using s by (simp add: kalloc_eq)
  have "walkpgdir pgdir va True s = Ok (x + 4 * PTX va) ?t"
    using abs s by (simp add: walkpgdir_def ka present_def pde_of_def memset_PGSIZE Let_def)
  moreover have "kmem_inv ?t xs"
  proof -
    have "kmem_inv ?u xs" using s(2) by (simp add: kmem_inv_def)
    then have "kmem_inv (?u\<lparr>mem := mem_fill (mem s) x 0 4096\<rparr>) xs"
      using kmem_inv_fill [of ?u xs x] s by simp
    then show ?thesis
      using kmem_inv_store [of "?u\<lparr>mem := mem_fill (mem s) x 0 4096\<rparr>" xs pgdir "PDX va"] s PDX_less
      by simp
  qed
  moreover have "pd_tables ?m pgdir xs"
    using inv nt(1-3) s(6,7)
    unfolding pd_tables_def pd_inv_def ptab_of_def by (metis (no_types, lifting) list.set_intros)
  moreover have tab: "ptab_of ?m pgdir i = (if i = PDX va then x else ptab_of (mem s) pgdir i)"
    "present (pde_of ?m pgdir i) \<longleftrightarrow> i = PDX va \<or> present (pde_of (mem s) pgdir i)"
    if "unat i < 1024" for i
    using nt(1-3) that by (cases "i = PDX va", auto simp: ptab_of_def)+
  moreover have "pd_inv ?t pgdir xs"
    using calculation inv s by (auto simp: pd_inv_def)
  moreover have "\<forall>p. pt_page ?m pgdir xs p \<longrightarrow> pt_page (mem s) pgdir (x # xs) p"
    using tab by (auto simp: pt_page_def split: if_splits)
  ultimately show ?thesis using nt by (intro exI [of _ ?t]) simp
qed

section \<open>Mapping pages\<close>

text \<open>
  What one or more page-table operations may do: keep the invariant, take pages off the free
  list, and change no byte outside the directory, its tables and those pages.
\<close>

definition pt_step :: "u32 \<Rightarrow> 'a kmem_scheme \<Rightarrow> u32 list \<Rightarrow> 'a kmem_scheme \<Rightarrow> u32 list \<Rightarrow> bool" where
  "pt_step pgdir s xs t ys \<longleftrightarrow> pd_inv t pgdir ys \<and> kpage t = kpage s
    \<and> same_outside (mem s) pgdir xs (mem t)
    \<and> (\<forall>p. pt_page (mem t) pgdir ys p \<longrightarrow> pt_page (mem s) pgdir xs p) \<and> (\<exists>us. xs = us @ ys)"

lemma pt_step_trans:
  "pt_step pgdir s xs t ys \<Longrightarrow> pt_step pgdir t ys u zs \<Longrightarrow> pt_step pgdir s xs u zs"
  unfolding pt_step_def same_outside_def by (metis append.assoc)

lemma pt_step_pte:
  assumes "pd_inv s pgdir xs" "present (pde_of (mem s) pgdir (PDX va))"
  shows "pt_step pgdir s xs (s\<lparr>mem := store32 (mem s) (ptab_of (mem s) pgdir (PDX va) + 4 * PTX va) v\<rparr>) xs"
proof -
  let ?t = "s\<lparr>mem := store32 (mem s) (ptab_of (mem s) pgdir (PDX va) + 4 * PTX va) v\<rparr>"
  note sp = set_pte_inv [OF assms, where v = v]
  have "pt_page (mem ?t) pgdir xs p \<longrightarrow> pt_page (mem s) pgdir xs p" for p
    using sp(2) by (auto simp: pt_page_def ptab_of_def)
  then show ?thesis using sp(1,4) by (simp add: pt_step_def)
qed

lemma table_entry_nonzero:
  assumes "pd_inv s pgdir xs" "present (pde_of (mem s) pgdir (PDX va))"
  shows "ptab_of (mem s) pgdir (PDX va) + 4 * PTX va \<noteq> 0"
proof -
  have "kpage s (ptab_of (mem s) pgdir (PDX va))"
    using assms PDX_less [of va] by (simp add: pd_inv_def)
  then have "ptab_of (mem s) pgdir (PDX va) \<noteq> 0" by (rule kpage_nonzero)
  moreover have "PGROUNDDOWN 0 = 0" by (simp add: PGROUNDDOWN_def)
  ultimately show ?thesis using entry_in_page [OF ptab_aligned PTX_less] by metis
qed

lemma walk_alloc:
  assumes inv: "pd_inv s pgdir xs"
  shows "\<exists>p t ys. walkpgdir pgdir va True s = Ok p t \<and> pt_step pgdir s xs t ys
    \<and> (\<forall>va'. pte_of (mem t) pgdir va' = pte_of (mem s) pgdir va')
    \<and> (p = 0 \<and> ys = [] \<or> p \<noteq> 0 \<and> present (pde_of (mem t) pgdir (PDX va))
        \<and> p = ptab_of (mem t) pgdir (PDX va) + 4 * PTX va)"
proof (cases "present (pde_of (mem s) pgdir (PDX va))")
  case True
  then show ?thesis
    using inv walk_present [OF True] table_entry_nonzero [OF inv True]
    by (auto simp: pt_step_def same_outside_def)
next
  case False
  show ?thesis
  proof (cases xs)
    case Nil
    then have "kalloc s = Ok 0 (kmem_norm s)"
      using inv by (simp add: kalloc_eq pd_inv_def kmem_inv_def)
    then have "walkpgdir pgdir va True s = Ok 0 (kmem_norm s)"
      using False by (simp add: walkpgdir_def present_def pde_of_def)
    then show ?thesis using Nil inv by (auto simp: pt_step_def same_outside_def pd_inv_def)
  next
    case (Cons x ys)
    obtain t where t: "walkpgdir pgdir va True s = Ok (ptab_of (mem t) pgdir (PDX va) + 4 * PTX va) t"
      "pd_inv t pgdir ys" "kpage t = kpage s" "present (pde_of (mem t) pgdir (PDX va))"
      "\<forall>va'. pte_of (mem t) pgdir va' = pte_of (mem s) pgdir va'" "same_outside (mem s) pgdir xs (mem t)"
      "\<forall>p. pt_page (mem t) pgdir ys p \<longrightarrow> pt_page (mem s) pgdir xs p"
      using walk_new [of s pgdir x ys va] inv False Cons by blast
    then have "pt_step pgdir s xs t ys" using Cons by (auto simp: pt_step_def)
    then show ?thesis using t(1,4,5) table_entry_nonzero [OF t(2,4)] by blast
  qed
qed

text \<open>One iteration of the loop of \<open>mappages\<close>.\<close>

lemma map_one:
  assumes inv: "pd_inv s pgdir xs" and un: "\<not> present (pte_of (mem s) pgdir a)"
  shows "(\<exists>t. mappages_loop pgdir a stop pa perm s = Ok (- 1) t \<and> pt_step pgdir s xs t [])
    \<or> (\<exists>t ys. mappages_loop pgdir a stop pa perm s =
          (if a = stop then Ok 0 t else if unat (stop - a) < 4096 then Hang
           else mappages_loop pgdir (a + PGSIZE) stop (pa + PGSIZE) perm t)
        \<and> pt_step pgdir s xs t ys
        \<and> (\<forall>va. pte_of (mem t) pgdir va
             = (if same_page va a then pa OR perm OR PTE_P else pte_of (mem s) pgdir va)))"
proof -
  obtain p u ys where w: "walkpgdir pgdir a True s = Ok p u" "pt_step pgdir s xs u ys"
    "\<forall>va. pte_of (mem u) pgdir va = pte_of (mem s) pgdir va"
    "p = 0 \<and> ys = [] \<or> p \<noteq> 0 \<and> present (pde_of (mem u) pgdir (PDX a))
      \<and> p = ptab_of (mem u) pgdir (PDX a) + 4 * PTX a"
    using walk_alloc [OF inv, of a] by blast
  show ?thesis
  proof (cases "p = 0")
    case True
    then show ?thesis using w by (auto simp: mappages_loop.simps [of pgdir a])
  next
    case False
    then have pr: "present (pde_of (mem u) pgdir (PDX a))"
      and p: "p = ptab_of (mem u) pgdir (PDX a) + 4 * PTX a" using w(4) by auto
    have u: "pd_inv u pgdir ys" using w(2) by (simp add: pt_step_def)
    let ?t = "u\<lparr>mem := store32 (mem u) p (pa OR perm OR PTE_P)\<rparr>"
    have "load32 (mem u) p = pte_of (mem u) pgdir a" using pr p by (simp add: pte_of_def)
    then have "load32 (mem u) p = pte_of (mem s) pgdir a" using w(3) by simp
    then have "mappages_loop pgdir a stop pa perm s =
          (if a = stop then Ok 0 ?t else if unat (stop - a) < 4096 then Hang
           else mappages_loop pgdir (a + PGSIZE) stop (pa + PGSIZE) perm ?t)"
      using w(1) False un by (simp add: mappages_loop.simps [of pgdir a] present_def Let_def)
    moreover have "pt_step pgdir s xs ?t ys"
      using pt_step_trans [OF w(2)] pt_step_pte [OF u pr] p by blast
    moreover have "\<forall>va. pte_of (mem ?t) pgdir va
        = (if same_page va a then pa OR perm OR PTE_P else pte_of (mem s) pgdir va)"
      using set_pte_inv(3) [OF u pr] p w(3) by simp
    ultimately show ?thesis by blast
  qed
qed

text \<open>The virtual addresses of the \<open>n + 1\<close> pages from \<open>a\<close> on.\<close>

definition in_pages :: "u32 \<Rightarrow> nat \<Rightarrow> u32 \<Rightarrow> bool" where
  "in_pages a n va \<longleftrightarrow> unat a \<le> unat va \<and> unat va < unat a + 4096 * Suc n"

lemma same_page_aligned:
  assumes "page_aligned a"
  shows "same_page va a \<longleftrightarrow> in_pages a 0 va"
proof -
  have "same_page va a \<longleftrightarrow> in_range a 4096 va" using in_page_iff [OF assms] by (simp add: same_page_def)
  also have "\<dots> \<longleftrightarrow> in_pages a 0 va"
    using aligned_less_top [OF assms] by (auto simp: in_range_def in_pages_def unat_sub_if')
  finally show ?thesis .
qed

lemma same_page_PGROUNDDOWN: "page_aligned a \<Longrightarrow> same_page va a \<Longrightarrow> PGROUNDDOWN va = a"
  using in_own_page [of a va] in_page_iff [of a va] by (simp add: same_page_def)

lemma in_pages_Suc:
  assumes "unat (a + PGSIZE) = unat a + 4096"
  shows "in_pages a (Suc n) va \<longleftrightarrow> in_pages a 0 va \<or> in_pages (a + PGSIZE) n va"
  using assms by (auto simp: in_pages_def)

lemma mappages_loop_maps:
  assumes "pd_inv s pgdir xs" "page_aligned a" "unat a + 4096 * n \<le> 4294963200"
    and "unat stop = unat a + 4096 * n"
    and "\<And>va. in_pages a n va \<Longrightarrow> \<not> present (pte_of (mem s) pgdir va)"
  shows "\<exists>r t ys. mappages_loop pgdir a stop pa perm s = Ok r t \<and> pt_step pgdir s xs t ys
    \<and> (r = - 1 \<and> ys = [] \<or> r = 0 \<and> (\<forall>va. pte_of (mem t) pgdir va =
        (if in_pages a n va then pa + (PGROUNDDOWN va - a) OR perm OR PTE_P else pte_of (mem s) pgdir va)))"
  using assms
proof (induction n arbitrary: a pa s xs)
  case 0
  then have "a = stop" "\<not> present (pte_of (mem s) pgdir a)"
    by (simp_all add: word_unat_eq_iff in_pages_def)
  with map_one [OF "0.prems"(1) this(2), of stop pa perm] show ?case
    using same_page_aligned [OF "0.prems"(2)] same_page_PGROUNDDOWN [OF "0.prems"(2)] by fastforce
next
  case (Suc n)
  have a1: "unat (a + PGSIZE) = unat a + 4096"
    using Suc.prems(3) by (subst unat_add_less) (simp_all add: PGSIZE_def)
  have dist: "\<not> unat (stop - a) < 4096" "a \<noteq> stop"
    using Suc.prems(4) by (auto simp: unat_sub_if')
  have al: "page_aligned (a + PGSIZE)" using Suc.prems(2) by (rule page_aligned_add)
  have "\<not> present (pte_of (mem s) pgdir a)" using Suc.prems(5) by (simp add: in_pages_def)
  from map_one [OF Suc.prems(1) this, of stop pa perm] show ?case
  proof (elim disjE exE conjE)
    fix t assume "mappages_loop pgdir a stop pa perm s = Ok (- 1) t" "pt_step pgdir s xs t []"
    then show ?case by blast
  next
    fix t ys assume eq: "mappages_loop pgdir a stop pa perm s =
        (if a = stop then Ok 0 t else if unat (stop - a) < 4096 then Hang
         else mappages_loop pgdir (a + PGSIZE) stop (pa + PGSIZE) perm t)"
      and st: "pt_step pgdir s xs t ys"
      and pte: "\<forall>va. pte_of (mem t) pgdir va
        = (if same_page va a then pa OR perm OR PTE_P else pte_of (mem s) pgdir va)"
    have inv: "pd_inv t pgdir ys" using st by (simp add: pt_step_def)
    have un: "\<not> present (pte_of (mem t) pgdir va)" if "in_pages (a + PGSIZE) n va" for va
    proof -
      have "\<not> same_page va a" using that a1 same_page_aligned [OF Suc.prems(2)] by (auto simp: in_pages_def)
      moreover have "in_pages a (Suc n) va" using that in_pages_Suc [OF a1] by blast
      ultimately show ?thesis using pte Suc.prems(5) by simp
    qed
    have top: "unat (a + PGSIZE) + 4096 * n \<le> 4294963200" "unat stop = unat (a + PGSIZE) + 4096 * n"
      using Suc.prems(3,4) a1 by simp_all
    obtain r u zs where u: "mappages_loop pgdir (a + PGSIZE) stop (pa + PGSIZE) perm t = Ok r u"
      "pt_step pgdir t ys u zs"
      "r = - 1 \<and> zs = [] \<or> r = 0 \<and> (\<forall>va. pte_of (mem u) pgdir va = (if in_pages (a + PGSIZE) n va
        then pa + PGSIZE + (PGROUNDDOWN va - (a + PGSIZE)) OR perm OR PTE_P else pte_of (mem t) pgdir va))"
      using Suc.IH [OF inv al top un, of "pa + PGSIZE"] by blast
    have "pa + PGSIZE + (PGROUNDDOWN va - (a + PGSIZE)) = pa + (PGROUNDDOWN va - a)" for va by simp
    then have "r = - 1 \<and> zs = [] \<or> r = 0 \<and> (\<forall>va. pte_of (mem u) pgdir va = (if in_pages a (Suc n) va
        then pa + (PGROUNDDOWN va - a) OR perm OR PTE_P else pte_of (mem s) pgdir va))"
      using u(3) pte in_pages_Suc [OF a1] same_page_aligned [OF Suc.prems(2)]
        same_page_PGROUNDDOWN [OF Suc.prems(2)] by auto
    then show ?case using eq dist u(1) pt_step_trans [OF st u(2)] by auto
  qed
qed

section \<open>Copying to user memory\<close>

text \<open>The kernel address of the page frame behind a user address, and of the byte itself.\<close>

definition frame_of :: "mem \<Rightarrow> u32 \<Rightarrow> u32 \<Rightarrow> u32" where
  "frame_of m pgdir va = P2V (PTE_ADDR (pte_of m pgdir va))"

definition uaddr :: "mem \<Rightarrow> u32 \<Rightarrow> u32 \<Rightarrow> u32" where
  "uaddr m pgdir va = frame_of m pgdir va + (va - PGROUNDDOWN va)"

definition user_page :: "'a kmem_scheme \<Rightarrow> u32 \<Rightarrow> u32 list \<Rightarrow> u32 \<Rightarrow> bool" where
  "user_page s pgdir xs va \<longleftrightarrow> present (pte_of (mem s) pgdir va)
     \<and> pte_of (mem s) pgdir va AND PTE_U \<noteq> 0 \<and> kpage s (frame_of (mem s) pgdir va)
     \<and> \<not> pt_page (mem s) pgdir xs (frame_of (mem s) pgdir va)"

lemma frame_aligned [simp]: "page_aligned (frame_of m pgdir va)"
  by (simp add: frame_of_def P2V_aligned)

lemma load_entry_cong:
  assumes "page_aligned p" "unat i < 1024" "\<And>x. PGROUNDDOWN x = p \<Longrightarrow> m' x = m x"
  shows "load32 m' (p + 4 * i) = load32 m (p + 4 * i)"
proof (rule load32_page_cong)
  fix j :: u32 assume "unat j < 4096"
  then have "PGROUNDDOWN (p + j) = p" using in_own_page [OF assms(1), of "p + j"] by (simp add: in_range_base)
  then show "m' (p + j) = m (p + j)" by (rule assms(3))
qed (rule entry_off [OF assms(2)])

text \<open>Changes outside the page-table pages leave the directory, its map and its invariant alone.\<close>

lemma pt_agree:
  assumes inv: "pd_inv s pgdir xs"
    and same: "\<And>x. pt_page (mem s) pgdir xs (PGROUNDDOWN x) \<Longrightarrow> m' x = mem s x"
  shows "pd_inv (s\<lparr>mem := m'\<rparr>) pgdir xs" "\<And>va. pte_of m' pgdir va = pte_of (mem s) pgdir va"
    and "\<And>p. pt_page m' pgdir xs p = pt_page (mem s) pgdir xs p"
proof -
  have al: "page_aligned pgdir" "\<And>x. x \<in> set xs \<Longrightarrow> page_aligned x"
    using inv by (auto simp: pd_inv_def kmem_inv_def kpage_def)
  have pde: "pde_of m' pgdir i = pde_of (mem s) pgdir i" if "unat i < 1024" for i
    unfolding pde_of_def using al(1) that same by (intro load_entry_cong) (simp_all add: pt_page_def)
  then have tab: "ptab_of m' pgdir i = ptab_of (mem s) pgdir i" if "unat i < 1024" for i
    using that by (simp add: ptab_of_def)
  show pg: "pt_page m' pgdir xs p = pt_page (mem s) pgdir xs p" for p
    unfolding pt_page_def using pde tab by metis
  show "pte_of m' pgdir va = pte_of (mem s) pgdir va" for va
  proof (cases "present (pde_of (mem s) pgdir (PDX va))")
    case True
    then have "load32 m' (ptab_of (mem s) pgdir (PDX va) + 4 * PTX va)
        = load32 (mem s) (ptab_of (mem s) pgdir (PDX va) + 4 * PTX va)"
      using PTX_less [of va] PDX_less [of va] same
      by (intro load_entry_cong) (auto simp: pt_page_def)
    then show ?thesis using True pde [OF PDX_less] tab [OF PDX_less] by (simp add: pte_of_def)
  qed (simp add: pte_of_def pde [OF PDX_less])
  have "load32 m' x = load32 (mem s) x" if "x \<in> set xs" for x
    using load_entry_cong [of x 0 m' "mem s"] al(2) [OF that] same that by (simp add: pt_page_def)
  then have "flist m' (freelist s) xs = flist (mem s) (freelist s) xs" by (rule flist_cong)
  then show "pd_inv (s\<lparr>mem := m'\<rparr>) pgdir xs"
    using inv pde tab by (auto simp: pd_inv_def kmem_inv_def pd_tables_def)
qed

lemma uva2ka_user:
  assumes "user_page s pgdir xs va"
  shows "uva2ka pgdir va s = Ok (frame_of (mem s) pgdir va) s" "frame_of (mem s) pgdir va \<noteq> 0"
proof -
  have p: "present (pde_of (mem s) pgdir (PDX va))"
    using assms by (auto simp: user_page_def pte_of_def present_def split: if_splits)
  then show "uva2ka pgdir va s = Ok (frame_of (mem s) pgdir va) s"
    using assms walk_present [OF p, of False]
    by (simp add: uva2ka_def user_page_def pte_of_def present_def frame_of_def)
  show "frame_of (mem s) pgdir va \<noteq> 0"
    using assms kpage_nonzero by (auto simp: user_page_def)
qed

lemma pte_of_PGROUNDDOWN: "pte_of m pgdir (PGROUNDDOWN va) = pte_of m pgdir va"
proof -
  have "same_page (PGROUNDDOWN va) va" by (simp add: same_page_def unat_PGROUNDDOWN)
  then show ?thesis by (simp add: pte_of_def same_page_iff)
qed

text \<open>What \<open>copyout\<close> needs of its arguments.\<close>

definition copyout_ok :: "'a kmem_scheme \<Rightarrow> u32 \<Rightarrow> u32 list \<Rightarrow> u32 \<Rightarrow> u32 \<Rightarrow> nat \<Rightarrow> bool" where
  "copyout_ok s pgdir xs va buf len \<longleftrightarrow>
     unat va + len \<le> 4294967296 \<and> unat buf + len \<le> 4294967296
   \<and> (\<forall>i < len. user_page s pgdir xs (va + of_nat i)
      \<and> (\<forall>j < len. PGROUNDDOWN (buf + of_nat j) \<noteq> frame_of (mem s) pgdir (va + of_nat i)
         \<and> (same_page (va + of_nat i) (va + of_nat j)
            \<or> frame_of (mem s) pgdir (va + of_nat i) \<noteq> frame_of (mem s) pgdir (va + of_nat j))))"

lemma chunk_same_page:
  assumes "i < 4096 - unat va mod 4096" "unat va + i < 4294967296"
  shows "unat (va + of_nat i) = unat va + i" "same_page (va + of_nat i) va"
    and "va + of_nat i - PGROUNDDOWN (va + of_nat i) = (va - PGROUNDDOWN va) + of_nat i"
proof -
  show u: "unat (va + of_nat i) = unat va + i"
    using assms(2) by (subst unat_add_less) (simp_all add: unat_of_nat32)
  have "(unat va + i) div 4096 = unat va div 4096 + (unat va mod 4096 + i) div 4096"
    by (metis div_add_self1 div_mult_mod_eq add.assoc div_mult_self3 zero_neq_numeral)
  then show sp: "same_page (va + of_nat i) va" using assms(1) u by (simp add: same_page_def)
  have "PGROUNDDOWN (va + of_nat i) = PGROUNDDOWN va"
    using sp by (simp add: word_unat_eq_iff unat_PGROUNDDOWN same_page_def)
  then show "va + of_nat i - PGROUNDDOWN (va + of_nat i) = (va - PGROUNDDOWN va) + of_nat i" by simp
qed

lemma chunk_next_page:
  assumes "4096 - unat va mod 4096 \<le> j" "unat va + j < 4294967296"
  shows "\<not> same_page (va + of_nat j) va"
proof -
  have u: "unat (va + of_nat j) = unat va + j"
    using assms(2) by (subst unat_add_less) (simp_all add: unat_of_nat32)
  define q r where "q = unat va div 4096" and "r = unat va mod 4096"
  then have "unat va = q * 4096 + r" "r < 4096" "4096 - r \<le> j" using assms(1) by simp_all
  then have "(q + 1) * 4096 \<le> unat va + j" by simp
  then have "(unat va div 4096 + 1) * 4096 \<le> unat va + j" by (simp add: q_def)
  then have "unat va div 4096 + 1 \<le> (unat va + j) div 4096" by (simp add: less_eq_div_iff_mult_less_eq)
  then show ?thesis using u by (simp add: same_page_def)
qed

lemma pte_of_same: "same_page a b \<Longrightarrow> pte_of m pgdir a = pte_of m pgdir b"
  by (simp add: pte_of_def same_page_iff)

lemma same_page_pte: "same_page a b \<Longrightarrow> frame_of m pgdir a = frame_of m pgdir b"
  using pte_of_same by (simp add: frame_of_def)

lemma offset_in_frame:
  assumes "page_aligned p" "unat off < 4096"
  shows "PGROUNDDOWN (p + off) = p"
  using in_own_page [OF assms(1), of "p + off"] assms(2) by (simp add: in_range_base)

lemma uaddr_frame: "PGROUNDDOWN (uaddr m pgdir va) = frame_of m pgdir va"
  unfolding uaddr_def by (rule offset_in_frame) (simp_all add: page_offset)

lemma uaddr_chunk:
  assumes "i < 4096 - unat va mod 4096" "unat va + i < 4294967296"
  shows "uaddr m pgdir (va + of_nat i) = frame_of m pgdir va + (va - PGROUNDDOWN va) + of_nat i"
  using chunk_same_page [OF assms] same_page_pte [of "va + of_nat i" va m pgdir]
  by (simp add: uaddr_def add.assoc)

lemma chunk_range:
  assumes "N \<le> 4096 - unat va mod 4096" "unat va + N \<le> 4294967296"
  shows "in_range (frame_of m pgdir va + (va - PGROUNDDOWN va)) N x
    \<longleftrightarrow> (\<exists>i < N. x = uaddr m pgdir (va + of_nat i))"
proof -
  have "uaddr m pgdir (va + of_nat i) = frame_of m pgdir va + (va - PGROUNDDOWN va) + of_nat i"
    if "i < N" for i
    using that assms by (intro uaddr_chunk) simp_all
  moreover have "N < 4294967296" using assms(1) by linarith
  then have "x = b + of_nat i \<longleftrightarrow> unat (x - b) = i" if "i < N" for i b
    using that by (intro eq_add_of_nat) simp
  ultimately have "x = uaddr m pgdir (va + of_nat i)
      \<longleftrightarrow> unat (x - (frame_of m pgdir va + (va - PGROUNDDOWN va))) = i" if "i < N" for i
    using that by (simp only:)
  then show ?thesis unfolding in_range_def by metis
qed

text \<open>One iteration of \<open>copyout\<close>.\<close>

lemma copyout_chunk:
  assumes inv: "pd_inv s pgdir xs" and ok: "copyout_ok s pgdir xs va buf (unat len)" and pos: "0 < len"
  defines "n \<equiv> copy_chunk va len"
  defines "s' \<equiv> s\<lparr>mem := mem_copy (mem s) (frame_of (mem s) pgdir va + (va - PGROUNDDOWN va)) buf (unat n)\<rparr>"
  shows "copyout pgdir va buf len s = copyout pgdir (PGROUNDDOWN va + PGSIZE) (buf + n) (len - n) s'"
    and "pd_inv s' pgdir xs" "\<And>va. pte_of (mem s') pgdir va = pte_of (mem s) pgdir va"
    and "\<And>p. pt_page (mem s') pgdir xs p = pt_page (mem s) pgdir xs p"
proof -
  let ?b = "frame_of (mem s) pgdir va + (va - PGROUNDDOWN va)"
  have up: "user_page s pgdir xs va" using ok pos by (auto simp: copyout_ok_def word_less_nat_alt dest: spec [of _ 0])
  have up0: "user_page s pgdir xs (PGROUNDDOWN va)"
    using up by (simp add: user_page_def frame_of_def pte_of_PGROUNDDOWN)
  have fr0: "frame_of (mem s) pgdir (PGROUNDDOWN va) = frame_of (mem s) pgdir va"
    by (simp add: frame_of_def pte_of_PGROUNDDOWN)
  have n: "unat n \<le> unat len" "unat n \<le> 4096 - unat va mod 4096" by (simp_all add: n_def unat_copy_chunk)
  have b: "unat ?b = unat (frame_of (mem s) pgdir va) + unat va mod 4096"
    using aligned_less_top [OF frame_aligned, of "mem s" pgdir va] mod_less_divisor [of 4096 "unat va"]
    by (subst unat_add_less) (simp_all add: page_offset)
  have "unat ?b + unat n \<le> 4294967296"
    using b n(2) aligned_less_top [OF frame_aligned, of "mem s" pgdir va] by linarith
  moreover have "unat buf + unat n \<le> 4294967296" using ok n(1) by (simp add: copyout_ok_def)
  ultimately have "memmove (mem s) ?b buf n = mem_copy (mem s) ?b buf (unat n)" by (intro memmove_eq)
  then show "copyout pgdir va buf len s = copyout pgdir (PGROUNDDOWN va + PGSIZE) (buf + n) (len - n) s'"
    using pos uva2ka_user [OF up0] fr0
    by (simp add: copyout.simps [of pgdir va] Let_def n_def s'_def)
  have "mem s' x = mem s x" if "pt_page (mem s) pgdir xs (PGROUNDDOWN x)" for x
  proof -
    have "PGROUNDDOWN x = frame_of (mem s) pgdir va" if r: "in_range ?b (unat n) x"
    proof -
      have x: "x = frame_of (mem s) pgdir va + (va - PGROUNDDOWN va + (x - ?b))" by simp
      have "unat (va - PGROUNDDOWN va + (x - ?b)) < 4096"
        using r n(2) mod_less_divisor [of 4096 "unat va"]
        by (subst unat_add_less) (simp_all add: page_offset in_range_def)
      then show ?thesis using x offset_in_frame [OF frame_aligned] by metis
    qed
    then show ?thesis using that up by (auto simp: s'_def mem_copy_def user_page_def)
  qed
  from pt_agree [OF inv this]
  show "pd_inv s' pgdir xs" "\<And>va. pte_of (mem s') pgdir va = pte_of (mem s) pgdir va"
    "\<And>p. pt_page (mem s') pgdir xs p = pt_page (mem s) pgdir xs p"
    by (simp_all add: s'_def)
qed

lemma chunk_rest:
  assumes "unat (copy_chunk va len) < unat len"
  shows "PGROUNDDOWN va + PGSIZE = va + copy_chunk va len"
    and "unat (copy_chunk va len) = 4096 - unat va mod 4096"
proof -
  have "copy_chunk va len \<noteq> len" using assms by auto
  then have "copy_chunk va len = PGSIZE - (va - PGROUNDDOWN va)"
    by (auto simp: copy_chunk_def Let_def split: if_splits)
  then show "PGROUNDDOWN va + PGSIZE = va + copy_chunk va len" by simp
  show "unat (copy_chunk va len) = 4096 - unat va mod 4096"
    using assms by (simp add: unat_copy_chunk min_def split: if_splits)
qed

lemma copyout_ok_rest:
  assumes ok: "copyout_ok s pgdir xs va buf L" and N: "N \<le> L"
    and same: "\<And>va. pte_of (mem s') pgdir va = pte_of (mem s) pgdir va"
      "\<And>p. pt_page (mem s') pgdir xs p = pt_page (mem s) pgdir xs p" "kpage s' = kpage s"
    and v: "N < L \<Longrightarrow> va' = va + of_nat N" and b: "buf' = buf + of_nat N"
  shows "copyout_ok s' pgdir xs va' buf' (L - N)"
proof (cases "N < L")
  case False
  then show ?thesis by (simp add: copyout_ok_def less_imp_le)
next
  case True
  have nw: "unat va + L \<le> 4294967296" "unat buf + L \<le> 4294967296" using ok by (auto simp: copyout_ok_def)
  then have "unat va' = unat va + N" "unat buf' = unat buf + N"
    unfolding v [OF True] b using True by (subst unat_add_less; simp add: unat_of_nat32)+
  moreover have "va' + of_nat i = va + of_nat (N + i)" "buf' + of_nat i = buf + of_nat (N + i)" for i
    using v [OF True] b by (simp_all add: add.assoc)
  moreover have "user_page s' pgdir xs a = user_page s pgdir xs a" "frame_of (mem s') pgdir a = frame_of (mem s) pgdir a" for a
    using same by (simp_all add: user_page_def frame_of_def)
  ultimately show ?thesis
    using ok nw True unfolding copyout_ok_def
    by (simp del: of_nat_add)
qed

lemma copyout_spec:
  assumes "pd_inv s pgdir xs" "copyout_ok s pgdir xs va buf (unat len)"
  shows "\<exists>t. copyout pgdir va buf len s = Ok 0 t \<and> pd_inv t pgdir xs
    \<and> (\<forall>a. pte_of (mem t) pgdir a = pte_of (mem s) pgdir a)
    \<and> (\<forall>i < unat len. mem t (uaddr (mem s) pgdir (va + of_nat i)) = mem s (buf + of_nat i))
    \<and> (\<forall>x. (\<forall>i < unat len. x \<noteq> uaddr (mem s) pgdir (va + of_nat i)) \<longrightarrow> mem t x = mem s x)"
  using assms
proof (induction "unat len" arbitrary: va buf len s rule: less_induct)
  case less
  show ?case
  proof (cases "len = 0")
    case True
    then show ?thesis using less.prems by (simp add: copyout.simps [of pgdir va])
  next
    case False
    then have pos: "0 < len" by (simp add: word_neq_0_conv)
    define n where "n = copy_chunk va len"
    define N where "N = unat n"
    define m' where "m' = mem_copy (mem s) (frame_of (mem s) pgdir va + (va - PGROUNDDOWN va)) buf N"
    define s' where "s' = s\<lparr>mem := m'\<rparr>"
    have step: "copyout pgdir va buf len s = copyout pgdir (PGROUNDDOWN va + PGSIZE) (buf + n) (len - n) s'"
      "pd_inv s' pgdir xs" "\<And>va. pte_of m' pgdir va = pte_of (mem s) pgdir va"
      "\<And>p. pt_page m' pgdir xs p = pt_page (mem s) pgdir xs p"
      using copyout_chunk [OF less.prems pos] by (simp_all add: n_def N_def s'_def m'_def)
    have N: "N \<le> unat len" "0 < N" "N \<le> 4096 - unat va mod 4096"
      using pos mod_less_divisor [of 4096 "unat va"]
      by (simp_all add: N_def n_def unat_copy_chunk word_less_nat_alt)
    have L: "unat (len - n) = unat len - N" using N(1) by (simp add: N_def unat_sub_le)
    have ua: "uaddr m' pgdir a = uaddr (mem s) pgdir a" for a by (simp add: uaddr_def frame_of_def step(3))
    have bn: "buf + n = buf + of_nat N" by (simp add: N_def)
    have vn: "PGROUNDDOWN va + PGSIZE = va + of_nat N" if "N < unat len"
      using chunk_rest(1) [of va len] that by (simp add: N_def n_def)
    have "copyout_ok s' pgdir xs (PGROUNDDOWN va + PGSIZE) (buf + n) (unat len - N)"
      using copyout_ok_rest [OF less.prems(2) N(1), of s'] step(3,4) vn bn by (simp add: s'_def)
    then obtain t where t: "copyout pgdir (PGROUNDDOWN va + PGSIZE) (buf + n) (len - n) s' = Ok 0 t"
      "pd_inv t pgdir xs" "\<forall>a. pte_of (mem t) pgdir a = pte_of (mem s) pgdir a"
      "\<forall>i < unat len - N. mem t (uaddr (mem s) pgdir (PGROUNDDOWN va + PGSIZE + of_nat i)) = m' (buf + n + of_nat i)"
      "\<forall>x. (\<forall>i < unat len - N. x \<noteq> uaddr (mem s) pgdir (PGROUNDDOWN va + PGSIZE + of_nat i)) \<longrightarrow> mem t x = m' x"
      using less.hyps [of "len - n" s' "PGROUNDDOWN va + PGSIZE" "buf + n"] step(2,3) L N ua
      by (auto simp: s'_def)
    have nw: "unat va + unat len \<le> 4294967296"
      and fr: "\<And>i j. i < unat len \<Longrightarrow> j < unat len \<Longrightarrow> same_page (va + of_nat i) (va + of_nat j)
        \<or> frame_of (mem s) pgdir (va + of_nat i) \<noteq> frame_of (mem s) pgdir (va + of_nat j)"
      and bf: "\<And>i j. i < unat len \<Longrightarrow> j < unat len \<Longrightarrow>
        PGROUNDDOWN (buf + of_nat j) \<noteq> frame_of (mem s) pgdir (va + of_nat i)"
      using less.prems(2) unfolding copyout_ok_def by blast+
    have idx: "PGROUNDDOWN va + PGSIZE + of_nat k = va + of_nat (N + k)"
      "buf + n + of_nat k = buf + of_nat (N + k)" if "k < unat len - N" for k
      using vn bn that by (simp_all add: add.assoc)
    have t4: "mem t (uaddr (mem s) pgdir (va + of_nat (N + k))) = m' (buf + of_nat (N + k))"
      if "k < unat len - N" for k
      using t(4) that idx [OF that] by metis
    have t5: "mem t x = m' x" if "\<And>k. k < unat len - N \<Longrightarrow> x \<noteq> uaddr (mem s) pgdir (va + of_nat (N + k))" for x
      using t(5) that idx(1) by metis
    have later: "uaddr (mem s) pgdir (va + of_nat i) \<noteq> uaddr (mem s) pgdir (va + of_nat j)"
      if "i < N" "N \<le> j" "j < unat len" for i j
    proof -
      have "\<not> same_page (va + of_nat j) va"
        using chunk_rest(2) [of va len] that nw N by (intro chunk_next_page) (simp_all add: N_def n_def)
      then have "frame_of (mem s) pgdir (va + of_nat j) \<noteq> frame_of (mem s) pgdir va"
        using fr [of j 0] that N by simp
      moreover have "frame_of (mem s) pgdir (va + of_nat i) = frame_of (mem s) pgdir va"
        using chunk_same_page(2) [of i va] that N nw by (intro same_page_pte) simp
      ultimately show ?thesis using uaddr_frame by metis
    qed
    have range: "in_range (frame_of (mem s) pgdir va + (va - PGROUNDDOWN va)) N x
      \<longleftrightarrow> (\<exists>i < N. x = uaddr (mem s) pgdir (va + of_nat i))" for x
      using N nw by (intro chunk_range) simp_all
    have "mem t (uaddr (mem s) pgdir (va + of_nat i)) = mem s (buf + of_nat i)" if i: "i < unat len" for i
    proof (cases "i < N")
      case True
      have "mem t (uaddr (mem s) pgdir (va + of_nat i)) = m' (uaddr (mem s) pgdir (va + of_nat i))"
        by (rule t5) (rule later [OF True]; simp)
      also have "\<dots> = mem s (buf + of_nat i)"
      proof -
        have "uaddr (mem s) pgdir (va + of_nat i)
            = frame_of (mem s) pgdir va + (va - PGROUNDDOWN va) + of_nat i"
          using True N nw by (intro uaddr_chunk) simp_all
        then show ?thesis using range True by (auto simp: m'_def mem_copy_def)
      qed
      finally show ?thesis .
    next
      case False
      then have "mem t (uaddr (mem s) pgdir (va + of_nat i)) = m' (buf + of_nat i)"
        using t4 [of "i - N"] i by simp
      moreover have "\<not> in_range (frame_of (mem s) pgdir va + (va - PGROUNDDOWN va)) N (buf + of_nat i)"
        using range bf i N(1) uaddr_frame by (metis order_less_le_trans)
      ultimately show ?thesis by (simp add: m'_def mem_copy_def)
    qed
    moreover have "mem t x = mem s x" if "\<forall>i < unat len. x \<noteq> uaddr (mem s) pgdir (va + of_nat i)" for x
    proof -
      have "mem t x = m' x" by (rule t5, rule that [rule_format]) simp
      moreover have "\<not> in_range (frame_of (mem s) pgdir va + (va - PGROUNDDOWN va)) N x"
        using range that N(1) by (meson order_less_le_trans)
      ultimately show ?thesis by (simp add: m'_def mem_copy_def)
    qed
    ultimately show ?thesis using step(1) t(1-3) by auto
  qed
qed

section \<open>Properties\<close>

text \<open>C10: \<open>mappages\<close> on page-aligned addresses that are not mapped yet. It never panics; it
  either returns 0, and then every virtual address of the range maps to the corresponding
  physical page with the given permissions while every other translation is unchanged, or
  returns -1, and then the free list is exhausted. In both cases the page directory stays
  well formed, pages are only taken from the front of the free list, and no byte of memory
  outside the directory, its tables and the free pages changes.\<close>

theorem mappages_maps:
  assumes "pd_inv s pgdir xs" "page_aligned va" "unat va + 4096 * n \<le> 4294963200"
    and "unat sz = 4096 * Suc n"
    and "\<And>a. in_pages va n a \<Longrightarrow> \<not> present (pte_of (mem s) pgdir a)"
  shows "\<exists>r t ys. mappages pgdir va sz pa perm s = Ok r t
    \<and> pd_inv t pgdir ys \<and> (\<exists>us. xs = us @ ys) \<and> same_outside (mem s) pgdir xs (mem t)
    \<and> (r = - 1 \<and> ys = [] \<or> r = 0 \<and> (\<forall>a. pte_of (mem t) pgdir a =
        (if in_pages va n a then pa + (PGROUNDDOWN a - va) OR perm OR PTE_P else pte_of (mem s) pgdir a)))"
proof -
  have "unat (va + sz - 1) = unat va + 4096 * n + 4095"
  proof -
    have "unat (sz - 1) = 4096 * n + 4095" using assms(4) by (subst unat_sub_le) simp_all
    then have "unat (va + (sz - 1)) = unat va + 4096 * n + 4095"
      using assms(3) by (subst unat_add_less) simp_all
    then show ?thesis by (simp add: add_diff_eq)
  qed
  moreover have "(unat va + 4096 * n + 4095) div 4096 * 4096 = unat va + 4096 * n"
  proof -
    obtain k where "unat va = 4096 * k" using assms(2) by (auto simp: page_aligned_def)
    then have "unat va + 4096 * n + 4095 = 4095 + (k + n) * 4096" by simp
    then show ?thesis by (simp only: div_mult_self1) (simp add: \<open>unat va = 4096 * k\<close>)
  qed
  ultimately have "unat (PGROUNDDOWN (va + sz - 1)) = unat va + 4096 * n"
    by (simp add: unat_PGROUNDDOWN)
  from mappages_loop_maps [OF assms(1-3) this assms(5), of pa perm] show ?thesis
    unfolding mappages_def PGROUNDDOWN_id [OF assms(2)] pt_step_def by blast
qed

lemma pte_of_zero: "pte_of (\<lambda>_. 0) pgdir va = 0" "\<not> present (pde_of (\<lambda>_. 0) pgdir i)"
  by (simp_all add: pte_of_def pde_of_def load32_def present_def)

lemma kmem0_pd: "pd_inv kmem0 0x80300000 [0x80200000]"
proof -
  have "mem kmem0 = (\<lambda>_. 0)" "kend kmem0 = 0x80100000" by (simp_all add: kmem0_def mach.defs)
  then show ?thesis
    using kmem0_ok by (simp add: pd_inv_def pd_tables_def pte_of_zero kpage_def page_aligned_def V2P_def
        KERNBASE_def PHYSTOP_def)
qed

theorem mappages_maps_witness:
  "\<exists>r t ys. mappages 0x80300000 0x400000 0x2000 0x5000 PTE_U kmem0 = Ok r t
    \<and> pd_inv t 0x80300000 ys \<and> (\<exists>us. [0x80200000] = us @ ys)
    \<and> same_outside (mem kmem0) 0x80300000 [0x80200000] (mem t)
    \<and> (r = - 1 \<and> ys = [] \<or> r = 0 \<and> (\<forall>a. pte_of (mem t) 0x80300000 a =
        (if in_pages 0x400000 1 a then 0x5000 + (PGROUNDDOWN a - 0x400000) OR PTE_U OR PTE_P
         else pte_of (mem kmem0) 0x80300000 a)))"
proof (rule mappages_maps [OF kmem0_pd])
  fix a show "\<not> present (pte_of (mem kmem0) 0x80300000 a)"
    by (simp add: kmem0_def mach.defs pte_of_zero) (simp add: present_def)
qed (simp_all add: page_aligned_def)

text \<open>C11: \<open>copyout\<close> writes the caller's bytes to user memory: when every page of the target
  range is a user page backed by memory of its own, it returns 0, each user address of the
  range then holds the corresponding byte of the buffer, and no other byte of memory and no
  translation changes.\<close>

theorem copyout_writes:
  assumes "pd_inv s pgdir xs" "copyout_ok s pgdir xs va buf (unat len)"
  shows "\<exists>t. copyout pgdir va buf len s = Ok 0 t \<and> pd_inv t pgdir xs
    \<and> (\<forall>a. uaddr (mem t) pgdir a = uaddr (mem s) pgdir a)
    \<and> (\<forall>i < unat len. mem t (uaddr (mem t) pgdir (va + of_nat i)) = mem s (buf + of_nat i))
    \<and> (\<forall>x. (\<forall>i < unat len. x \<noteq> uaddr (mem s) pgdir (va + of_nat i)) \<longrightarrow> mem t x = mem s x)"
proof -
  obtain t where t: "copyout pgdir va buf len s = Ok 0 t" "pd_inv t pgdir xs"
    "\<forall>a. pte_of (mem t) pgdir a = pte_of (mem s) pgdir a"
    "\<forall>i < unat len. mem t (uaddr (mem s) pgdir (va + of_nat i)) = mem s (buf + of_nat i)"
    "\<forall>x. (\<forall>i < unat len. x \<noteq> uaddr (mem s) pgdir (va + of_nat i)) \<longrightarrow> mem t x = mem s x"
    using copyout_spec [OF assms] by blast
  have "uaddr (mem t) pgdir a = uaddr (mem s) pgdir a" for a
    using t(3) by (simp add: uaddr_def frame_of_def)
  then show ?thesis using t by auto
qed

definition pt_mem0 :: mem where
  "pt_mem0 = store32 (store32 (\<lambda>_. 0) (0x80300000 + 4 * 0) 0x301007) (0x80301000 + 4 * 1) 0x302007"

definition pt_kmem0 :: kmem where
  "pt_kmem0 = kmem0\<lparr>mem := pt_mem0, freelist := 0\<rparr>"

lemma pt_mem0_pde: "unat i < 1024 \<Longrightarrow> pde_of pt_mem0 0x80300000 i = (if i = 0 then 0x301007 else 0)"
  using load_entry_store [of "0x80301000" "0x80300000" 1 i "store32 (\<lambda>_. 0) (0x80300000 + 4 * 0) 0x301007" "0x302007"]
    load_entry_store [of "0x80300000" "0x80300000" 0 i "\<lambda>_. 0" "0x301007"]
  by (simp add: pde_of_def pt_mem0_def page_aligned_def load32_def)

lemma pt_kmem0_ok:
  "mem pt_kmem0 = pt_mem0" "pd_inv pt_kmem0 0x80300000 []"
  "pte_of pt_mem0 0x80300000 0x1004 = 0x302007" "ptab_of pt_mem0 0x80300000 0 = 0x80301000"
proof -
  show m: "mem pt_kmem0 = pt_mem0" by (simp add: pt_kmem0_def)
  have k: "kpage pt_kmem0 0x80300000" "kpage pt_kmem0 0x80301000"
    by (simp_all add: kpage_def pt_kmem0_def kmem0_ok page_aligned_def V2P_def KERNBASE_def PHYSTOP_def)
  show p: "ptab_of pt_mem0 0x80300000 0 = 0x80301000"
    by (simp add: ptab_of_def pt_mem0_pde PTE_ADDR_def P2V_def KERNBASE_def)
  have pr: "present (pde_of pt_mem0 0x80300000 i) \<longleftrightarrow> i = 0" if "unat i < 1024" for i
    using that by (auto simp: pt_mem0_pde present_def PTE_P_def)
  have "kmem_ready pt_kmem0" using kmem0_ok by (simp add: pt_kmem0_def)
  then show "pd_inv pt_kmem0 0x80300000 []"
    using k p pr by (auto simp: pd_inv_def m pd_tables_def kmem_inv_def pt_kmem0_def)
  have "pte_of pt_mem0 0x80300000 0x1004 = load32 pt_mem0 (0x80301000 + 4 * 1)"
    using p by (simp add: pte_of_def PDX_def PTX_def PDXSHIFT_def PTXSHIFT_def pt_mem0_pde present_def
        PTE_P_def)
  then show "pte_of pt_mem0 0x80300000 0x1004 = 0x302007" by (simp add: pt_mem0_def)
qed

theorem copyout_writes_witness:
  "\<exists>t. copyout 0x80300000 0x1004 0x80400000 3 pt_kmem0 = Ok 0 t \<and> pd_inv t 0x80300000 []
    \<and> (\<forall>a. uaddr (mem t) 0x80300000 a = uaddr (mem pt_kmem0) 0x80300000 a)
    \<and> mem t (uaddr (mem t) 0x80300000 0x1004) = mem pt_kmem0 0x80400000
    \<and> mem t (uaddr (mem t) 0x80300000 (0x1004 + of_nat 2)) = mem pt_kmem0 (0x80400000 + of_nat 2)"
proof -
  have sp: "same_page (0x1004 + of_nat i) 0x1004" if "i < 3" for i
    using chunk_same_page(2) [of i "0x1004"] that by simp
  then have fr: "pte_of pt_mem0 0x80300000 (0x1004 + of_nat i) = 0x302007" if "i < 3" for i
    using that pt_kmem0_ok(3) pte_of_same [of "0x1004 + of_nat i" "0x1004"] by simp
  then have "frame_of pt_mem0 0x80300000 (0x1004 + of_nat i) = 0x80302000" if "i < 3" for i
    using that by (simp add: frame_of_def PTE_ADDR_def P2V_def KERNBASE_def)
  moreover have "\<not> pt_page pt_mem0 0x80300000 [] 0x80302000" "kpage pt_kmem0 0x80302000"
    using pt_kmem0_ok(4)
    by (auto simp: pt_page_def pt_mem0_pde present_def kpage_def pt_kmem0_def kmem0_ok page_aligned_def V2P_def
        KERNBASE_def PHYSTOP_def split: if_splits)
  moreover have "PGROUNDDOWN (0x80400000 + of_nat i) = 0x80400000" if "i < 3" for i
    using that by (intro offset_in_frame) (simp_all add: page_aligned_def unat_of_nat32)
  moreover have "same_page (0x1004 + of_nat i) (0x1004 + of_nat j)" if "i < 3" "j < 3" for i j
    using sp that by (simp add: same_page_def)
  ultimately have "copyout_ok pt_kmem0 0x80300000 [] 0x1004 0x80400000 (unat (3::u32))"
    using fr by (simp add: copyout_ok_def pt_kmem0_ok(1) user_page_def present_def PTE_P_def PTE_U_def)
  from copyout_writes [OF pt_kmem0_ok(2) this] obtain t where
    "copyout 0x80300000 0x1004 0x80400000 3 pt_kmem0 = Ok 0 t" "pd_inv t 0x80300000 []"
    "\<forall>a. uaddr (mem t) 0x80300000 a = uaddr (mem pt_kmem0) 0x80300000 a"
    "\<forall>i < 3. mem t (uaddr (mem t) 0x80300000 (0x1004 + of_nat i)) = mem pt_kmem0 (0x80400000 + of_nat i)"
    by auto
  then show ?thesis
    by (intro exI [of _ t] conjI) (auto dest: spec [of _ "0::nat"] spec [of _ "2::nat"])
qed

end
