(* ===== verification/Proc.thy ===== *)
theory Proc
  imports Vm
begin

text \<open>
  Processes, \<open>src/my-xv6-public/proc.c\<close>: the process table, the scheduler, and sleep and
  wakeup. The operations that also touch files and inodes (\<open>userinit\<close>, \<open>fork\<close>, \<open>exit\<close>) are in a
  later theory. A process that calls \<open>swtch\<close> ends its step with the outcome \<open>Switch\<close>; what it
  does when it runs again is a separate definition with the suffix \<open>_resume\<close>.
\<close>

section \<open>State\<close>

datatype procstate = UNUSED | EMBRYO | SLEEPING | RUNNABLE | RUNNING | ZOMBIE

text \<open>
  \<open>struct proc\<close>: processes, open files and inodes are named by their index in the tables that
  hold them; \<open>tf\<close> and \<open>pcontext\<close> (\<open>context\<close>) are addresses in the kernel stack.
\<close>

record proc =
  sz :: u32
  pgdir :: u32
  kstack :: u32
  state :: procstate
  pid :: u32
  parent :: "nat option"
  tf :: u32
  pcontext :: u32
  pchan :: "chan option"
  killed :: bool
  ofile :: "nat \<Rightarrow> nat option"
  cwd :: "nat option"
  pname :: string
  alarmticks :: u32
  curalarmticks :: u32
  alarmhandler :: u32

definition NPROC :: nat where "NPROC = 64"
definition NOFILE :: nat where "NOFILE = 16"

text \<open>\<open>sym_trapret\<close> and \<open>sym_forkret\<close> are the addresses of \<open>trapret\<close> and \<open>forkret\<close>.\<close>

record kproc = kvm +
  procs :: "nat \<Rightarrow> proc"
  initproc :: "nat option"
  nextpid :: u32
  ticks :: u32
  sym_trapret :: u32
  sym_forkret :: u32

definition upd_proc :: "nat \<Rightarrow> (proc \<Rightarrow> proc) \<Rightarrow> 'a kproc_scheme \<Rightarrow> 'a kproc_scheme" where
  "upd_proc p f s = s\<lparr>procs := (procs s)(p := f (procs s p))\<rparr>"

section \<open>Operations\<close>

definition pinit :: "'a kproc_scheme \<Rightarrow> 'a kproc_scheme" where
  "pinit s = initlock LkPtable s"

definition cpuid :: "'a kproc_scheme \<Rightarrow> (nat, 'a kproc_scheme) res" where
  "cpuid s = mycpu s"

definition myproc :: "'a kproc_scheme \<Rightarrow> (nat option, 'a kproc_scheme) res" where
  "myproc s = bind (pushcli s) (\<lambda>_ s. bind (mycpu s) (\<lambda>c s.
     let p = cpu_proc (cpus s c) in bind (popcli s) (\<lambda>_ s. Ok p s)))"

text \<open>\<open>myproc()\<close> where the result is dereferenced at once.\<close>

definition curproc :: "'a kproc_scheme \<Rightarrow> (nat, 'a kproc_scheme) res" where
  "curproc s = bind (myproc s) (\<lambda>p s. case p of None \<Rightarrow> Fault | Some p \<Rightarrow> Ok p s)"

definition sizeof_trapframe :: u32 where "sizeof_trapframe = 76"
definition sizeof_context :: u32 where "sizeof_context = 20"

definition allocproc :: "'a kproc_scheme \<Rightarrow> (nat option, 'a kproc_scheme) res" where
  "allocproc s = bind (acquire LkPtable s) (\<lambda>_ s.
     case find (\<lambda>p. state (procs s p) = UNUSED) [0..<NPROC] of
       None \<Rightarrow> bind (release LkPtable s) (\<lambda>_ s. Ok None s)
     | Some p \<Rightarrow>
         let s = upd_proc p (\<lambda>x. x\<lparr>state := EMBRYO, pid := nextpid s\<rparr>) s;
             s = s\<lparr>nextpid := nextpid s + 1\<rparr> in
         bind (release LkPtable s) (\<lambda>_ s.
         bind (kalloc s) (\<lambda>stk s.
         let s = upd_proc p (\<lambda>x. x\<lparr>kstack := stk\<rparr>) s in
         if stk = 0 then Ok None (upd_proc p (\<lambda>x. x\<lparr>state := UNUSED\<rparr>) s)
         else
           let sp = stk + KSTACKSIZE;
               sp = sp - sizeof_trapframe;
               s = upd_proc p (\<lambda>x. x\<lparr>tf := sp\<rparr>) s;
               sp = sp - 4;
               s = s\<lparr>mem := store32 (mem s) sp (sym_trapret s)\<rparr>;
               sp = sp - sizeof_context;
               s = upd_proc p (\<lambda>x. x\<lparr>pcontext := sp\<rparr>) s;
               s = s\<lparr>mem := memset (mem s) sp 0 sizeof_context\<rparr>;
               s = s\<lparr>mem := store32 (mem s) (sp + 16) (sym_forkret s)\<rparr> in
           Ok (Some p) s)))"

text \<open>\<open>n\<close> is a signed argument; \<open>sz + n\<close> is computed modulo \<open>2\<^sup>3\<^sup>2\<close>.\<close>

definition growproc :: "u32 \<Rightarrow> 'a kproc_scheme \<Rightarrow> (int, 'a kproc_scheme) res" where
  "growproc n s = bind (curproc s) (\<lambda>p s.
     let pg = pgdir (procs s p); z = sz (procs s p) in
     bind (if 0 < sint n then
             bind (allocuvm pg z (z + n) s) (\<lambda>z s. Ok (if z = 0 then None else Some z) s)
           else if sint n < 0 then
             bind (deallocuvm pg z (z + n) s) (\<lambda>z s. Ok (if z = 0 then None else Some z) s)
           else Ok (Some z) s) (\<lambda>r s.
     case r of None \<Rightarrow> Ok (- 1) s
     | Some z \<Rightarrow>
         let s = upd_proc p (\<lambda>x. x\<lparr>sz := z\<rparr>) s in
         bind (switchuvm (kstack (procs s p)) (pgdir (procs s p)) s) (\<lambda>_ s. Ok 0 s)))"

text \<open>
  \<open>sched\<close> up to \<open>swtch\<close>, and after it: the saved \<open>intena\<close> belongs to the kernel thread.
\<close>

definition sched :: "'a kproc_scheme \<Rightarrow> (unit, 'a kproc_scheme) res" where
  "sched s = bind (curproc s) (\<lambda>p s. bind (holding LkPtable s) (\<lambda>h s.
     if \<not> h then Panic ''sched ptable.lock''
     else bind (mycpu s) (\<lambda>c s.
       if ncli (cpus s c) \<noteq> 1 then Panic ''sched locks''
       else if state (procs s p) = RUNNING then Panic ''sched running''
       else if readeflags_IF s then Panic ''sched interruptible''
       else Switch s)))"

definition sched_resume :: "bool \<Rightarrow> 'a kproc_scheme \<Rightarrow> (unit, 'a kproc_scheme) res" where
  "sched_resume ie s = bind (mycpu s) (\<lambda>c s. Ok () (upd_cpu c (\<lambda>x. x\<lparr>intena := ie\<rparr>) s))"

definition yield :: "'a kproc_scheme \<Rightarrow> (unit, 'a kproc_scheme) res" where
  "yield s = bind (acquire LkPtable s) (\<lambda>_ s. bind (curproc s) (\<lambda>p s.
     sched (upd_proc p (\<lambda>x. x\<lparr>state := RUNNABLE\<rparr>) s)))"

definition yield_resume :: "bool \<Rightarrow> 'a kproc_scheme \<Rightarrow> (unit, 'a kproc_scheme) res" where
  "yield_resume ie s = bind (sched_resume ie s) (\<lambda>_ s. release LkPtable s)"

text \<open>\<open>sleep(chan, lk)\<close>; no caller passes a null lock.\<close>

definition sleep :: "chan \<Rightarrow> lockid \<Rightarrow> 'a kproc_scheme \<Rightarrow> (unit, 'a kproc_scheme) res" where
  "sleep ch lk s = bind (myproc s) (\<lambda>p s.
     case p of None \<Rightarrow> Panic ''sleep''
     | Some p \<Rightarrow>
         bind (if lk \<noteq> LkPtable then bind (acquire LkPtable s) (\<lambda>_ s. release lk s) else Ok () s) (\<lambda>_ s.
         sched (upd_proc p (\<lambda>x. x\<lparr>pchan := Some ch, state := SLEEPING\<rparr>) s)))"

definition sleep_resume :: "nat \<Rightarrow> lockid \<Rightarrow> bool \<Rightarrow> 'a kproc_scheme \<Rightarrow> (unit, 'a kproc_scheme) res" where
  "sleep_resume p lk ie s = bind (sched_resume ie s) (\<lambda>_ s.
     let s = upd_proc p (\<lambda>x. x\<lparr>pchan := None\<rparr>) s in
     if lk \<noteq> LkPtable then bind (release LkPtable s) (\<lambda>_ s. acquire lk s) else Ok () s)"

definition wakeup1 :: "chan option \<Rightarrow> 'a kproc_scheme \<Rightarrow> 'a kproc_scheme" where
  "wakeup1 ch s = fold (\<lambda>p s.
     if state (procs s p) = SLEEPING \<and> pchan (procs s p) = ch
     then upd_proc p (\<lambda>x. x\<lparr>state := RUNNABLE\<rparr>) s else s) [0..<NPROC] s"

definition wakeup :: "chan \<Rightarrow> 'a kproc_scheme \<Rightarrow> (unit, 'a kproc_scheme) res" where
  "wakeup ch s = bind (acquire LkPtable s) (\<lambda>_ s. release LkPtable (wakeup1 (Some ch) s))"

definition kill :: "u32 \<Rightarrow> 'a kproc_scheme \<Rightarrow> (int, 'a kproc_scheme) res" where
  "kill n s = bind (acquire LkPtable s) (\<lambda>_ s.
     case find (\<lambda>p. pid (procs s p) = n) [0..<NPROC] of
       Some p \<Rightarrow>
         let s = upd_proc p (\<lambda>x. x\<lparr>killed := True\<rparr>) s;
             s = (if state (procs s p) = SLEEPING then upd_proc p (\<lambda>x. x\<lparr>state := RUNNABLE\<rparr>) s else s) in
         bind (release LkPtable s) (\<lambda>_ s. Ok 0 s)
     | None \<Rightarrow> bind (release LkPtable s) (\<lambda>_ s. Ok (- 1) s))"

text \<open>
  \<open>wait\<close>: the scan, entered with \<open>ptable.lock\<close> held. The first zombie child in table order is
  reaped; \<open>sleep\<close> returns here through \<open>wait_resume\<close>.
\<close>

definition wait_scan :: "nat \<Rightarrow> 'a kproc_scheme \<Rightarrow> (int, 'a kproc_scheme) res" where
  "wait_scan cur s =
    (case find (\<lambda>p. parent (procs s p) = Some cur \<and> state (procs s p) = ZOMBIE) [0..<NPROC] of
       Some p \<Rightarrow>
         let n = pid (procs s p) in
         bind (kfree (kstack (procs s p)) s) (\<lambda>_ s.
         let s = upd_proc p (\<lambda>x. x\<lparr>kstack := 0\<rparr>) s in
         bind (freevm (pgdir (procs s p)) s) (\<lambda>_ s.
         let s = upd_proc p (\<lambda>x. x\<lparr>pid := 0, parent := None, pname := [], killed := False,
                   state := UNUSED\<rparr>) s in
         bind (release LkPtable s) (\<lambda>_ s. Ok (sint n) s)))
     | None \<Rightarrow>
         if \<not> list_ex (\<lambda>p. parent (procs s p) = Some cur) [0..<NPROC] \<or> killed (procs s cur)
         then bind (release LkPtable s) (\<lambda>_ s. Ok (- 1) s)
         else bind (sleep (ChProc cur) LkPtable s) (\<lambda>_ s. Hang))"

definition wait :: "'a kproc_scheme \<Rightarrow> (int, 'a kproc_scheme) res" where
  "wait s = bind (curproc s) (\<lambda>cur s. bind (acquire LkPtable s) (\<lambda>_ s. wait_scan cur s))"

definition wait_resume :: "nat \<Rightarrow> bool \<Rightarrow> 'a kproc_scheme \<Rightarrow> (int, 'a kproc_scheme) res" where
  "wait_resume cur ie s = bind (sleep_resume cur LkPtable ie s) (\<lambda>_ s. wait_scan cur s)"

text \<open>
  The scheduler of one CPU \<open>c\<close>. A round starts with the table unlocked; \<open>scheduler_scan\<close> looks
  for a process from index \<open>i\<close> on and either hands the CPU to it (\<open>Some p\<close>, inside \<open>swtch\<close>,
  lock held) or ends the round; \<open>scheduler_resume\<close> is what follows that \<open>swtch\<close>.
\<close>

definition scheduler_init :: "'a kproc_scheme \<Rightarrow> (nat, 'a kproc_scheme) res" where
  "scheduler_init s = bind (mycpu s) (\<lambda>c s. Ok c (upd_cpu c (\<lambda>x. x\<lparr>cpu_proc := None\<rparr>) s))"

definition scheduler_scan :: "nat \<Rightarrow> nat \<Rightarrow> 'a kproc_scheme \<Rightarrow> (nat option, 'a kproc_scheme) res" where
  "scheduler_scan c i s =
    (case find (\<lambda>p. state (procs s p) = RUNNABLE) [i..<NPROC] of
       Some p \<Rightarrow>
         let s = upd_cpu c (\<lambda>x. x\<lparr>cpu_proc := Some p\<rparr>) s in
         bind (switchuvm (kstack (procs s p)) (pgdir (procs s p)) s) (\<lambda>_ s.
         Ok (Some p) (upd_proc p (\<lambda>x. x\<lparr>state := RUNNING\<rparr>) s))
     | None \<Rightarrow> bind (release LkPtable s) (\<lambda>_ s. Ok None s))"

definition scheduler_resume :: "nat \<Rightarrow> nat \<Rightarrow> 'a kproc_scheme \<Rightarrow> (nat option, 'a kproc_scheme) res" where
  "scheduler_resume c p s =
     scheduler_scan c (Suc p) (upd_cpu c (\<lambda>x. x\<lparr>cpu_proc := None\<rparr>) (switchkvm s))"

definition scheduler_round :: "nat \<Rightarrow> 'a kproc_scheme \<Rightarrow> (nat option, 'a kproc_scheme) res" where
  "scheduler_round c s = bind (acquire LkPtable (sti s)) (\<lambda>_ s. scheduler_scan c 0 s)"

text \<open>The end of \<open>fork\<close> and of \<open>userinit\<close>: the new process may run.\<close>

definition make_runnable :: "nat \<Rightarrow> 'a kproc_scheme \<Rightarrow> (unit, 'a kproc_scheme) res" where
  "make_runnable p s = bind (acquire LkPtable s) (\<lambda>_ s.
     release LkPtable (upd_proc p (\<lambda>x. x\<lparr>state := RUNNABLE\<rparr>) s))"

text \<open>The part of \<open>exit\<close> that runs with \<open>ptable.lock\<close> held and never returns.\<close>

definition reparent :: "nat \<Rightarrow> 'a kproc_scheme \<Rightarrow> 'a kproc_scheme" where
  "reparent cur s = fold (\<lambda>p s.
     if parent (procs s p) = Some cur
     then let s = upd_proc p (\<lambda>x. x\<lparr>parent := initproc s\<rparr>) s in
          if state (procs s p) = ZOMBIE then wakeup1 (map_option ChProc (initproc s)) s else s
     else s) [0..<NPROC] s"

definition exit_sched :: "nat \<Rightarrow> 'a kproc_scheme \<Rightarrow> (unit, 'a kproc_scheme) res" where
  "exit_sched cur s = bind (acquire LkPtable s) (\<lambda>_ s.
     let s = wakeup1 (map_option ChProc (parent (procs s cur))) s;
         s = reparent cur s in
     bind (sched (upd_proc cur (\<lambda>x. x\<lparr>state := ZOMBIE\<rparr>) s)) (\<lambda>_ s. Panic ''zombie exit''))"

section \<open>Lock states and the process table\<close>

lemma kproc_lock_st [simp]:
  "procs (lock_st l s) = procs s" "initproc (lock_st l s) = initproc s"
  "nextpid (lock_st l s) = nextpid s" "ticks (lock_st l s) = ticks s"
  by (simp_all add: lock_st_def push_st_def)

lemma kproc_touch [simp]:
  "procs (touch s) = procs s" "initproc (touch s) = initproc s" "nextpid (touch s) = nextpid s"
  "ticks (touch s) = ticks s"
  by (simp_all add: touch_def)

lemma lock_st_kproc [simp]:
  "(lock_st l s)\<lparr>procs := x1\<rparr> = lock_st l (s\<lparr>procs := x1\<rparr>)"
  "(lock_st l s)\<lparr>initproc := x2\<rparr> = lock_st l (s\<lparr>initproc := x2\<rparr>)"
  "(lock_st l s)\<lparr>nextpid := x3\<rparr> = lock_st l (s\<lparr>nextpid := x3\<rparr>)"
  "(lock_st l s)\<lparr>ticks := x4\<rparr> = lock_st l (s\<lparr>ticks := x4\<rparr>)"
  by (simp_all add: lock_st_def push_st_def curcpu_def)

lemma touch_kproc [simp]:
  "(touch s)\<lparr>procs := x1\<rparr> = touch (s\<lparr>procs := x1\<rparr>)"
  "(touch s)\<lparr>initproc := x2\<rparr> = touch (s\<lparr>initproc := x2\<rparr>)"
  "(touch s)\<lparr>nextpid := x3\<rparr> = touch (s\<lparr>nextpid := x3\<rparr>)"
  "(touch s)\<lparr>ticks := x4\<rparr> = touch (s\<lparr>ticks := x4\<rparr>)"
  by (simp_all add: touch_def curcpu_def)

lemma mach_ok_kproc [simp]:
  "mach_ok (s\<lparr>procs := x1\<rparr>) = mach_ok s"
  "mach_ok (s\<lparr>initproc := x2\<rparr>) = mach_ok s"
  "mach_ok (s\<lparr>nextpid := x3\<rparr>) = mach_ok s"
  "mach_ok (s\<lparr>ticks := x4\<rparr>) = mach_ok s"
  "lk_free l (s\<lparr>procs := x1\<rparr>) = lk_free l s"
  "lk_free l (s\<lparr>initproc := x2\<rparr>) = lk_free l s"
  "lk_free l (s\<lparr>nextpid := x3\<rparr>) = lk_free l s"
  "lk_free l (s\<lparr>ticks := x4\<rparr>) = lk_free l s"
  "curcpu (s\<lparr>procs := x1\<rparr>) = curcpu s"
  "curcpu (s\<lparr>initproc := x2\<rparr>) = curcpu s"
  "curcpu (s\<lparr>nextpid := x3\<rparr>) = curcpu s"
  "curcpu (s\<lparr>ticks := x4\<rparr>) = curcpu s"
  by (simp_all add: mach_ok_def curcpu_def lk_free_def)


lemma kproc_syms [simp]:
  "sym_trapret (lock_st l s) = sym_trapret s" "sym_forkret (lock_st l s) = sym_forkret s"
  "sym_trapret (touch s) = sym_trapret s" "sym_forkret (touch s) = sym_forkret s"
  by (simp_all add: lock_st_def push_st_def touch_def)

section \<open>Characteristic equations\<close>

lemma cpu_proc_st [simp]:
  "cpu_proc (cpus (push_st s) c) = cpu_proc (cpus s c)" "cpu_proc (cpus (touch s) c) = cpu_proc (cpus s c)"
  "cpu_proc (cpus (lock_st l s) c) = cpu_proc (cpus s c)"
  by (simp_all add: push_st_def touch_def lock_st_def)

lemma myproc_eq [kern]:
  "mach_ok s \<Longrightarrow> myproc s = Ok (cpu_proc (cpus s (curcpu s))) (touch s)"
  by (simp add: myproc_def pushcli_eq mycpu_push_st popcli_push_st Let_def)

lemma curproc_eq [kern]:
  "mach_ok s \<Longrightarrow> cpu_proc (cpus s (curcpu s)) = Some p \<Longrightarrow> curproc s = Ok p (touch s)"
  by (simp add: curproc_def myproc_eq)

text \<open>A loop over the table that updates the entries satisfying a condition.\<close>

lemma fold_upd_proc:
  assumes "distinct xs"
  shows "fold (\<lambda>p s. if P (procs s p) then upd_proc p f s else s) xs s
    = s\<lparr>procs := \<lambda>p. if p \<in> set xs \<and> P (procs s p) then f (procs s p) else procs s p\<rparr>"
  using assms
proof (induction xs arbitrary: s)
  case (Cons x xs)
  then show ?case by (auto simp: upd_proc_def intro!: arg_cong [where f = "\<lambda>z. _\<lparr>procs := z\<rparr>"] ext)
qed simp

definition wake_procs :: "chan option \<Rightarrow> (nat \<Rightarrow> proc) \<Rightarrow> nat \<Rightarrow> proc" where
  "wake_procs ch ps = (\<lambda>p. if p < NPROC \<and> state (ps p) = SLEEPING \<and> pchan (ps p) = ch
     then (ps p)\<lparr>state := RUNNABLE\<rparr> else ps p)"

lemma wakeup1_eq [kern]: "wakeup1 ch s = s\<lparr>procs := wake_procs ch (procs s)\<rparr>"
  using fold_upd_proc [of "[0..<NPROC]" "\<lambda>x. state x = SLEEPING \<and> pchan x = ch" "\<lambda>x. x\<lparr>state := RUNNABLE\<rparr>" s]
  by (simp add: wakeup1_def wake_procs_def)

lemma wakeup_eq [kern]:
  "mach_ok s \<Longrightarrow> lk_free LkPtable s \<Longrightarrow> wakeup ch s = Ok () (touch (s\<lparr>procs := wake_procs (Some ch) (procs s)\<rparr>))"
  by (simp add: wakeup_def kern)

lemma upd_proc_st [simp]:
  "upd_proc p f (lock_st l s) = lock_st l (upd_proc p f s)" "upd_proc p f (touch s) = touch (upd_proc p f s)"
  "mach_ok (upd_proc p f s) = mach_ok s" "lk_free l (upd_proc p f s) = lk_free l s"
  "cpus (upd_proc p f s) = cpus s" "curcpu (upd_proc p f s) = curcpu s"
  "procs (upd_proc p f s) = (procs s)(p := f (procs s p))"
  by (simp_all add: upd_proc_def)

lemma ncli_lock_st [simp]: "ncli (cpus (lock_st l s) (curcpu s)) = ncli (cpus s (curcpu s)) + 1"
  by (simp add: lock_st_def push_st_def)

lemma iflag_lock_st [simp]: "\<not> iflag (lock_st l s) (lapicid s)"
  by (simp add: lock_st_def push_st_def)

lemma sched_eq [kern]:
  assumes "mach_ok s" "ncli (cpus s (curcpu s)) = 0" "cpu_proc (cpus s (curcpu s)) = Some p"
    "state (procs s p) \<noteq> RUNNING"
  shows "sched (lock_st LkPtable s) = Switch (lock_st LkPtable s)"
  using assms by (simp add: sched_def kern mycpu_off readeflags_IF_def)

lemma yield_eq [kern]:
  assumes "mach_ok s" "lk_free LkPtable s" "ncli (cpus s (curcpu s)) = 0"
    "cpu_proc (cpus s (curcpu s)) = Some p"
  shows "yield s = Switch (lock_st LkPtable (upd_proc p (\<lambda>x. x\<lparr>state := RUNNABLE\<rparr>) s))"
  using assms by (simp add: yield_def kern)

lemma sleep_eq [kern]:
  assumes "mach_ok s" "lk_free LkPtable s" "lk_free lk s" "lk \<noteq> LkPtable"
    "ncli (cpus s (curcpu s)) = 0" "cpu_proc (cpus s (curcpu s)) = Some p"
  shows "sleep ch lk (lock_st lk s) =
    Switch (lock_st LkPtable (upd_proc p (\<lambda>x. x\<lparr>pchan := Some ch, state := SLEEPING\<rparr>) s))"
  using assms lock_st_commute [of s LkPtable lk] by (simp add: sleep_def kern)

section \<open>One process, one CPU\<close>

text \<open>
  Two states that agree on who runs where. Locking, paging and memory operations, whatever
  their outcome, change nothing of this.
\<close>

definition same_run :: "'a kproc_scheme \<Rightarrow> 'a kproc_scheme \<Rightarrow> bool" where
  "same_run s t \<longleftrightarrow> procs t = procs s \<and> ncpu t = ncpu s \<and> lapicid t = lapicid s
     \<and> initproc t = initproc s
     \<and> (\<forall>c. cpu_proc (cpus t c) = cpu_proc (cpus s c) \<and> apicid (cpus t c) = apicid (cpus s c))"

lemma same_run_refl [simp]: "same_run s s"
  by (simp add: same_run_def)

lemma same_run_trans: "same_run s t \<Longrightarrow> same_run t u \<Longrightarrow> same_run s u"
  by (simp add: same_run_def)

interpretation run: state_frame same_run
  by unfold_locales (auto intro: same_run_trans)

lemma same_run_upd [simp]:
  "same_run s (t\<lparr>mem := m\<rparr>) = same_run s t" "same_run s (t\<lparr>freelist := fl\<rparr>) = same_run s t"
  "same_run s (t\<lparr>locks := ls\<rparr>) = same_run s t" "same_run (s\<lparr>mem := m\<rparr>) t = same_run s t"
  "same_run (s\<lparr>freelist := fl\<rparr>) t = same_run s t" "same_run (s\<lparr>locks := ls\<rparr>) t = same_run s t"
  "same_run s (t\<lparr>iflag := ifl\<rparr>) = same_run s t" "same_run (s\<lparr>iflag := ifl\<rparr>) t = same_run s t"
  by (simp_all add: same_run_def)

lemma keeps_run_upd [simp]:
  "keeps same_run (s\<lparr>mem := m\<rparr>) r = keeps same_run s r"
  "keeps same_run (s\<lparr>freelist := fl\<rparr>) r = keeps same_run s r"
  "keeps same_run (s\<lparr>locks := ls\<rparr>) r = keeps same_run s r"
  "keeps same_run (s\<lparr>iflag := ifl\<rparr>) r = keeps same_run s r"
  by (cases r; simp)+

lemma upd_cpu_run [simp]:
  "same_run s (upd_cpu c (\<lambda>x. x\<lparr>intena := b\<rparr>) t) = same_run s t"
  "same_run s (upd_cpu c (\<lambda>x. x\<lparr>ncli := f x\<rparr>) t) = same_run s t"
  by (auto simp: same_run_def upd_cpu_def)

lemma mycpu_run [framed]: "keeps same_run s (mycpu s)"
  by (simp add: mycpu_def split: option.split)

lemma pushcli_run [framed]: "keeps same_run s (pushcli s)"
  using mycpu_run [of "cli s"] unfolding pushcli_def Let_def
  by (simp add: cli_def) (intro run.keeps_bind; simp)

lemma popcli_run [framed]: "keeps same_run s (popcli s)"
  unfolding popcli_def Let_def by (auto intro!: run.keeps_bind framed keeps_if simp: sti_def)

lemma holding_run [framed]: "keeps same_run s (holding l s)"
  unfolding holding_def Let_def by (intro run.keeps_bind framed) simp

lemma acquire_run [framed]: "keeps same_run s (acquire l s)"
  unfolding acquire_def by (intro run.keeps_bind framed keeps_if) simp_all

lemma release_run [framed]: "keeps same_run s (release l s)"
proof -
  have "keeps same_run s (popcli (s\<lparr>locks := ls\<rparr>))" for s :: "'a kproc_scheme" and ls
    using popcli_run [of "s\<lparr>locks := ls\<rparr>"] by simp
  then show ?thesis unfolding release_def by (intro run.keeps_bind framed keeps_if) simp_all
qed

lemma myproc_run [framed]: "keeps same_run s (myproc s)"
  unfolding myproc_def Let_def by (intro run.keeps_bind framed) simp

lemma curproc_run [framed]: "keeps same_run s (curproc s)"
  unfolding curproc_def by (intro run.keeps_bind framed) (simp split: option.split)

text \<open>A client of \<open>curproc\<close> on CPU \<open>c\<close> gets the process of that CPU.\<close>

lemma mycpu_apicid: "mycpu s = Ok c t \<Longrightarrow> c < ncpu s \<and> apicid (cpus s c) = lapicid s \<and> t = s"
proof -
  have "mycpu_scan cs a i k = Some c \<Longrightarrow> i \<le> c \<and> c < i + k \<and> apicid (cs c) = a" for cs a i k
    by (induction cs a i k rule: mycpu_scan.induct) (auto split: if_splits)
  then show "mycpu s = Ok c t \<Longrightarrow> c < ncpu s \<and> apicid (cpus s c) = lapicid s \<and> t = s"
    by (fastforce simp: mycpu_def split: if_splits option.splits)
qed

definition apic_inj :: "'a kproc_scheme \<Rightarrow> bool" where
  "apic_inj s \<longleftrightarrow> (\<forall>c < ncpu s. \<forall>d < ncpu s. apicid (cpus s c) = apicid (cpus s d) \<longrightarrow> c = d)"

lemma apic_inj_run: "same_run s t \<Longrightarrow> apic_inj t = apic_inj s"
  by (simp add: same_run_def apic_inj_def)

lemma curproc_on:
  assumes "curproc s = Ok p t" "apic_inj s" "c < ncpu s" "lapicid s = apicid (cpus s c)"
  shows "cpu_proc (cpus s c) = Some p"
proof -
  obtain u v d where u: "pushcli s = Ok () u" "mycpu u = Ok d v" "cpu_proc (cpus v d) = Some p"
    using assms(1) by (auto simp: curproc_def myproc_def Let_def split: option.splits)
  have r: "same_run s u" using pushcli_run u(1) by (rule keeps_Ok)
  have "d < ncpu u" "apicid (cpus u d) = lapicid u" "v = u"
    using mycpu_apicid [OF u(2)] by auto
  then have "d = c" using r assms(2-4) by (auto simp: same_run_def apic_inj_def)
  then show ?thesis using u(3) r \<open>v = u\<close> by (simp add: same_run_def)
qed

lemma switchuvm_run [framed]: "keeps same_run s (switchuvm k g s)"
proof -
  have "keeps same_run s (popcli (s\<lparr>gdt := a, tss := b, tr := c, cr3 := d\<rparr>))"
    for s :: "'a kproc_scheme" and a b c d
    using popcli_run [of "s\<lparr>gdt := a, tss := b, tr := c, cr3 := d\<rparr>"]
    by (rule run.weaken [rotated]) (simp add: same_run_def)
  then show ?thesis unfolding switchuvm_def Let_def by (intro run.keeps_bind framed keeps_if) simp_all
qed

lemma acquire_if_run [framed]: "keeps same_run s (if b then acquire l s else Ok () s)"
  "keeps same_run s (if b then release l s else Ok () s)"
  by (simp_all add: framed)

lemma kfree_run [framed]: "keeps same_run s (kfree v s)"
proof -
  have "keeps same_run s (acquire l (s\<lparr>mem := m\<rparr>))" "keeps same_run s (release l (s\<lparr>mem := m, freelist := f\<rparr>))"
    for s :: "'a kproc_scheme" and l m f
    using acquire_run [of "s\<lparr>mem := m\<rparr>"] release_run [of "s\<lparr>mem := m, freelist := f\<rparr>"] by simp_all
  then show ?thesis unfolding kfree_def Let_def by (intro run.keeps_bind keeps_if) simp_all
qed

lemma kalloc_run [framed]: "keeps same_run s (kalloc s)"
proof -
  have "keeps same_run s (release l (s\<lparr>freelist := f\<rparr>))" for s :: "'a kproc_scheme" and l f
    using release_run [of "s\<lparr>freelist := f\<rparr>"] by simp
  then show ?thesis unfolding kalloc_def Let_def by (intro run.keeps_bind) (simp_all add: framed)
qed

lemma walk_run [framed]: "keeps same_run s (walkpgdir g va al s)"
  unfolding walkpgdir_def Let_def by (intro run.keeps_bind framed keeps_if) simp_all

lemma dealloc_loop_run [framed]: "keeps same_run s (deallocuvm_loop k g va z s)"
proof (induction k arbitrary: va s)
  case (Suc k)
  have "keeps same_run s (deallocuvm_loop k g va z (s\<lparr>mem := m\<rparr>))" for s :: "'a kproc_scheme" and va m
    using Suc [of "s\<lparr>mem := m\<rparr>"] by simp
  then show ?case
    unfolding deallocuvm_loop.simps Let_def by (intro run.keeps_bind framed keeps_if Suc.IH) simp_all
qed simp

lemma deallocuvm_run [framed]: "keeps same_run s (deallocuvm g a b s)"
  unfolding deallocuvm_def by (intro run.keeps_bind framed keeps_if) simp_all

lemma freevm_loop_run [framed]: "keeps same_run s (freevm_loop g is s)"
proof (induction "is" arbitrary: s)
  case (Cons i "is")
  show ?case unfolding freevm_loop.simps Let_def by (intro run.keeps_bind framed keeps_if Cons.IH)
qed simp

lemma freevm_run [framed]: "keeps same_run s (freevm g s)"
  unfolding freevm_def by (intro run.keeps_bind framed keeps_if) simp_all

text \<open>Who runs where: no two CPUs run the same process, and a process is \<open>RUNNING\<close> exactly
  when some CPU runs it.\<close>

definition run_inv :: "'a kproc_scheme \<Rightarrow> bool" where
  "run_inv s \<longleftrightarrow>
    (\<forall>c < ncpu s. \<forall>d < ncpu s. \<forall>p. cpu_proc (cpus s c) = Some p \<longrightarrow> cpu_proc (cpus s d) = Some p \<longrightarrow> c = d)
  \<and> (\<forall>c < ncpu s. \<forall>p. cpu_proc (cpus s c) = Some p \<longrightarrow> state (procs s p) = RUNNING)
  \<and> (\<forall>p. state (procs s p) = RUNNING \<longrightarrow> (\<exists>c < ncpu s. cpu_proc (cpus s c) = Some p))"

text \<open>
  The steps of the system, each one critical section of \<open>ptable.lock\<close> executed by CPU \<open>c\<close>: a
  process wakes, kills, allocates, starts or reaps other processes, or it leaves the CPU
  (\<open>yield\<close>, \<open>sleep\<close>, \<open>wait\<close> and \<open>exit\<close>, inside \<open>swtch\<close>) and the scheduler of that CPU goes on;
  an idle CPU starts a scheduling round. A process picked by the scheduler goes on where it
  left the CPU.
\<close>

definition leaves_cpu :: "'a kproc_scheme \<Rightarrow> 'a kproc_scheme \<Rightarrow> bool" where
  "leaves_cpu s u \<longleftrightarrow> yield s = Switch u \<or> (\<exists>ch lk. sleep ch lk s = Switch u) \<or> wait s = Switch u
     \<or> (\<exists>p t. curproc s = Ok p t \<and> exit_sched p t = Switch u)"

definition goes_on :: "nat option \<Rightarrow> 'a kproc_scheme \<Rightarrow> 'a kproc_scheme \<Rightarrow> bool" where
  "goes_on r u t \<longleftrightarrow> (case r of None \<Rightarrow> t = u
     | Some q \<Rightarrow> (\<exists>ie. yield_resume ie u = Ok () t) \<or> (\<exists>lk ie. sleep_resume q lk ie u = Ok () t)
         \<or> release LkPtable u = Ok () t)"

inductive cpu_step :: "nat \<Rightarrow> 'a kproc_scheme \<Rightarrow> 'a kproc_scheme \<Rightarrow> bool" for c where
  wakes: "wakeup ch s = Ok () t \<Longrightarrow> cpu_step c s t"
| kills: "kill n s = Ok r t \<Longrightarrow> cpu_step c s t"
| allocates: "allocproc s = Ok r t \<Longrightarrow> cpu_step c s t"
| readies: "state (procs s p) = EMBRYO \<Longrightarrow> make_runnable p s = Ok () t \<Longrightarrow> cpu_step c s t"
| reaps: "wait s = Ok r t \<Longrightarrow> cpu_step c s t"
| switches: "cpu_proc (cpus s c) = Some p \<Longrightarrow> leaves_cpu s u \<Longrightarrow> scheduler_resume c p u = Ok r v
    \<Longrightarrow> goes_on r v t \<Longrightarrow> cpu_step c s t"
| starts: "cpu_proc (cpus s c) = None \<Longrightarrow> scheduler_round c s = Ok r v \<Longrightarrow> goes_on r v t \<Longrightarrow> cpu_step c s t"

inductive sched_reach :: "'a kproc_scheme \<Rightarrow> 'a kproc_scheme \<Rightarrow> bool" for s where
  init: "sched_reach s s"
| step: "sched_reach s t \<Longrightarrow> c < ncpu t \<Longrightarrow> cpu_step c (t\<lparr>lapicid := apicid (cpus t c)\<rparr>) u \<Longrightarrow> sched_reach s u"

text \<open>The relation the bookkeeping operations keep: the same processes are running, on the same CPUs.\<close>

definition same_cpus :: "'a kproc_scheme \<Rightarrow> 'a kproc_scheme \<Rightarrow> bool" where
  "same_cpus s t \<longleftrightarrow> ncpu t = ncpu s \<and> lapicid t = lapicid s
     \<and> (\<forall>c. cpu_proc (cpus t c) = cpu_proc (cpus s c) \<and> apicid (cpus t c) = apicid (cpus s c))"

definition running :: "'a kproc_scheme \<Rightarrow> nat set" where
  "running s = {p. state (procs s p) = RUNNING}"

definition same_running :: "'a kproc_scheme \<Rightarrow> 'a kproc_scheme \<Rightarrow> bool" where
  "same_running s t \<longleftrightarrow> same_cpus s t \<and> running t = running s"

interpretation rset: state_frame same_running
  by unfold_locales (auto simp: same_running_def same_cpus_def)

lemma same_run_running: "same_run s t \<Longrightarrow> same_running s t"
  by (simp add: same_run_def same_running_def same_cpus_def running_def)

lemma keeps_run_running: "keeps same_run s r \<Longrightarrow> keeps same_running s r"
  by (cases r) (auto intro: same_run_running)

lemma upd_proc_running:
  assumes "same_running s t" "state (procs t p) \<noteq> RUNNING" "state (f (procs t p)) \<noteq> RUNNING"
  shows "same_running s (upd_proc p f t)"
  using assms by (auto simp: same_running_def same_cpus_def running_def upd_proc_def)

lemma upd_proc_state_running:
  assumes "same_running s t" "state (f (procs t p)) = state (procs t p)"
  shows "same_running s (upd_proc p f t)"
  using assms by (auto simp: same_running_def same_cpus_def running_def upd_proc_def)

lemma wakeup1_running: "same_running s (wakeup1 ch s)"
  by (auto simp: wakeup1_eq wake_procs_def same_running_def same_cpus_def running_def split: if_splits)

lemma fold_running:
  assumes "\<And>x s. same_running s (f x s)"
  shows "same_running s (fold f xs s)"
proof (induction xs arbitrary: s)
  case (Cons x xs)
  then show ?case using assms rset.trans by (metis fold_simps(2))
qed simp

lemma reparent_running: "same_running s (reparent cur s)"
  unfolding reparent_def
proof (rule fold_running)
  fix p and s :: "'a kproc_scheme"
  let ?t = "upd_proc p (\<lambda>x. x\<lparr>parent := initproc s\<rparr>) s"
  have "same_running s ?t" by (intro upd_proc_state_running) simp_all
  moreover have "same_running ?t (wakeup1 ch ?t)" for ch by (rule wakeup1_running)
  ultimately show "same_running s (if parent (procs s p) = Some cur then
      let s = ?t in if state (procs s p) = ZOMBIE then wakeup1 (map_option ChProc (initproc s)) s else s
      else s)"
    by (auto simp: Let_def intro: rset.trans)
qed

lemmas running_frames = framed [THEN keeps_run_running]

lemma wakeup_running: "wakeup ch s = Ok a t \<Longrightarrow> same_running s t"
proof -
  have "keeps same_running s (wakeup ch s)"
    unfolding wakeup_def
    by (rule rset.keeps_bind [OF keeps_run_running [OF acquire_run]])
      (rule rset.weaken [OF wakeup1_running keeps_run_running [OF release_run]])
  then show "wakeup ch s = Ok a t \<Longrightarrow> same_running s t" by (rule keeps_Ok)
qed

lemmas run_Ok = framed [THEN keeps_Ok]

lemmas running_defs = same_run_def same_running_def same_cpus_def running_def upd_proc_def

lemma kill_running: "kill n s = Ok a t \<Longrightarrow> same_running s t"
  by (auto simp: kill_def Let_def running_defs dest!: run_Ok split: option.splits if_splits)

lemma allocproc_running: "allocproc s = Ok a t \<Longrightarrow> same_running s t"
  by (auto simp: allocproc_def Let_def running_defs find_Some_iff dest!: run_Ok split: option.splits if_splits)

lemma sched_Ok: "sched s \<noteq> Ok a t"
  by (auto simp: sched_def split: if_splits)

lemma sleep_Ok: "sleep ch lk s \<noteq> Ok a t"
  by (auto simp: sleep_def sched_Ok split: option.splits if_splits)

lemma wait_running: "wait s = Ok a t \<Longrightarrow> same_running s t"
  by (auto simp: wait_def wait_scan_def Let_def running_defs find_Some_iff sleep_Ok dest!: run_Ok
      split: option.splits if_splits)

lemma make_runnable_running:
  "make_runnable p s = Ok a t \<Longrightarrow> state (procs s p) \<noteq> RUNNING \<Longrightarrow> same_running s t"
  by (auto simp: make_runnable_def running_defs dest!: run_Ok split: if_splits)

text \<open>A process that leaves CPU \<open>c\<close> is no longer running.\<close>

definition left_cpu :: "nat \<Rightarrow> 'a kproc_scheme \<Rightarrow> 'a kproc_scheme \<Rightarrow> bool" where
  "left_cpu p s u \<longleftrightarrow> same_cpus s u \<and> running u = running s - {p}"

lemma sched_Switch:
  assumes "sched s = Switch u"
  shows "same_run s u"
proof -
  have "keeps same_run s (sched s)"
    unfolding sched_def by (intro run.keeps_bind framed keeps_if) simp_all
  then show ?thesis using assms by (rule keeps_Switch)
qed

text \<open>Only \<open>sched\<close> leaves the CPU.\<close>

lemma lock_no_Switch [simp]:
  "mycpu s \<noteq> Switch u" "pushcli s \<noteq> Switch u" "popcli s \<noteq> Switch u" "holding l s \<noteq> Switch u"
  "acquire l s \<noteq> Switch u" "release l s \<noteq> Switch u"
proof -
  show m: "mycpu s \<noteq> Switch u" for s u by (simp add: mycpu_def split: option.split)
  show pu: "pushcli s \<noteq> Switch u" for s u by (simp add: pushcli_def bind_eq_Switch m Let_def)
  show po: "popcli s \<noteq> Switch u" for s u by (auto simp: popcli_def bind_eq_Switch m Let_def)
  show h: "holding l s \<noteq> Switch u" for s u by (simp add: holding_def bind_eq_Switch m pu po Let_def)
  show "acquire l s \<noteq> Switch u" "release l s \<noteq> Switch u"
    by (auto simp: acquire_def release_def bind_eq_Switch m pu po h)
qed

lemma proc_no_Switch [simp]: "myproc s \<noteq> Switch u" "curproc s \<noteq> Switch u"
proof -
  show my: "myproc s \<noteq> Switch u" by (simp add: myproc_def bind_eq_Switch Let_def)
  show "curproc s \<noteq> Switch u" by (simp add: curproc_def bind_eq_Switch my split: option.split)
qed

lemma mem_no_Switch [simp]:
  "kfree v s \<noteq> Switch u" "kalloc s \<noteq> Switch u" "walkpgdir g va al s \<noteq> Switch u"
  "deallocuvm_loop k g a z s \<noteq> Switch u" "freevm_loop g is s \<noteq> Switch u" "freevm g s \<noteq> Switch u"
proof -
  show f: "kfree v s \<noteq> Switch u" for v s u by (simp add: kfree_def bind_eq_Switch Let_def)
  show a: "kalloc s \<noteq> Switch u" for s u by (simp add: kalloc_def bind_eq_Switch Let_def)
  show w: "walkpgdir g va al s \<noteq> Switch u" for g va al s u
    by (simp add: walkpgdir_def bind_eq_Switch Let_def a)
  show d: "deallocuvm_loop k g a z s \<noteq> Switch u" for k g a z s u
    by (induction k arbitrary: a s) (auto simp: bind_eq_Switch Let_def f w)
  show l: "freevm_loop g is s \<noteq> Switch u" for "is" g s u
    by (induction "is" arbitrary: s) (auto simp: bind_eq_Switch Let_def f)
  show "freevm g s \<noteq> Switch u" by (simp add: freevm_def deallocuvm_def bind_eq_Switch f l d)
qed

lemma sleep_leaves:
  assumes "sleep ch lk s = Switch u" "cpu_proc (cpus s c) = Some p" "apic_inj s" "c < ncpu s"
    "lapicid s = apicid (cpus s c)"
  shows "left_cpu p s u"
proof -
  obtain q t v where t: "myproc s = Ok (Some q) t" "same_run t v"
    "sched (upd_proc q (\<lambda>x. x\<lparr>pchan := Some ch, state := SLEEPING\<rparr>) v) = Switch u"
  proof (cases "lk = LkPtable")
    case True
    then obtain q t where "myproc s = Ok (Some q) t"
      "sched (upd_proc q (\<lambda>x. x\<lparr>pchan := Some ch, state := SLEEPING\<rparr>) t) = Switch u"
      using assms(1) by (auto simp: sleep_def bind_eq_Switch split: option.splits)
    then show ?thesis using that same_run_refl by blast
  next
    case False
    then obtain q t w v where "myproc s = Ok (Some q) t" "same_run t w" "same_run w v"
      "sched (upd_proc q (\<lambda>x. x\<lparr>pchan := Some ch, state := SLEEPING\<rparr>) v) = Switch u"
      using assms(1)
      by (auto simp: sleep_def bind_eq_Switch dest!: keeps_Ok [OF acquire_run] keeps_Ok [OF release_run]
          split: option.splits)
    then show ?thesis using that same_run_trans by blast
  qed
  have "curproc s = Ok q t" using t(1) by (simp add: curproc_def)
  then have "q = p" using curproc_on [OF _ assms(3-5)] assms(2) by simp
  then show ?thesis
    using keeps_Ok [OF myproc_run t(1)] t(2) sched_Switch [OF t(3)]
    by (auto simp: left_cpu_def running_defs)
qed

lemma leaves_cpu_left:
  assumes "leaves_cpu s u" "cpu_proc (cpus s c) = Some p" "apic_inj s" "c < ncpu s"
    "lapicid s = apicid (cpus s c)"
  shows "left_cpu p s u"
  using assms(1) unfolding leaves_cpu_def
proof (elim disjE exE conjE)
  assume "yield s = Switch u"
  then obtain t q v where t: "same_run s t" "curproc t = Ok q v"
    "sched (upd_proc q (\<lambda>x. x\<lparr>state := RUNNABLE\<rparr>) v) = Switch u"
    by (auto simp: yield_def bind_eq_Switch dest!: keeps_Ok [OF acquire_run])
  have "q = p"
    using curproc_on [OF t(2)] t(1) assms(2-5) by (simp add: same_run_def apic_inj_def)
  then show ?thesis
    using t(1) keeps_Ok [OF curproc_run t(2)] sched_Switch [OF t(3)]
    by (auto simp: left_cpu_def running_defs)
next
  fix ch lk assume "sleep ch lk s = Switch u"
  then show ?thesis using sleep_leaves assms by blast
next
  assume "wait s = Switch u"
  then obtain t ch lk where t: "same_run s t" "sleep ch lk t = Switch u"
    by (auto simp: wait_def wait_scan_def Let_def bind_eq_Switch dest!: run_Ok intro: same_run_trans
        split: option.splits if_splits)
  then have "left_cpu p t u"
    using sleep_leaves [OF t(2), of c p] assms(2-5) by (simp add: same_run_def apic_inj_def)
  then show ?thesis using t(1) by (auto simp: left_cpu_def running_defs)
next
  fix q t assume q: "curproc s = Ok q t" and e: "exit_sched q t = Switch u"
  have "q = p" using curproc_on [OF q assms(3-5)] assms(2) by simp
  obtain v where v: "same_run t v"
    "sched (upd_proc q (\<lambda>x. x\<lparr>state := ZOMBIE\<rparr>) (reparent q (wakeup1 (map_option ChProc (parent (procs v q))) v)))
      = Switch u"
    using e by (auto simp: exit_sched_def Let_def bind_eq_Switch dest!: run_Ok)
  have "same_running v (reparent q (wakeup1 (map_option ChProc (parent (procs v q))) v))"
    using wakeup1_running reparent_running rset.trans by blast
  then show ?thesis
    using keeps_Ok [OF curproc_run q] v(1) sched_Switch [OF v(2)] \<open>q = p\<close>
    by (auto simp: left_cpu_def running_defs)
qed

text \<open>The scheduler picks a process that is not running, or none.\<close>

lemma scheduler_scan_run:
  assumes "scheduler_scan c i s = Ok r t"
  shows "case r of None \<Rightarrow> same_run s t
    | Some q \<Rightarrow> q \<notin> running s \<and> running t = insert q (running s) \<and> ncpu t = ncpu s
        \<and> (\<forall>d. apicid (cpus t d) = apicid (cpus s d)
            \<and> cpu_proc (cpus t d) = (if d = c then Some q else cpu_proc (cpus s d)))"
  using assms
  by (auto simp: scheduler_scan_def Let_def find_Some_iff running_def same_run_def upd_cpu_def upd_proc_def
      dest!: run_Ok split: option.splits)

lemma goes_on_running: "goes_on r u t \<Longrightarrow> same_running u t"
  by (auto simp: goes_on_def yield_resume_def sleep_resume_def sched_resume_def Let_def running_defs upd_cpu_def
      dest!: run_Ok split: option.splits if_splits)

lemma run_inv_alt: "run_inv s \<longleftrightarrow>
    (\<forall>c < ncpu s. \<forall>d < ncpu s. \<forall>p. cpu_proc (cpus s c) = Some p \<longrightarrow> cpu_proc (cpus s d) = Some p \<longrightarrow> c = d)
  \<and> running s = {p. \<exists>c < ncpu s. cpu_proc (cpus s c) = Some p}"
  unfolding run_inv_def running_def by blast

lemma run_inv_same: "same_running s t \<Longrightarrow> run_inv s \<Longrightarrow> run_inv t"
  by (simp add: run_inv_alt same_running_def same_cpus_def)

lemma run_inv_scan:
  assumes "scheduler_scan c i s = Ok r t" "c < ncpu s" "cpu_proc (cpus s c) = None" "run_inv s"
  shows "run_inv t"
proof (cases r)
  case None
  then have "same_run s t" using scheduler_scan_run [OF assms(1)] by simp
  then show ?thesis using run_inv_same [OF same_run_running] assms(4) by blast
next
  case (Some q)
  then have "q \<notin> running s" "running t = insert q (running s)" "ncpu t = ncpu s"
    "\<forall>d. cpu_proc (cpus t d) = (if d = c then Some q else cpu_proc (cpus s d))"
    using scheduler_scan_run [OF assms(1)] by auto
  then show ?thesis using assms(2-4) unfolding run_inv_alt by (auto, metis option.distinct(1))
qed

lemma vacate:
  assumes "\<forall>c < n. \<forall>d < n. \<forall>p. f c = Some p \<longrightarrow> f d = Some p \<longrightarrow> c = d" "c < n" "f c = Some p"
  shows "{q. \<exists>d < n. f d = Some q} - {p} = {q. \<exists>d < n. d \<noteq> c \<and> f d = Some q}"
proof (intro equalityI subsetI)
  fix q assume "q \<in> {q. \<exists>d < n. d \<noteq> c \<and> f d = Some q}"
  then obtain d where "d < n" "d \<noteq> c" "f d = Some q" by blast
  then show "q \<in> {q. \<exists>d < n. f d = Some q} - {p}" using assms by blast
next
  fix q assume "q \<in> {q. \<exists>d < n. f d = Some q} - {p}"
  then show "q \<in> {q. \<exists>d < n. d \<noteq> c \<and> f d = Some q}" using assms(3) by auto
qed

lemma run_inv_step:
  assumes "cpu_step c s t" "c < ncpu s" "apic_inj s" "lapicid s = apicid (cpus s c)" "run_inv s"
  shows "run_inv t"
  using assms(1)
proof cases
  case (switches p u r v)
  then have l: "left_cpu p s u" using leaves_cpu_left assms(2-4) by blast
  let ?w = "upd_cpu c (\<lambda>x. x\<lparr>cpu_proc := None\<rparr>) (switchkvm u)"
  have w: "ncpu ?w = ncpu s" "running ?w = running s - {p}"
    "\<And>d. cpu_proc (cpus ?w d) = (if d = c then None else cpu_proc (cpus s d))"
    using l by (simp_all add: left_cpu_def same_cpus_def upd_cpu_def switchkvm_def running_def)
  have "run_inv ?w"
    using assms(2,5) switches(1) vacate [of "ncpu s" "\<lambda>d. cpu_proc (cpus s d)" c p]
    unfolding run_inv_alt by (simp add: w) blast
  moreover have "cpu_proc (cpus ?w c) = None" "c < ncpu ?w" using w assms(2) by simp_all
  ultimately have "run_inv v"
    using run_inv_scan [of c "Suc p" ?w r v] switches(3) by (simp add: scheduler_resume_def)
  then show ?thesis using goes_on_running [OF switches(4)] run_inv_same by blast
next
  case (starts r v)
  then obtain u where u: "same_run s u" "scheduler_scan c 0 u = Ok r v"
    by (auto simp: scheduler_round_def sti_def dest!: run_Ok)
  then have "run_inv u" using run_inv_same same_run_running assms(5) by blast
  then have "run_inv v" using run_inv_scan [OF u(2)] u(1) starts(1) assms(2) by (simp add: same_run_def)
  then show ?thesis using goes_on_running [OF starts(3)] run_inv_same by blast
next
  case (readies p)
  then show ?thesis using make_runnable_running [OF readies(2)] run_inv_same assms(5) by simp
qed (use assms(5) run_inv_same wakeup_running kill_running allocproc_running wait_running in blast)+

lemma cpu_step_frame:
  assumes "cpu_step c s t" "c < ncpu s" "apic_inj s" "lapicid s = apicid (cpus s c)"
  shows "ncpu t = ncpu s \<and> (\<forall>d. apicid (cpus t d) = apicid (cpus s d))"
  using assms(1)
proof cases
  case (switches p u r v)
  have "left_cpu p s u" using switches leaves_cpu_left assms(2-4) by blast
  then show ?thesis
    using scheduler_scan_run switches(3) goes_on_running [OF switches(4)]
    by (fastforce simp: scheduler_resume_def left_cpu_def same_cpus_def same_running_def same_run_def
        upd_cpu_def switchkvm_def split: option.splits)
next
  case (starts r v)
  then obtain u where u: "same_run s u" "scheduler_scan c 0 u = Ok r v"
    by (auto simp: scheduler_round_def sti_def dest!: run_Ok)
  then show ?thesis
    using scheduler_scan_run [OF u(2)] goes_on_running [OF starts(3)]
    by (auto simp: same_cpus_def same_running_def same_run_def split: option.splits)
next
  case (readies p)
  then show ?thesis
    using make_runnable_running [OF readies(2)] by (simp add: same_running_def same_cpus_def)
qed (auto dest!: wakeup_running kill_running allocproc_running wait_running
      simp: same_running_def same_cpus_def)

lemma reach_inv:
  assumes "sched_reach s t" "run_inv s" "apic_inj s"
  shows "run_inv t \<and> apic_inj t"
  using assms(1)
proof induction
  case init
  then show ?case using assms by simp
next
  case (step t c u)
  let ?t = "t\<lparr>lapicid := apicid (cpus t c)\<rparr>"
  have t: "run_inv ?t" "apic_inj ?t" "c < ncpu ?t" "lapicid ?t = apicid (cpus ?t c)"
    using step by (simp_all add: run_inv_def apic_inj_def)
  show ?case
    using run_inv_step [OF step.hyps(3) t(3,2,4,1)] cpu_step_frame [OF step.hyps(3) t(3,2,4)] t(2)
    by (simp add: apic_inj_def)
qed

section \<open>Properties\<close>

definition kproc0 :: kproc where
  "kproc0 = \<lparr>lapicid = 7, iflag = (\<lambda>_. True), ncpu = 2,
     cpus = (\<lambda>i. \<lparr>apicid = (if i = 0 then 3 else 7), ncli = 0, intena = False,
                  cpu_proc = (if i = 1 then Some 0 else None)\<rparr>),
     locks = (\<lambda>_. \<lparr>lk_locked = 0, lk_cpu = None\<rparr>),
     kend = 0x80100000, mem = (\<lambda>_. 0), freelist = 0x80200000, use_lock = True,
     kpgdir = 0x80110000, kdata = 0x80108000, ts_addr = (\<lambda>_. 0), gdt = (\<lambda>_ _. SEG 0 0 0 0),
     tss = (\<lambda>_. \<lparr>ts_esp0 = 0, ts_ss0 = 0, ts_iomb = 0\<rparr>), cr3 = (\<lambda>_. 0), gdtr = (\<lambda>_. None), tr = (\<lambda>_. 0),
     procs = (\<lambda>p. \<lparr>sz = 0, pgdir = 0x80300000, kstack = 0x80301000,
                    state = (if p = 0 then RUNNING else if p = 1 then SLEEPING else UNUSED),
                    pid = (if p < 2 then of_nat p + 1 else 0), parent = None, tf = 0, pcontext = 0,
                    pchan = (if p = 1 then Some ChLog else None), killed = False, ofile = (\<lambda>_. None),
                    cwd = None, pname = [], alarmticks = 5, curalarmticks = 0, alarmhandler = 0x40\<rparr>),
     initproc = Some 0, nextpid = 3, ticks = 0, sym_trapret = 0x80101000, sym_forkret = 0x80102000\<rparr>"

lemma kproc0_ok: "mach_ok kproc0" "lk_free l kproc0" "curcpu kproc0 = 1"
  "ncli (cpus kproc0 (curcpu kproc0)) = 0" "cpu_proc (cpus kproc0 (curcpu kproc0)) = Some 0" "run_inv kproc0" "apic_inj kproc0"
  "kmem_ready kproc0" "kmem_inv kproc0 [0x80200000]"
proof -
  show c: "curcpu kproc0 = 1" by (simp add: kproc0_def curcpu_def)
  show "mach_ok kproc0" by (simp add: mach_ok_def c) (simp add: kproc0_def)
  then show "kmem_ready kproc0" by (simp add: kmem_ready_def) (simp add: lk_free_def kproc0_def)
  show "lk_free l kproc0" "ncli (cpus kproc0 (curcpu kproc0)) = 0"
    "cpu_proc (cpus kproc0 (curcpu kproc0)) = Some 0"
    unfolding c by (simp_all add: lk_free_def kproc0_def)
  show "run_inv kproc0" "apic_inj kproc0"
    by (auto simp: run_inv_def apic_inj_def kproc0_def less_2_cases_iff split: if_splits)
  show "kmem_inv kproc0 [0x80200000]"
    by (simp add: kmem_inv_def kproc0_def load32_def kpage_def page_aligned_def V2P_def KERNBASE_def PHYSTOP_def)
qed

text \<open>C12: scheduling safety. However the CPUs interleave their critical sections (wakeup, kill,
  allocproc, wait, starting a process, leaving the CPU by yield, sleep, wait or exit, and the
  scheduler's rounds), no process ever runs on two CPUs at once, and the processes marked
  \<open>RUNNING\<close> are exactly those some CPU runs.\<close>

theorem one_cpu_per_process:
  assumes "sched_reach s t" "run_inv s" "apic_inj s"
  shows "(\<forall>c < ncpu t. \<forall>d < ncpu t. \<forall>p. cpu_proc (cpus t c) = Some p \<longrightarrow> cpu_proc (cpus t d) = Some p \<longrightarrow> c = d)
    \<and> (\<forall>p. state (procs t p) = RUNNING \<longleftrightarrow> (\<exists>c < ncpu t. cpu_proc (cpus t c) = Some p))"
  using reach_inv [OF assms] unfolding run_inv_def by blast

theorem one_cpu_per_process_witness:
  "sched_reach kproc0 (touch (kproc0\<lparr>procs := wake_procs (Some ChLog) (procs kproc0)\<rparr>)) \<and>
   (\<forall>p. state (wake_procs (Some ChLog) (procs kproc0) p) = RUNNING \<longleftrightarrow>
      (\<exists>c < ncpu kproc0. cpu_proc (cpus kproc0 c) = Some p))"
proof -
  let ?t = "touch (kproc0\<lparr>procs := wake_procs (Some ChLog) (procs kproc0)\<rparr>)"
  have l: "kproc0\<lparr>lapicid := apicid (cpus kproc0 1)\<rparr> = kproc0" "1 < ncpu kproc0" by (simp_all add: kproc0_def)
  have "wakeup ChLog kproc0 = Ok () ?t" using kproc0_ok by (intro wakeup_eq)
  then have r: "sched_reach kproc0 ?t"
    using sched_reach.step [OF sched_reach.init l(2)] cpu_step.wakes l(1) by metis
  have "ncpu ?t = ncpu kproc0" by (simp add: touch_def)
  then show ?thesis using r one_cpu_per_process [OF r kproc0_ok(6,7)] by simp
qed



text \<open>C14: \<open>allocproc\<close> with a free slot and a free page. It takes the first unused slot, gives it
  the next pid and a kernel stack laid out so that the first \<open>swtch\<close> to it starts in \<open>forkret\<close>
  and then returns to \<open>trapret\<close> just below the trap frame; every other process is untouched.
  The alarm fields of the slot are not initialised: they are still those of its last user.\<close>

theorem allocproc_layout:
  assumes "mach_ok s" "lk_free LkPtable s" "kmem_ready s" "kmem_inv s (stk # xs)" "use_lock s"
    and "find (\<lambda>p. state (procs s p) = UNUSED) [0..<NPROC] = Some p"
  shows "\<exists>t. allocproc s = Ok (Some p) t \<and> nextpid t = nextpid s + 1
    \<and> (\<forall>q. q \<noteq> p \<longrightarrow> procs t q = procs s q)
    \<and> state (procs t p) = EMBRYO \<and> pid (procs t p) = nextpid s \<and> kstack (procs t p) = stk
    \<and> tf (procs t p) = stk + 4020 \<and> pcontext (procs t p) = stk + 3996
    \<and> load32 (mem t) (pcontext (procs t p) + 16) = sym_forkret s
    \<and> load32 (mem t) (pcontext (procs t p) + 20) = sym_trapret s
    \<and> alarmticks (procs t p) = alarmticks (procs s p)
    \<and> alarmhandler (procs t p) = alarmhandler (procs s p)"
proof -
  have stk: "stk \<noteq> 0" "page_aligned stk" "freelist s = stk"
    using assms(4) kpage_nonzero [of s stk] by (auto simp: kmem_inv_def kpage_def)
  have f: "load32 (mem_fill m (3996 + stk) 0 20) (4016 + stk) = load32 m (4016 + stk)" for m
    by (simp add: load32_def mem_fill_def in_range_def)
  have e: "load32 (store32 m (4012 + stk) v) (4016 + stk) = load32 m (4016 + stk)" for m v
  proof -
    have "load32 (store32 m (stk + 4012) v) (stk + 4016) = load32 m (stk + 4016)"
      using load_entry_store [OF stk(2,2), of 1003 1004 m v] by simp
    then show ?thesis by (simp only: add.commute)
  qed
  have "kmem_ready (touch s)" using assms(3) by (simp add: kmem_ready_def)
  then show ?thesis
    using assms(1,2,5,6) stk f e
    by (simp add: allocproc_def kern Let_def kmem_ready_def kmem_norm_def memset_eq sizeof_trapframe_def
        sizeof_context_def KSTACKSIZE_def upd_proc_def)
qed

theorem allocproc_layout_witness:
  "\<exists>t. allocproc kproc0 = Ok (Some 2) t \<and> nextpid t = nextpid kproc0 + 1
    \<and> procs t 1 = procs kproc0 1
    \<and> state (procs t 2) = EMBRYO \<and> pid (procs t 2) = nextpid kproc0 \<and> kstack (procs t 2) = 0x80200000
    \<and> tf (procs t 2) = 0x80200000 + 4020 \<and> pcontext (procs t 2) = 0x80200000 + 3996
    \<and> load32 (mem t) (pcontext (procs t 2) + 16) = sym_forkret kproc0
    \<and> load32 (mem t) (pcontext (procs t 2) + 20) = sym_trapret kproc0
    \<and> alarmticks (procs t 2) = alarmticks (procs kproc0 2)
    \<and> alarmhandler (procs t 2) = alarmhandler (procs kproc0 2)"
proof -
  have "use_lock kproc0" "find (\<lambda>p. state (procs kproc0 p) = UNUSED) [0..<NPROC] = Some 2"
    by (simp_all add: NPROC_def kproc0_def upt_rec)
  from allocproc_layout [OF kproc0_ok(1,2,8,9) this] show ?thesis by auto
qed

end
