(* ===== verification/Sleeplock.thy ===== *)
theory Sleeplock
  imports Proc
begin

text \<open>
  Sleep locks, \<open>src/my-xv6-public/sleeplock.c\<close>: long-term locks held by processes, each built
  from a spinlock and \<open>sleep\<close>/\<open>wakeup\<close>. A sleep lock has the identity of its inner spinlock.
\<close>

section \<open>State and operations\<close>

record sleeplock =
  sl_locked :: u32
  sl_pid :: u32

record ksleep = kproc +
  sleeplocks :: "lockid \<Rightarrow> sleeplock"

definition upd_sl :: "lockid \<Rightarrow> sleeplock \<Rightarrow> 'a ksleep_scheme \<Rightarrow> 'a ksleep_scheme" where
  "upd_sl lk x s = s\<lparr>sleeplocks := (sleeplocks s)(lk := x)\<rparr>"

definition initsleeplock :: "lockid \<Rightarrow> 'a ksleep_scheme \<Rightarrow> 'a ksleep_scheme" where
  "initsleeplock lk s = upd_sl lk \<lparr>sl_locked = 0, sl_pid = 0\<rparr> (initlock lk s)"

text \<open>
  The body of \<open>acquiresleep\<close> from the test of the \<open>while\<close> loop on, entered with the inner spinlock
  held: \<open>sleep\<close> ends the step, and the loop goes on in \<open>acquiresleep_resume\<close>.
\<close>

definition acquiresleep_loop :: "lockid \<Rightarrow> 'a ksleep_scheme \<Rightarrow> (unit, 'a ksleep_scheme) res" where
  "acquiresleep_loop lk s =
    (if sl_locked (sleeplocks s lk) \<noteq> 0 then bind (sleep (ChSleeplock lk) lk s) (\<lambda>_ s. Hang)
     else bind (curproc s) (\<lambda>p s.
       release lk (upd_sl lk \<lparr>sl_locked = 1, sl_pid = pid (procs s p)\<rparr> s)))"

definition acquiresleep :: "lockid \<Rightarrow> 'a ksleep_scheme \<Rightarrow> (unit, 'a ksleep_scheme) res" where
  "acquiresleep lk s = bind (acquire lk s) (\<lambda>_ s. acquiresleep_loop lk s)"

definition acquiresleep_resume :: "nat \<Rightarrow> lockid \<Rightarrow> bool \<Rightarrow> 'a ksleep_scheme
    \<Rightarrow> (unit, 'a ksleep_scheme) res" where
  "acquiresleep_resume p lk ie s = bind (sleep_resume p lk ie s) (\<lambda>_ s. acquiresleep_loop lk s)"

definition releasesleep :: "lockid \<Rightarrow> 'a ksleep_scheme \<Rightarrow> (unit, 'a ksleep_scheme) res" where
  "releasesleep lk s = bind (acquire lk s) (\<lambda>_ s.
     let s = upd_sl lk \<lparr>sl_locked = 0, sl_pid = 0\<rparr> s in
     bind (wakeup (ChSleeplock lk) s) (\<lambda>_ s. release lk s))"

definition holdingsleep :: "lockid \<Rightarrow> 'a ksleep_scheme \<Rightarrow> (bool, 'a ksleep_scheme) res" where
  "holdingsleep lk s = bind (acquire lk s) (\<lambda>_ s.
     bind (if sl_locked (sleeplocks s lk) \<noteq> 0
           then bind (curproc s) (\<lambda>p s. Ok (sl_pid (sleeplocks s lk) = pid (procs s p)) s)
           else Ok False s) (\<lambda>r s.
     bind (release lk s) (\<lambda>_ s. Ok r s)))"

section \<open>Lock states\<close>

lemma ksleep_lock_st [simp]:
  "sleeplocks (lock_st l s) = sleeplocks s"
  by (simp_all add: lock_st_def push_st_def)

lemma ksleep_touch [simp]:
  "sleeplocks (touch s) = sleeplocks s"
  by (simp_all add: touch_def)

lemma lock_st_ksleep [simp]:
  "(lock_st l s)\<lparr>sleeplocks := x1\<rparr> = lock_st l (s\<lparr>sleeplocks := x1\<rparr>)"
  by (simp_all add: lock_st_def push_st_def curcpu_def)

lemma touch_ksleep [simp]:
  "(touch s)\<lparr>sleeplocks := x1\<rparr> = touch (s\<lparr>sleeplocks := x1\<rparr>)"
  by (simp_all add: touch_def curcpu_def)

lemma mach_ok_ksleep [simp]:
  "mach_ok (s\<lparr>sleeplocks := x1\<rparr>) = mach_ok s"
  "lk_free l (s\<lparr>sleeplocks := x1\<rparr>) = lk_free l s"
  "curcpu (s\<lparr>sleeplocks := x1\<rparr>) = curcpu s"
  by (simp_all add: mach_ok_def curcpu_def lk_free_def)


lemma upd_sl_st [simp]:
  "upd_sl lk x (lock_st l s) = lock_st l (upd_sl lk x s)" "upd_sl lk x (touch s) = touch (upd_sl lk x s)"
  "mach_ok (upd_sl lk x s) = mach_ok s" "lk_free l (upd_sl lk x s) = lk_free l s"
  "cpus (upd_sl lk x s) = cpus s" "curcpu (upd_sl lk x s) = curcpu s" "procs (upd_sl lk x s) = procs s"
  "sleeplocks (upd_sl lk x s) = (sleeplocks s)(lk := x)"
  by (simp_all add: upd_sl_def)

section \<open>Characteristic equations\<close>

text \<open>Process \<open>p\<close> runs in the kernel on this CPU and no spinlock is taken.\<close>

definition kern_ok :: "nat \<Rightarrow> 'a kproc_scheme \<Rightarrow> bool" where
  "kern_ok p s \<longleftrightarrow> mach_ok s \<and> (\<forall>l. lk_free l s) \<and> cpu_proc (cpus s (curcpu s)) = Some p
     \<and> ncli (cpus s (curcpu s)) = 0"

lemma kern_okD:
  assumes "kern_ok p s"
  shows "mach_ok s" "lk_free l s" "cpu_proc (cpus s (curcpu s)) = Some p" "ncli (cpus s (curcpu s)) = 0"
  using assms by (auto simp: kern_ok_def)

lemma ncli_touch [simp]: "ncli (cpus (touch s) c) = ncli (cpus s c)"
  by (simp add: touch_def)

lemma kern_ok_touch [simp]: "kern_ok p s \<Longrightarrow> kern_ok p (touch s)"
  by (simp add: kern_ok_def)

lemma kern_ok_upd [simp]:
  "kern_ok p (s\<lparr>procs := x\<rparr>) = kern_ok p s" "kern_ok p (upd_proc q f s) = kern_ok p s"
  "kern_ok p (s\<lparr>mem := m\<rparr>) = kern_ok p s" "kern_ok p (s\<lparr>freelist := fl\<rparr>) = kern_ok p s"
  by (simp_all add: kern_ok_def)

lemma kern_ok_sl [simp]: "kern_ok p (upd_sl lk x s) = kern_ok p s"
  by (simp add: kern_ok_def)

lemma acquiresleep_free [kern]:
  assumes "kern_ok p s" "sl_locked (sleeplocks s lk) = 0"
  shows "acquiresleep lk s = Ok () (touch (upd_sl lk \<lparr>sl_locked = 1, sl_pid = pid (procs s p)\<rparr> s))"
  using assms kern_okD [OF assms(1)] by (simp add: acquiresleep_def acquiresleep_loop_def kern)

text \<open>A taken lock puts the caller to sleep on it.\<close>

lemma acquiresleep_busy:
  assumes "kern_ok p s" "sl_locked (sleeplocks s lk) \<noteq> 0" "lk \<noteq> LkPtable"
  shows "acquiresleep lk s = Switch (lock_st LkPtable
    (upd_proc p (\<lambda>x. x\<lparr>pchan := Some (ChSleeplock lk), state := SLEEPING\<rparr>) s))"
  using assms kern_okD [OF assms(1)] by (simp add: acquiresleep_def acquiresleep_loop_def kern)

lemma releasesleep_eq [kern]:
  assumes "kern_ok p s" "lk \<noteq> LkPtable"
  shows "releasesleep lk s = Ok () (touch ((upd_sl lk \<lparr>sl_locked = 0, sl_pid = 0\<rparr> s)
    \<lparr>procs := wake_procs (Some (ChSleeplock lk)) (procs s)\<rparr>))"
  using assms kern_okD [OF assms(1)] by (simp add: releasesleep_def kern Let_def upd_sl_def)

lemma holdingsleep_eq [kern]:
  assumes "kern_ok p s"
  shows "holdingsleep lk s = Ok (sl_locked (sleeplocks s lk) \<noteq> 0
    \<and> sl_pid (sleeplocks s lk) = pid (procs s p)) (touch s)"
  using assms kern_okD [OF assms] by (simp add: holdingsleep_def kern)

lemma wake_procs_pid [simp]: "pid (wake_procs ch ps p) = pid (ps p)"
  by (simp add: wake_procs_def)

section \<open>Waiting for the lock\<close>

text \<open>C39: a sleep lock excludes and does not forget. A process that asks for a free lock returns holding it. One that
  asks for a taken lock sleeps and leaves the lock as it is; whatever happens until the holder releases
  the lock, as long as the waiter is still asleep the release makes it runnable and the lock free, and
  wakes no process that waits for something else.\<close>
theorem sleeplock_handoff:
  fixes s :: "'a ksleep_scheme"
  assumes "kern_ok q s" "lk \<noteq> LkPtable" "q < NPROC"
  shows "if sl_locked (sleeplocks s lk) = 0
    then returns (acquiresleep lk s) (\<lambda>_ t. returns (holdingsleep lk t) (\<lambda>held _. held))
    else \<exists>u. acquiresleep lk s = Switch u \<and> state (procs u q) = SLEEPING \<and> sleeplocks u = sleeplocks s
      \<and> (\<forall>p (v :: 'a ksleep_scheme). kern_ok p v \<and> procs v q = procs u q \<longrightarrow> returns (releasesleep lk v) (\<lambda>_ t.
          state (procs t q) = RUNNABLE \<and> sl_locked (sleeplocks t lk) = 0
          \<and> (\<forall>r. state (procs v r) = SLEEPING \<and> pchan (procs v r) = Some (ChSleeplock lk) \<or> procs t r = procs v r)))"
proof (cases "sl_locked (sleeplocks s lk) = 0")
  case True
  define t where "t = touch (upd_sl lk \<lparr>sl_locked = 1, sl_pid = pid (procs s q)\<rparr> s)"
  have "kern_ok q t" using assms(1) by (simp add: t_def)
  from holdingsleep_eq [OF this, of lk] show ?thesis
    using True acquiresleep_free [OF assms(1) True] by (simp add: t_def [symmetric]) (simp add: t_def)
next
  case False
  define u where "u = lock_st LkPtable (upd_proc q (\<lambda>x. x\<lparr>pchan := Some (ChSleeplock lk), state := SLEEPING\<rparr>) s)"
  have a: "acquiresleep lk s = Switch u" using acquiresleep_busy [OF assms(1) False assms(2)] by (simp add: u_def)
  have q: "state (procs u q) = SLEEPING" "pchan (procs u q) = Some (ChSleeplock lk)" "sleeplocks u = sleeplocks s"
    by (simp_all add: u_def upd_proc_def)
  have "returns (releasesleep lk v) (\<lambda>_ t. state (procs t q) = RUNNABLE \<and> sl_locked (sleeplocks t lk) = 0
      \<and> (\<forall>r. state (procs v r) = SLEEPING \<and> pchan (procs v r) = Some (ChSleeplock lk) \<or> procs t r = procs v r))"
    if "kern_ok p v" "procs v q = procs u q" for p and v :: "'a ksleep_scheme"
    using releasesleep_eq [OF that(1) assms(2)] that(2) q assms(3) by (auto simp: wake_procs_def)
  then show ?thesis using False a q by auto
qed

definition ksleep0 :: ksleep where
  "ksleep0 = kproc.extend kproc0 (ksleep_ext (\<lambda>_. \<lparr>sl_locked = 1, sl_pid = 7\<rparr>) ())"

theorem sleeplock_handoff_witness:
  "\<exists>u. acquiresleep LkLog ksleep0 = Switch u \<and> state (procs u 0) = SLEEPING"
proof -
  have "mach_ok ksleep0" "curcpu ksleep0 = 1"
    using kproc0_ok(1,3) by (simp_all add: ksleep0_def kproc.defs mach_ok_def curcpu_def kproc0_def)
  then have "kern_ok 0 ksleep0"
    by (simp add: kern_ok_def lk_free_def) (simp add: ksleep0_def kproc.defs kproc0_def)
  moreover have "sl_locked (sleeplocks ksleep0 LkLog) \<noteq> 0" by (simp add: ksleep0_def kproc.defs)
  ultimately show ?thesis
    using sleeplock_handoff [of 0 ksleep0 LkLog] by (auto simp: NPROC_def)
qed

end
