(* ===== verification/Blocks.thy ===== *)
theory Blocks
  imports Prelude
begin

text \<open>
  The interface of a cache of disk blocks, as the log and the file system use it: buffers are
  locked by reading a block and unlocked by releasing them; a buffer written through reaches the
  disk, one only marked dirty stays in the cache until it is. The clients' lemmas about copying
  blocks are proved here once; the buffer cache of xv6 interprets the interface.
\<close>

type_synonym block = "nat \<Rightarrow> u8"

definition BSIZE :: nat where "BSIZE = 512"

text \<open>Little-endian words and half words in a block, by byte offset.\<close>

definition get32 :: "block \<Rightarrow> nat \<Rightarrow> u32" where
  "get32 d i = ucast (d i) OR push_bit 8 (ucast (d (i + 1)))
     OR push_bit 16 (ucast (d (i + 2))) OR push_bit 24 (ucast (d (i + 3)))"

definition put32 :: "nat \<Rightarrow> u32 \<Rightarrow> block \<Rightarrow> block" where
  "put32 i v d = d(i := ucast v, i + 1 := ucast (drop_bit 8 v),
     i + 2 := ucast (drop_bit 16 v), i + 3 := ucast (drop_bit 24 v))"

definition get16 :: "block \<Rightarrow> nat \<Rightarrow> u16" where
  "get16 d i = ucast (d i) OR push_bit 8 (ucast (d (i + 1)))"

definition put16 :: "nat \<Rightarrow> u16 \<Rightarrow> block \<Rightarrow> block" where
  "put16 i v d = d(i := ucast v, i + 1 := ucast (drop_bit 8 v))"

lemma get32_put32 [simp]: "get32 (put32 i v d) i = v"
proof (rule bit_word_eqI)
  fix n assume n: "n < LENGTH(32)"
  consider "n < 8" | "8 \<le> n" "n < 16" | "16 \<le> n" "n < 24" | "24 \<le> n" "n < 32"
    using n by fastforce
  then show "bit (get32 (put32 i v d) i) n = bit v n"
    by cases (auto simp: get32_def put32_def bit_simps)
qed

lemma get16_put16 [simp]: "get16 (put16 i v d) i = v"
proof (rule bit_word_eqI)
  fix n assume n: "n < LENGTH(16)"
  consider "n < 8" | "8 \<le> n" "n < 16"
    using n by fastforce
  then show "bit (get16 (put16 i v d) i) n = bit v n"
    by cases (auto simp: get16_def put16_def bit_simps)
qed

lemma get32_put32_other: "i + 4 \<le> j \<or> j + 4 \<le> i \<Longrightarrow> get32 (put32 i v d) j = get32 d j"
  by (auto simp: get32_def put32_def)

lemma get32_put16_other: "i + 2 \<le> j \<or> j + 4 \<le> i \<Longrightarrow> get32 (put16 i v d) j = get32 d j"
  by (auto simp: get32_def put16_def)

lemma get16_put32_other: "i + 4 \<le> j \<or> j + 2 \<le> i \<Longrightarrow> get16 (put32 i v d) j = get16 d j"
  by (auto simp: get16_def put32_def)

lemma get16_put16_other: "i + 2 \<le> j \<or> j + 2 \<le> i \<Longrightarrow> get16 (put16 i v d) j = get16 d j"
  by (auto simp: get16_def put16_def)

text \<open>The disk after a sequence of block writes.\<close>

definition apply_writes :: "(u32 \<times> block) list \<Rightarrow> (u32 \<Rightarrow> block) \<Rightarrow> u32 \<Rightarrow> block" where
  "apply_writes ws d = fold (\<lambda>(n, x) d. d(n := x)) ws d"

lemma apply_writes_simps [simp]:
  "apply_writes [] d = d" "apply_writes ((n, x) # ws) d = apply_writes ws (d(n := x))"
  "apply_writes (ws @ vs) d = apply_writes vs (apply_writes ws d)"
  by (simp_all add: apply_writes_def)

lemma apply_writes_other: "n \<notin> fst ` set ws \<Longrightarrow> apply_writes ws d n = d n"
  by (induction ws arbitrary: d) auto

text \<open>
  \<open>inv H s\<close>: the state is sound and the client holds exactly the buffers \<open>H\<close>. \<open>cur\<close> is the
  contents of a block as a reader sees it, \<open>dsk\<close> as the disk has it; \<open>pend\<close> are the blocks whose
  buffer is dirty, \<open>hist\<close> the writes the disk has carried out.
\<close>

locale block_cache =
  fixes inv :: "nat set \<Rightarrow> 's \<Rightarrow> bool" and frame :: "'s \<Rightarrow> 's \<Rightarrow> bool"
    and data :: "'s \<Rightarrow> nat \<Rightarrow> block" and bno :: "'s \<Rightarrow> nat \<Rightarrow> u32"
    and cur dsk :: "'s \<Rightarrow> u32 \<Rightarrow> block" and pend :: "'s \<Rightarrow> u32 set" and hist :: "'s \<Rightarrow> (u32 \<times> block) list"
    and siz :: "'s \<Rightarrow> u32" and cap :: nat
    and rd :: "u32 \<Rightarrow> 's \<Rightarrow> (nat, 's) res" and wr rel :: "nat \<Rightarrow> 's \<Rightarrow> (unit, 's) res"
    and put :: "nat \<Rightarrow> block \<Rightarrow> 's \<Rightarrow> 's"
  assumes frame_trans: "frame s t \<Longrightarrow> frame t u \<Longrightarrow> frame s u"
    and frame_siz: "frame s t \<Longrightarrow> siz t = siz s"
    and inv_finite: "inv H s \<Longrightarrow> finite H"
    and clean: "inv H s \<Longrightarrow> \<forall>b \<in> H. bno s b \<noteq> n \<Longrightarrow> n \<in> pend s \<or> cur s n = dsk s n"
    and rd: "inv H s \<Longrightarrow> n < siz s \<Longrightarrow> \<forall>b \<in> H. bno s b \<noteq> n \<Longrightarrow> card H + card (pend s) < cap \<Longrightarrow>
      returns (rd n s) (\<lambda>b t. b \<notin> H \<and> inv (insert b H) t \<and> bno t b = n \<and> data t b = cur s n
        \<and> cur t = cur s \<and> dsk t = dsk s \<and> pend t = pend s \<and> hist t = hist s \<and> frame s t
        \<and> (\<forall>c \<in> H. data t c = data s c \<and> bno t c = bno s c))"
    and put: "inv H s \<Longrightarrow> b \<in> H \<Longrightarrow> inv H (put b x s) \<and> cur (put b x s) = (cur s)(bno s b := x)
        \<and> dsk (put b x s) = dsk s \<and> hist (put b x s) = hist s \<and> frame s (put b x s)
        \<and> pend (put b x s) = pend s \<and> data (put b x s) = (data s)(b := x) \<and> bno (put b x s) = bno s"
    and wr: "inv H s \<Longrightarrow> b \<in> H \<Longrightarrow> bno s b < siz s \<Longrightarrow>
      returns (wr b s) (\<lambda>_ t. inv H t \<and> cur t = cur s \<and> dsk t = (dsk s)(bno s b := data s b)
        \<and> hist t = hist s @ [(bno s b, data s b)] \<and> pend t = pend s - {bno s b} \<and> frame s t
        \<and> data t = data s \<and> bno t = bno s)"
    and rel: "inv H s \<Longrightarrow> b \<in> H \<Longrightarrow> bno s b \<in> pend s \<or> data s b = dsk s (bno s b) \<Longrightarrow>
      returns (rel b s) (\<lambda>_ t. inv (H - {b}) t \<and> cur t = cur s \<and> dsk t = dsk s \<and> hist t = hist s
        \<and> pend t = pend s \<and> frame s t \<and> data t = data s \<and> bno t = bno s)"
begin

text \<open>What the state looks like after \<open>x\<close> has been written through to block \<open>d\<close>.\<close>

definition written :: "nat set \<Rightarrow> u32 \<Rightarrow> block \<Rightarrow> 's \<Rightarrow> 's \<Rightarrow> bool" where
  "written H d x s t \<longleftrightarrow> inv H t \<and> cur t = (cur s)(d := x) \<and> dsk t = (dsk s)(d := x)
     \<and> hist t = hist s @ [(d, x)] \<and> pend t = pend s - {d} \<and> frame s t
     \<and> (\<forall>b \<in> H. data t b = data s b \<and> bno t b = bno s b)"

lemma copy_end:
  assumes "inv (insert a (insert b H)) s" "a \<notin> H" "b \<notin> H" "a \<noteq> b" "bno s a = d" "bno s b = c" "c \<noteq> d"
    and "data s b = cur s c" "c \<in> pend s \<or> cur s c = dsk s c" "d < siz s"
  shows "returns (bind (wr a (put a (data s b) s)) (\<lambda>_ s. bind (rel b s) (\<lambda>_ s. rel a s)))
    (\<lambda>_ t. written H d (cur s c) s t)"
proof -
  let ?K = "insert a (insert b H)" and ?s1 = "put a (data s b) s"
  note p = put [OF assms(1), of a "data s b"]
  have "returns (wr a ?s1) (\<lambda>_ t. inv ?K t \<and> cur t = cur ?s1 \<and> dsk t = (dsk ?s1)(bno ?s1 a := data ?s1 a)
        \<and> hist t = hist ?s1 @ [(bno ?s1 a, data ?s1 a)] \<and> pend t = pend ?s1 - {bno ?s1 a} \<and> frame ?s1 t
        \<and> data t = data ?s1 \<and> bno t = bno ?s1)"
    by (rule wr) (use p assms frame_siz [of s ?s1] in auto)
  then show ?thesis
    unfolding returns_bind
  proof (rule returns_mono)
    fix u t assume t: "inv ?K t \<and> cur t = cur ?s1 \<and> dsk t = (dsk ?s1)(bno ?s1 a := data ?s1 a)
        \<and> hist t = hist ?s1 @ [(bno ?s1 a, data ?s1 a)] \<and> pend t = pend ?s1 - {bno ?s1 a} \<and> frame ?s1 t
        \<and> data t = data ?s1 \<and> bno t = bno ?s1"
    have "returns (rel b t) (\<lambda>_ v. inv (?K - {b}) v \<and> cur v = cur t \<and> dsk v = dsk t \<and> hist v = hist t
        \<and> pend v = pend t \<and> frame t v \<and> data v = data t \<and> bno v = bno t)"
      by (rule rel) (use t p assms in auto)
    then show "returns (rel b t) (\<lambda>_ v. returns (rel a v) (\<lambda>_ w. written H d (cur s c) s w))"
    proof (rule returns_mono)
      fix u' v assume v: "inv (?K - {b}) v \<and> cur v = cur t \<and> dsk v = dsk t \<and> hist v = hist t
        \<and> pend v = pend t \<and> frame t v \<and> data v = data t \<and> bno v = bno t"
      have k: "?K - {b} - {a} = H" using assms by auto
      have "returns (rel a v) (\<lambda>_ w. inv (?K - {b} - {a}) w \<and> cur w = cur v \<and> dsk w = dsk v \<and> hist w = hist v
        \<and> pend w = pend v \<and> frame v w \<and> data w = data v \<and> bno w = bno v)"
        by (rule rel) (use t p v assms in auto)
      then show "returns (rel a v) (\<lambda>_ w. written H d (cur s c) s w)"
        by (rule returns_mono) (use t p v assms k in \<open>auto simp: written_def intro: frame_trans\<close>)
    qed
  qed
qed

definition got2 :: "nat set \<Rightarrow> u32 \<Rightarrow> u32 \<Rightarrow> 's \<Rightarrow> nat \<Rightarrow> nat \<Rightarrow> 's \<Rightarrow> bool" where
  "got2 H m n s a b t \<longleftrightarrow> a \<notin> H \<and> b \<notin> H \<and> a \<noteq> b \<and> inv (insert b (insert a H)) t \<and> bno t a = m \<and> bno t b = n
       \<and> data t a = cur s m \<and> data t b = cur s n \<and> cur t = cur s \<and> dsk t = dsk s \<and> pend t = pend s
       \<and> hist t = hist s \<and> frame s t \<and> (\<forall>c \<in> H. data t c = data s c \<and> bno t c = bno s c)"

lemma rd2:
  assumes "inv H s" "m < siz s" "n < siz s" "m \<noteq> n" "\<forall>b \<in> H. bno s b \<noteq> m \<and> bno s b \<noteq> n"
    "card H + card (pend s) + 1 < cap"
  shows "returns (rd m s) (\<lambda>a t. returns (rd n t) (\<lambda>b u. got2 H m n s a b u))"
proof -
  have "returns (rd m s) (\<lambda>b t. b \<notin> H \<and> inv (insert b H) t \<and> bno t b = m \<and> data t b = cur s m
        \<and> cur t = cur s \<and> dsk t = dsk s \<and> pend t = pend s \<and> hist t = hist s \<and> frame s t
        \<and> (\<forall>c \<in> H. data t c = data s c \<and> bno t c = bno s c))"
    by (rule rd) (use assms in auto)
  then show ?thesis
  proof (rule returns_mono)
    fix a t assume t: "a \<notin> H \<and> inv (insert a H) t \<and> bno t a = m \<and> data t a = cur s m
        \<and> cur t = cur s \<and> dsk t = dsk s \<and> pend t = pend s \<and> hist t = hist s \<and> frame s t
        \<and> (\<forall>c \<in> H. data t c = data s c \<and> bno t c = bno s c)"
    have "card (insert a H) \<le> Suc (card H)" by (rule card_insert_le_m1) simp_all
    then have "returns (rd n t) (\<lambda>b u. b \<notin> insert a H \<and> inv (insert b (insert a H)) u \<and> bno u b = n \<and> data u b = cur t n
        \<and> cur u = cur t \<and> dsk u = dsk t \<and> pend u = pend t \<and> hist u = hist t \<and> frame t u
        \<and> (\<forall>c \<in> insert a H. data u c = data t c \<and> bno u c = bno t c))"
      by (intro rd) (use t assms frame_siz [of s t] in auto)
    then show "returns (rd n t) (\<lambda>b u. got2 H m n s a b u)"
      by (rule returns_mono) (use t in \<open>auto simp: got2_def intro: frame_trans\<close>)
  qed
qed

lemma written_trans:
  assumes "written H d x t u" "cur t = cur s" "dsk t = dsk s" "pend t = pend s" "hist t = hist s" "frame s t"
    "\<forall>b \<in> H. data t b = data s b \<and> bno t b = bno s b"
  shows "written H d x s u"
  using assms by (auto simp: written_def intro: frame_trans)

lemma copy_rest:
  assumes "got2 H d c s a b t \<or> got2 H c d s b a t" "c \<noteq> d" "c \<in> pend s \<or> cur s c = dsk s c" "d < siz s"
  shows "returns (bind (wr a (put a (data t b) t)) (\<lambda>_ s. bind (rel b s) (\<lambda>_ s. rel a s))) (\<lambda>_ u. written H d (cur s c) s u)"
proof -
  have g: "a \<notin> H" "b \<notin> H" "a \<noteq> b" "inv (insert a (insert b H)) t" "bno t a = d" "bno t b = c" "data t b = cur t c"
    "cur t = cur s" "dsk t = dsk s" "pend t = pend s" "hist t = hist s" "frame s t"
    "\<forall>c \<in> H. data t c = data s c \<and> bno t c = bno s c"
    using assms(1) by (auto simp: got2_def insert_commute)
  have "returns (bind (wr a (put a (data t b) t)) (\<lambda>_ s. bind (rel b s) (\<lambda>_ s. rel a s))) (\<lambda>_ u. written H d (cur t c) t u)"
    by (rule copy_end) (use g assms frame_siz in auto)
  then show ?thesis unfolding g(8) by (rule returns_mono) (rule written_trans [OF _ g(8-13)])
qed

text \<open>Copying a block when the destination is read first, and when the source is.\<close>

lemma copy_dst_first:
  assumes "inv H s" "d < siz s" "c < siz s" "d \<noteq> c" "\<forall>b \<in> H. bno s b \<noteq> d \<and> bno s b \<noteq> c"
    "card H + card (pend s) + 1 < cap"
  shows "returns (bind (rd d s) (\<lambda>a s. bind (rd c s) (\<lambda>b s.
    bind (wr a (put a (data s b) s)) (\<lambda>_ s. bind (rel b s) (\<lambda>_ s. rel a s))))) (\<lambda>_ t. written H d (cur s c) s t)"
proof -
  have cl: "c \<in> pend s \<or> cur s c = dsk s c" using clean [OF assms(1)] assms(5) by blast
  show ?thesis
    unfolding returns_bind [of "rd d s"] returns_bind [of "rd c _"]
    by (rule returns_mono [OF rd2 [OF assms]], erule returns_mono, rule copy_rest)
      (use assms cl in auto)
qed

lemma copy_src_first:
  assumes "inv H s" "c < siz s" "d < siz s" "c \<noteq> d" "\<forall>b \<in> H. bno s b \<noteq> c \<and> bno s b \<noteq> d"
    "card H + card (pend s) + 1 < cap"
  shows "returns (bind (rd c s) (\<lambda>b s. bind (rd d s) (\<lambda>a s.
    bind (wr a (put a (data s b) s)) (\<lambda>_ s. bind (rel b s) (\<lambda>_ s. rel a s))))) (\<lambda>_ t. written H d (cur s c) s t)"
proof -
  have cl: "c \<in> pend s \<or> cur s c = dsk s c" using clean [OF assms(1)] assms(5) by blast
  show ?thesis
    unfolding returns_bind [of "rd c s"] returns_bind [of "rd d _"]
    by (rule returns_mono [OF rd2 [OF assms]], erule returns_mono, rule copy_rest)
      (use assms cl in auto)
qed

text \<open>Reading a block, changing it, writing it through and releasing it.\<close>

lemma modify_end:
  assumes "inv (insert b H) s" "b \<notin> H" "bno s b = n" "n < siz s"
  shows "returns (bind (wr b (put b x s)) (\<lambda>_ s. rel b s)) (\<lambda>_ t. written H n x s t)"
proof -
  let ?K = "insert b H" and ?s = "put b x s"
  note p = put [OF assms(1), of b x]
  have "returns (wr b ?s) (\<lambda>_ t. inv ?K t \<and> cur t = cur ?s \<and> dsk t = (dsk ?s)(bno ?s b := data ?s b)
        \<and> hist t = hist ?s @ [(bno ?s b, data ?s b)] \<and> pend t = pend ?s - {bno ?s b} \<and> frame ?s t
        \<and> data t = data ?s \<and> bno t = bno ?s)"
    by (rule wr) (use p assms frame_siz [of s ?s] in auto)
  then show ?thesis
    unfolding returns_bind
  proof (rule returns_mono)
    fix u t assume t: "inv ?K t \<and> cur t = cur ?s \<and> dsk t = (dsk ?s)(bno ?s b := data ?s b)
        \<and> hist t = hist ?s @ [(bno ?s b, data ?s b)] \<and> pend t = pend ?s - {bno ?s b} \<and> frame ?s t
        \<and> data t = data ?s \<and> bno t = bno ?s"
    have k: "?K - {b} = H" using assms by auto
    have "returns (rel b t) (\<lambda>_ v. inv (?K - {b}) v \<and> cur v = cur t \<and> dsk v = dsk t \<and> hist v = hist t
        \<and> pend v = pend t \<and> frame t v \<and> data v = data t \<and> bno v = bno t)"
      by (rule rel) (use t p assms in auto)
    then show "returns (rel b t) (\<lambda>_ v. written H n x s v)"
      by (rule returns_mono) (use t p assms k in \<open>auto simp: written_def intro: frame_trans\<close>)
  qed
qed

lemma modify_block:
  assumes "inv H s" "n < siz s" "\<forall>b \<in> H. bno s b \<noteq> n" "card H + card (pend s) < cap"
  shows "returns (bind (rd n s) (\<lambda>b s. bind (wr b (put b (g (data s b)) s)) (\<lambda>_ s. rel b s)))
    (\<lambda>_ t. written H n (g (cur s n)) s t)"
  unfolding returns_bind [of "rd n s"]
proof (rule returns_mono [OF rd [OF assms]])
  fix b t
  assume t: "b \<notin> H \<and> inv (insert b H) t \<and> bno t b = n \<and> data t b = cur s n
        \<and> cur t = cur s \<and> dsk t = dsk s \<and> pend t = pend s \<and> hist t = hist s \<and> frame s t
        \<and> (\<forall>c \<in> H. data t c = data s c \<and> bno t c = bno s c)"
  then have "returns (bind (wr b (put b (g (cur s n)) t)) (\<lambda>_ s. rel b s)) (\<lambda>_ u. written H n (g (cur s n)) t u)"
    using assms(2) by (intro modify_end) (auto simp: frame_siz)
  then show "returns (bind (wr b (put b (g (data t b)) t)) (\<lambda>_ s. rel b s)) (\<lambda>_ u. written H n (g (cur s n)) s u)"
    using t by (auto elim!: returns_mono written_trans simp del: returns_bind)
qed

text \<open>Reading a block only.\<close>

lemma read_block:
  assumes "inv H s" "n < siz s" "\<forall>b \<in> H. bno s b \<noteq> n" "card H + card (pend s) < cap"
    and "\<And>b t u. rel b t = Ok () u \<Longrightarrow> data t b = cur s n \<Longrightarrow> frame s t \<Longrightarrow> frame t u \<Longrightarrow> cur u = cur s \<Longrightarrow> dsk u = dsk s
      \<Longrightarrow> pend u = pend s \<Longrightarrow> hist u = hist s \<Longrightarrow> inv H u \<Longrightarrow> \<forall>c \<in> H. data u c = data s c \<and> bno u c = bno s c
      \<Longrightarrow> returns (k b t) Q"
  shows "returns (bind (rd n s) k) Q"
  unfolding returns_bind
proof (rule returns_mono [OF rd [OF assms(1-4)]])
  fix b t
  assume t: "b \<notin> H \<and> inv (insert b H) t \<and> bno t b = n \<and> data t b = cur s n
        \<and> cur t = cur s \<and> dsk t = dsk s \<and> pend t = pend s \<and> hist t = hist s \<and> frame s t
        \<and> (\<forall>c \<in> H. data t c = data s c \<and> bno t c = bno s c)"
  have k: "insert b H - {b} = H" using t by auto
  have "returns (rel b t) (\<lambda>_ u. inv (insert b H - {b}) u \<and> cur u = cur t \<and> dsk u = dsk t \<and> hist u = hist t
        \<and> pend u = pend t \<and> frame t u \<and> data u = data t \<and> bno u = bno t)"
    by (rule rel) (use t clean [OF assms(1,3)] in auto)
  then obtain u where u: "rel b t = Ok () u" "inv H u \<and> cur u = cur t \<and> dsk u = dsk t \<and> hist u = hist t
        \<and> pend u = pend t \<and> frame t u \<and> data u = data t \<and> bno u = bno t"
    unfolding k by (auto simp: returns_iff)
  show "returns (k b t) Q" by (rule assms(5) [OF u(1)]) (use t u(2) in auto)
qed

end

end
