(* ===== verification/Bio.thy ===== *)
theory Bio
  imports Sleeplock Blocks
begin

text \<open>
  The buffer cache, \<open>src/my-xv6-public/bio.c\<close> and \<open>buf.h\<close>, over the memory disk of \<open>memide.c\<close>.
  The list of buffers is the doubly linked list of the code: buffer \<open>i\<close> of \<open>bcache.buf\<close> is the
  index \<open>i\<close>, the list head \<open>bcache.head\<close> is the index \<open>NBUF\<close>.
\<close>

section \<open>State\<close>

definition NBUF :: nat where "NBUF = 30"

text \<open>\<open>struct buf\<close>; the two bits of \<open>flags\<close>, \<open>B_VALID\<close> and \<open>B_DIRTY\<close>, are fields of their own.\<close>

record buf =
  b_valid :: bool
  b_dirty :: bool
  dev :: u32
  blockno :: u32
  refcnt :: u32
  bprev :: nat
  bnext :: nat
  bdata :: block

text \<open>
  \<open>disk\<close> is the memory disk, by block number; \<open>disksize\<close> its number of blocks; \<open>dwrites\<close> is a history
  variable, the block writes the disk has carried out, in order: a crash leaves the disk as some
  prefix of them made it.
\<close>

record kbuf = ksleep +
  bufs :: "nat \<Rightarrow> buf"
  disk :: "u32 \<Rightarrow> block"
  disksize :: u32
  dwrites :: "(u32 \<times> block) list"

definition upd_buf :: "nat \<Rightarrow> (buf \<Rightarrow> buf) \<Rightarrow> 'a kbuf_scheme \<Rightarrow> 'a kbuf_scheme" where
  "upd_buf b f s = s\<lparr>bufs := (bufs s)(b := f (bufs s b))\<rparr>"

section \<open>Operations\<close>

subsection \<open>The memory disk\<close>

definition iderw :: "nat \<Rightarrow> 'a kbuf_scheme \<Rightarrow> (unit, 'a kbuf_scheme) res" where
  "iderw b s = bind (holdingsleep (LkBuf b) s) (\<lambda>h s.
     if \<not> h then Panic ''iderw: buf not locked''
     else if b_valid (bufs s b) \<and> \<not> b_dirty (bufs s b) then Panic ''iderw: nothing to do''
     else if dev (bufs s b) \<noteq> 1 then Panic ''iderw: request not for disk 1''
     else if blockno (bufs s b) \<ge> disksize s then Panic ''iderw: block out of range''
     else
       let p = blockno (bufs s b);
           s = (if b_dirty (bufs s b)
                then (upd_buf b (\<lambda>x. x\<lparr>b_dirty := False\<rparr>) s)\<lparr>disk := (disk s)(p := bdata (bufs s b)),
                     dwrites := dwrites s @ [(p, bdata (bufs s b))]\<rparr>
                else upd_buf b (\<lambda>x. x\<lparr>bdata := disk s p\<rparr>) s) in
       Ok () (upd_buf b (\<lambda>x. x\<lparr>b_valid := True\<rparr>) s))"

subsection \<open>The cache\<close>

definition push_front :: "nat \<Rightarrow> 'a kbuf_scheme \<Rightarrow> 'a kbuf_scheme" where
  "push_front b s =
    (let s = upd_buf b (\<lambda>x. x\<lparr>bnext := bnext (bufs s NBUF)\<rparr>) s;
         s = upd_buf b (\<lambda>x. x\<lparr>bprev := NBUF\<rparr>) s;
         s = upd_buf (bnext (bufs s NBUF)) (\<lambda>x. x\<lparr>bprev := b\<rparr>) s in
     upd_buf NBUF (\<lambda>x. x\<lparr>bnext := b\<rparr>) s)"

definition binit :: "'a kbuf_scheme \<Rightarrow> 'a kbuf_scheme" where
  "binit s =
    (let s = initlock LkBcache s;
         s = upd_buf NBUF (\<lambda>x. x\<lparr>bprev := NBUF, bnext := NBUF\<rparr>) s in
     fold (\<lambda>b s. push_front b (initsleeplock (LkBuf b) s)) [0..<NBUF] s)"

text \<open>
  The two loops of \<open>bget\<close>, along \<open>next\<close> and along \<open>prev\<close> from the head; \<open>None\<close> if the loop comes
  back to the head. The list has \<open>NBUF\<close> buffers; a loop that has not met the head after that
  many is running on a broken list and never ends.
\<close>

primrec scan_next :: "nat \<Rightarrow> (buf \<Rightarrow> bool) \<Rightarrow> nat \<Rightarrow> 'a kbuf_scheme \<Rightarrow> (nat option, 'a kbuf_scheme) res" where
  "scan_next 0 P b s = (if b = NBUF then Ok None s else Hang)"
| "scan_next (Suc n) P b s = (if b = NBUF then Ok None s
     else if P (bufs s b) then Ok (Some b) s else scan_next n P (bnext (bufs s b)) s)"

primrec scan_prev :: "nat \<Rightarrow> (buf \<Rightarrow> bool) \<Rightarrow> nat \<Rightarrow> 'a kbuf_scheme \<Rightarrow> (nat option, 'a kbuf_scheme) res" where
  "scan_prev 0 P b s = (if b = NBUF then Ok None s else Hang)"
| "scan_prev (Suc n) P b s = (if b = NBUF then Ok None s
     else if P (bufs s b) then Ok (Some b) s else scan_prev n P (bprev (bufs s b)) s)"

definition bget :: "u32 \<Rightarrow> u32 \<Rightarrow> 'a kbuf_scheme \<Rightarrow> (nat, 'a kbuf_scheme) res" where
  "bget d bn s = bind (acquire LkBcache s) (\<lambda>_ s.
     bind (scan_next NBUF (\<lambda>x. dev x = d \<and> blockno x = bn) (bnext (bufs s NBUF)) s) (\<lambda>r s.
     case r of
       Some b \<Rightarrow>
         let s = upd_buf b (\<lambda>x. x\<lparr>refcnt := refcnt x + 1\<rparr>) s in
         bind (release LkBcache s) (\<lambda>_ s. bind (acquiresleep (LkBuf b) s) (\<lambda>_ s. Ok b s))
     | None \<Rightarrow>
         bind (scan_prev NBUF (\<lambda>x. refcnt x = 0 \<and> \<not> b_dirty x) (bprev (bufs s NBUF)) s) (\<lambda>r s.
         case r of
           Some b \<Rightarrow>
             let s = upd_buf b (\<lambda>x. x\<lparr>dev := d, blockno := bn, b_valid := False, b_dirty := False, refcnt := 1\<rparr>) s in
             bind (release LkBcache s) (\<lambda>_ s. bind (acquiresleep (LkBuf b) s) (\<lambda>_ s. Ok b s))
         | None \<Rightarrow> Panic ''bget: no buffers'')))"

definition bread :: "u32 \<Rightarrow> u32 \<Rightarrow> 'a kbuf_scheme \<Rightarrow> (nat, 'a kbuf_scheme) res" where
  "bread d bn s = bind (bget d bn s) (\<lambda>b s.
     if \<not> b_valid (bufs s b) then bind (iderw b s) (\<lambda>_ s. Ok b s) else Ok b s)"

definition bwrite :: "nat \<Rightarrow> 'a kbuf_scheme \<Rightarrow> (unit, 'a kbuf_scheme) res" where
  "bwrite b s = bind (holdingsleep (LkBuf b) s) (\<lambda>h s.
     if \<not> h then Panic ''bwrite'' else iderw b (upd_buf b (\<lambda>x. x\<lparr>b_dirty := True\<rparr>) s))"

definition unlink :: "nat \<Rightarrow> 'a kbuf_scheme \<Rightarrow> 'a kbuf_scheme" where
  "unlink b s =
    (let s = upd_buf (bnext (bufs s b)) (\<lambda>x. x\<lparr>bprev := bprev (bufs s b)\<rparr>) s in
     upd_buf (bprev (bufs s b)) (\<lambda>x. x\<lparr>bnext := bnext (bufs s b)\<rparr>) s)"

definition brelse :: "nat \<Rightarrow> 'a kbuf_scheme \<Rightarrow> (unit, 'a kbuf_scheme) res" where
  "brelse b s = bind (holdingsleep (LkBuf b) s) (\<lambda>h s.
     if \<not> h then Panic ''brelse''
     else bind (releasesleep (LkBuf b) s) (\<lambda>_ s.
       bind (acquire LkBcache s) (\<lambda>_ s.
       let s = upd_buf b (\<lambda>x. x\<lparr>refcnt := refcnt x - 1\<rparr>) s;
           s = (if refcnt (bufs s b) = 0 then push_front b (unlink b s) else s) in
       release LkBcache s)))"

section \<open>Lock states\<close>

lemma kbuf_lock_st [simp]:
  "bufs (lock_st l s) = bufs s" "disk (lock_st l s) = disk s"
  "disksize (lock_st l s) = disksize s" "dwrites (lock_st l s) = dwrites s"
  by (simp_all add: lock_st_def push_st_def)

lemma kbuf_touch [simp]:
  "bufs (touch s) = bufs s" "disk (touch s) = disk s" "disksize (touch s) = disksize s"
  "dwrites (touch s) = dwrites s"
  by (simp_all add: touch_def)

lemma lock_st_kbuf [simp]:
  "(lock_st l s)\<lparr>bufs := x1\<rparr> = lock_st l (s\<lparr>bufs := x1\<rparr>)"
  "(lock_st l s)\<lparr>disk := x2\<rparr> = lock_st l (s\<lparr>disk := x2\<rparr>)"
  "(lock_st l s)\<lparr>disksize := x3\<rparr> = lock_st l (s\<lparr>disksize := x3\<rparr>)"
  "(lock_st l s)\<lparr>dwrites := x4\<rparr> = lock_st l (s\<lparr>dwrites := x4\<rparr>)"
  by (simp_all add: lock_st_def push_st_def curcpu_def)

lemma touch_kbuf [simp]:
  "(touch s)\<lparr>bufs := x1\<rparr> = touch (s\<lparr>bufs := x1\<rparr>)"
  "(touch s)\<lparr>disk := x2\<rparr> = touch (s\<lparr>disk := x2\<rparr>)"
  "(touch s)\<lparr>disksize := x3\<rparr> = touch (s\<lparr>disksize := x3\<rparr>)"
  "(touch s)\<lparr>dwrites := x4\<rparr> = touch (s\<lparr>dwrites := x4\<rparr>)"
  by (simp_all add: touch_def curcpu_def)

lemma mach_ok_kbuf [simp]:
  "mach_ok (s\<lparr>bufs := x1\<rparr>) = mach_ok s"
  "mach_ok (s\<lparr>disk := x2\<rparr>) = mach_ok s"
  "mach_ok (s\<lparr>disksize := x3\<rparr>) = mach_ok s"
  "mach_ok (s\<lparr>dwrites := x4\<rparr>) = mach_ok s"
  "lk_free l (s\<lparr>bufs := x1\<rparr>) = lk_free l s"
  "lk_free l (s\<lparr>disk := x2\<rparr>) = lk_free l s"
  "lk_free l (s\<lparr>disksize := x3\<rparr>) = lk_free l s"
  "lk_free l (s\<lparr>dwrites := x4\<rparr>) = lk_free l s"
  "curcpu (s\<lparr>bufs := x1\<rparr>) = curcpu s"
  "curcpu (s\<lparr>disk := x2\<rparr>) = curcpu s"
  "curcpu (s\<lparr>disksize := x3\<rparr>) = curcpu s"
  "curcpu (s\<lparr>dwrites := x4\<rparr>) = curcpu s"
  by (simp_all add: mach_ok_def curcpu_def lk_free_def)

lemma upd_buf_st [simp]:
  "upd_buf b f (lock_st l s) = lock_st l (upd_buf b f s)" "upd_buf b f (touch s) = touch (upd_buf b f s)"
  "mach_ok (upd_buf b f s) = mach_ok s" "lk_free l (upd_buf b f s) = lk_free l s"
  "kern_ok p (upd_buf b f s) = kern_ok p s" "procs (upd_buf b f s) = procs s"
  "sleeplocks (upd_buf b f s) = sleeplocks s" "disk (upd_buf b f s) = disk s"
  "disksize (upd_buf b f s) = disksize s" "dwrites (upd_buf b f s) = dwrites s" "bufs (upd_buf b f s) = (bufs s)(b := f (bufs s b))"
  by (simp_all add: upd_buf_def kern_ok_def)

lemma kern_ok_kbuf [simp]:
  "kern_ok p (s\<lparr>bufs := x1\<rparr>) = kern_ok p s" "kern_ok p (s\<lparr>disk := x2\<rparr>) = kern_ok p s"
  "kern_ok p (s\<lparr>dwrites := x3\<rparr>) = kern_ok p s"
  by (simp_all add: kern_ok_def)

lemma upd_sl_buf [simp]:
  "bufs (upd_sl lk x s) = bufs s" "disk (upd_sl lk x s) = disk s" "disksize (upd_sl lk x s) = disksize s"
  "dwrites (upd_sl lk x s) = dwrites s"
  by (simp_all add: upd_sl_def)

section \<open>The linked list as a list\<close>

text \<open>\<open>path nx pv a xs z\<close>: from \<open>a\<close> the links lead through \<open>xs\<close> to \<open>z\<close>, and back.\<close>

fun path :: "('n \<Rightarrow> 'n) \<Rightarrow> ('n \<Rightarrow> 'n) \<Rightarrow> 'n \<Rightarrow> 'n list \<Rightarrow> 'n \<Rightarrow> bool" where
  "path nx pv a [] z \<longleftrightarrow> nx a = z \<and> pv z = a"
| "path nx pv a (x # xs) z \<longleftrightarrow> nx a = x \<and> pv x = a \<and> path nx pv x xs z"

lemma path_append: "path nx pv a (xs @ x # ys) z \<longleftrightarrow> path nx pv a xs x \<and> path nx pv x ys z"
  by (induction xs arbitrary: a) auto

lemma path_cong:
  assumes "\<And>x. x \<in> set (a # xs) \<Longrightarrow> nx' x = nx x" "\<And>x. x \<in> set (xs @ [z]) \<Longrightarrow> pv' x = pv x"
  shows "path nx' pv' a xs z = path nx pv a xs z"
  using assms by (induction xs arbitrary: a) auto

lemma path_next: "path nx pv a xs z \<Longrightarrow> nx a \<in> set (xs @ [z])"
  by (cases xs) auto

lemma path_prev: "path nx pv a xs z \<Longrightarrow> pv z \<in> set (a # xs)"
  by (induction xs arbitrary: a) auto

lemma path_unlink:
  assumes "path nx pv a (us @ b # vs) z" "distinct (a # us @ b # vs)" "z \<notin> set (us @ b # vs)"
    and nx: "\<And>x. nx' x = (if x = pv b then nx b else nx x)"
    and pv: "\<And>x. pv' x = (if x = nx b then pv b else pv x)"
  shows "path nx' pv' a (us @ vs) z"
  using assms(1-3)
proof (induction us arbitrary: a)
  case Nil
  then show ?case
  proof (cases vs)
    case (Cons v ws)
    with Nil have "path nx' pv' v ws z = path nx pv v ws z"
      by (intro path_cong) (auto simp: nx pv)
    moreover have "nx' a = v" "pv' v = a" using Nil Cons by (auto simp: nx pv)
    ultimately show ?thesis using Nil Cons by simp
  qed (auto simp: nx pv)
next
  case (Cons u us)
  then have p: "path nx pv u us b" "path nx pv b vs z" by (auto simp: path_append)
  have "pv b \<in> set (u # us)" using path_prev [OF p(1)] .
  moreover have "nx b \<in> set (vs @ [z])" using path_next [OF p(2)] .
  ultimately have "pv b \<noteq> a" "nx b \<noteq> u" using Cons.prems by auto
  then have "nx' a = u" "pv' u = a" using Cons.prems by (simp_all add: nx pv)
  moreover have "path nx' pv' u (us @ vs) z" using Cons by simp
  ultimately show ?case by simp
qed

lemma path_push:
  assumes "path nx pv h xs h" "b \<notin> set (h # xs)" "distinct (h # xs)"
    and nx: "\<And>x. nx' x = (if x = h then b else if x = b then nx h else nx x)"
    and pv: "\<And>x. pv' x = (if x = nx h then b else if x = b then h else pv x)"
  shows "path nx' pv' h (b # xs) h"
proof (cases xs)
  case Nil
  then show ?thesis using assms(1-3) by (auto simp: nx pv)
next
  case (Cons x ys)
  then have "path nx' pv' x ys h = path nx pv x ys h"
    using assms(1-3) by (intro path_cong) (auto simp: nx pv)
  moreover have "nx' h = b" "pv' b = h" "nx' b = x" "pv' x = b"
    using assms(1-3) Cons by (auto simp: nx pv)
  ultimately show ?thesis using assms(1-3) Cons by simp
qed

definition blist :: "'a kbuf_scheme \<Rightarrow> nat list \<Rightarrow> bool" where
  "blist s xs \<longleftrightarrow> path (\<lambda>b. bnext (bufs s b)) (\<lambda>b. bprev (bufs s b)) NBUF xs NBUF
     \<and> distinct (NBUF # xs)"

lemma scan_next_eq:
  assumes "path (\<lambda>b. bnext (bufs s b)) (\<lambda>b. bprev (bufs s b)) a xs NBUF" "NBUF \<notin> set xs" "length xs \<le> n"
  shows "scan_next n P (bnext (bufs s a)) s = Ok (find (\<lambda>b. P (bufs s b)) xs) s"
  using assms
proof (induction xs arbitrary: a n)
  case Nil
  then show ?case by (cases n) auto
next
  case (Cons x xs)
  then obtain k where "n = Suc k" by (cases n) auto
  then show ?case using Cons by auto
qed

lemma scan_prev_eq:
  assumes "path (\<lambda>b. bnext (bufs s b)) (\<lambda>b. bprev (bufs s b)) NBUF xs z" "NBUF \<notin> set xs" "length xs \<le> n"
  shows "scan_prev n P (bprev (bufs s z)) s = Ok (find (\<lambda>b. P (bufs s b)) (rev xs)) s"
  using assms
proof (induction xs arbitrary: z n rule: rev_induct)
  case Nil
  then show ?case by (cases n) auto
next
  case (snoc x xs)
  then obtain k where "n = Suc k" by (cases n) auto
  moreover have "path (\<lambda>b. bnext (bufs s b)) (\<lambda>b. bprev (bufs s b)) NBUF xs x" "bprev (bufs s z) = x"
    using snoc.prems(1) by (auto simp: path_append)
  ultimately show ?case using snoc by auto
qed

lemma blist_unlink:
  assumes "blist s xs" "b \<in> set xs"
  shows "blist (unlink b s) (remove1 b xs)"
proof -
  obtain us vs where xs: "xs = us @ b # vs" "b \<notin> set us" using assms(2) by (meson split_list_first)
  have "path (\<lambda>x. bnext (bufs (unlink b s) x)) (\<lambda>x. bprev (bufs (unlink b s) x)) NBUF (us @ vs) NBUF"
    by (rule path_unlink [of "\<lambda>b. bnext (bufs s b)" "\<lambda>b. bprev (bufs s b)" _ _ b])
      (use assms xs in \<open>auto simp: blist_def unlink_def Let_def\<close>)
  moreover have "remove1 b xs = us @ vs" using xs by (simp add: remove1_append)
  ultimately show ?thesis using assms(1) xs(1) by (auto simp: blist_def)
qed

lemma blist_push:
  assumes "blist s xs" "b \<notin> set xs" "b \<noteq> NBUF"
  shows "blist (push_front b s) (b # xs)"
proof -
  have "path (\<lambda>x. bnext (bufs (push_front b s) x)) (\<lambda>x. bprev (bufs (push_front b s) x)) NBUF (b # xs) NBUF"
    by (rule path_push [of "\<lambda>b. bnext (bufs s b)" "\<lambda>b. bprev (bufs s b)"])
      (use assms in \<open>auto simp: blist_def push_front_def Let_def\<close>)
  then show ?thesis using assms by (auto simp: blist_def)
qed

text \<open>Relinking changes nothing but the links.\<close>

definition same_but_links :: "buf \<Rightarrow> buf \<Rightarrow> bool" where
  "same_but_links x y \<longleftrightarrow> y = x\<lparr>bprev := bprev y, bnext := bnext y\<rparr>"

lemma relink_frame:
  "same_but_links (bufs s c) (bufs (push_front b s) c)" "same_but_links (bufs s c) (bufs (unlink b s) c)"
  by (auto simp: same_but_links_def push_front_def unlink_def Let_def)

lemma relink_state:
  "push_front b s = s\<lparr>bufs := bufs (push_front b s)\<rparr>" "unlink b s = s\<lparr>bufs := bufs (unlink b s)\<rparr>"
  by (simp_all add: push_front_def unlink_def upd_buf_def Let_def)

section \<open>The cache as a store of blocks\<close>

text \<open>Buffer \<open>b\<close> caches block \<open>n\<close> of device 1, and the current contents of a block.\<close>

definition cached :: "'a kbuf_scheme \<Rightarrow> u32 \<Rightarrow> nat \<Rightarrow> bool" where
  "cached s n b \<longleftrightarrow> b < NBUF \<and> dev (bufs s b) = 1 \<and> blockno (bufs s b) = n"

definition blk :: "'a kbuf_scheme \<Rightarrow> u32 \<Rightarrow> block" where
  "blk s n = (case find (\<lambda>b. dev (bufs s b) = 1 \<and> blockno (bufs s b) = n) [0..<NBUF] of
     Some b \<Rightarrow> bdata (bufs s b) | None \<Rightarrow> disk s n)"

text \<open>
  The state of the cache while process \<open>p\<close> uses the buffers \<open>H\<close> and no other process uses any:
  the list links all buffers, used buffers are locked and valid, no block is cached twice, and
  an unused buffer that is not dirty agrees with the disk.
\<close>

definition buf_owned :: "nat \<Rightarrow> nat set \<Rightarrow> 'a kbuf_scheme \<Rightarrow> nat \<Rightarrow> bool" where
  "buf_owned p H s b \<longleftrightarrow>
    (if b \<in> H then refcnt (bufs s b) = 1 \<and> b_valid (bufs s b)
       \<and> sleeplocks s (LkBuf b) = \<lparr>sl_locked = 1, sl_pid = pid (procs s p)\<rparr>
     else refcnt (bufs s b) = 0 \<and> sl_locked (sleeplocks s (LkBuf b)) = 0)"

definition cache_inv :: "nat \<Rightarrow> nat set \<Rightarrow> nat list \<Rightarrow> 'a kbuf_scheme \<Rightarrow> bool" where
  "cache_inv p H xs s \<longleftrightarrow> blist s xs \<and> set xs = {..<NBUF} \<and> H \<subseteq> {..<NBUF}
   \<and> (\<forall>b < NBUF. buf_owned p H s b)
   \<and> (\<forall>b < NBUF. b_valid (bufs s b) \<longleftrightarrow> dev (bufs s b) = 1)
   \<and> (\<forall>b < NBUF. b_dirty (bufs s b) \<longrightarrow> b_valid (bufs s b))
   \<and> (\<forall>n b c. cached s n b \<longrightarrow> cached s n c \<longrightarrow> b = c)
   \<and> (\<forall>n b. cached s n b \<longrightarrow> b \<notin> H \<longrightarrow> \<not> b_dirty (bufs s b) \<longrightarrow> bdata (bufs s b) = disk s n)"

definition cache_ok :: "nat \<Rightarrow> nat set \<Rightarrow> nat list \<Rightarrow> 'a kbuf_scheme \<Rightarrow> bool" where
  "cache_ok p H xs s \<longleftrightarrow> kern_ok p s \<and> cache_inv p H xs s"

lemma cache_invD:
  assumes "cache_inv p H xs s"
  shows "blist s xs" "set xs = {..<NBUF}" "H \<subseteq> {..<NBUF}" "\<And>b. b < NBUF \<Longrightarrow> buf_owned p H s b"
    and "\<And>b. b < NBUF \<Longrightarrow> b_valid (bufs s b) \<longleftrightarrow> dev (bufs s b) = 1"
    and "\<And>b. b < NBUF \<Longrightarrow> b_dirty (bufs s b) \<Longrightarrow> b_valid (bufs s b)"
    and "\<And>n b c. cached s n b \<Longrightarrow> cached s n c \<Longrightarrow> b = c"
    and "\<And>n b. cached s n b \<Longrightarrow> b \<notin> H \<Longrightarrow> \<not> b_dirty (bufs s b) \<Longrightarrow> bdata (bufs s b) = disk s n"
  using assms unfolding cache_inv_def by blast+

lemma cache_invI:
  assumes "blist s xs" "set xs = {..<NBUF}" "H \<subseteq> {..<NBUF}" "\<And>b. b < NBUF \<Longrightarrow> buf_owned p H s b"
    and "\<And>b. b < NBUF \<Longrightarrow> b_valid (bufs s b) \<longleftrightarrow> dev (bufs s b) = 1"
    and "\<And>b. b < NBUF \<Longrightarrow> b_dirty (bufs s b) \<Longrightarrow> b_valid (bufs s b)"
    and "\<And>n b c. cached s n b \<Longrightarrow> cached s n c \<Longrightarrow> b = c"
    and "\<And>n b. cached s n b \<Longrightarrow> b \<notin> H \<Longrightarrow> \<not> b_dirty (bufs s b) \<Longrightarrow> bdata (bufs s b) = disk s n"
  shows "cache_inv p H xs s"
  unfolding cache_inv_def using assms by blast

lemma cache_okD:
  assumes "cache_ok p H xs s"
  shows "kern_ok p s" "blist s xs" "set xs = {..<NBUF}" "H \<subseteq> {..<NBUF}" "length xs = NBUF"
    and "\<And>b. b \<in> H \<Longrightarrow> refcnt (bufs s b) = 1" "\<And>b. b \<in> H \<Longrightarrow> b_valid (bufs s b)"
    and "\<And>b. b \<in> H \<Longrightarrow> sleeplocks s (LkBuf b) = \<lparr>sl_locked = 1, sl_pid = pid (procs s p)\<rparr>"
    and "\<And>b. b < NBUF \<Longrightarrow> b \<notin> H \<Longrightarrow> refcnt (bufs s b) = 0"
    and "\<And>b. b < NBUF \<Longrightarrow> b \<notin> H \<Longrightarrow> sl_locked (sleeplocks s (LkBuf b)) = 0"
    and "\<And>n b c. cached s n b \<Longrightarrow> cached s n c \<Longrightarrow> b = c"
proof -
  show "length xs = NBUF"
    using assms distinct_card [of xs] by (auto simp: cache_ok_def cache_inv_def blist_def)
qed (use assms in \<open>auto simp: cache_ok_def cache_inv_def buf_owned_def split: if_splits\<close>)

lemma blk_cached:
  assumes "cache_ok p H xs s" "cached s n b"
  shows "blk s n = bdata (bufs s b)"
proof -
  have "find (\<lambda>b. dev (bufs s b) = 1 \<and> blockno (bufs s b) = n) [0..<NBUF] = Some b"
  proof -
    have "\<not> (dev (bufs s j) = 1 \<and> blockno (bufs s j) = n)" if "j < b" for j
      using cache_okD(11) [OF assms(1) assms(2), of j] that assms(2) by (auto simp: cached_def)
    then show ?thesis using assms(2) by (auto simp: find_Some_iff cached_def intro!: exI [of _ b])
  qed
  then show ?thesis by (simp add: blk_def)
qed

lemma blk_uncached: "(\<And>b. \<not> cached s n b) \<Longrightarrow> blk s n = disk s n"
proof -
  assume "\<And>b. \<not> cached s n b"
  then have "find (\<lambda>b. dev (bufs s b) = 1 \<and> blockno (bufs s b) = n) [0..<NBUF] = None"
    by (auto simp: find_None_iff cached_def)
  then show ?thesis by (simp add: blk_def)
qed

text \<open>States that differ only in what the cache invariant does not look at.\<close>

lemma cache_inv_cong:
  assumes "bufs t = bufs s" "disk t = disk s" "sleeplocks t = sleeplocks s"
    "pid (procs t p) = pid (procs s p)"
  shows "cache_inv p H xs t = cache_inv p H xs s"
  unfolding cache_inv_def blist_def cached_def buf_owned_def assms by (rule refl)

lemma cache_ok_touch: "cache_ok p H xs s \<Longrightarrow> cache_ok p H xs (touch s)"
  using cache_inv_cong [of "touch s" s p H xs] by (simp add: cache_ok_def)

lemma blk_touch [simp]: "blk (touch s) = blk s" "cached (touch s) = cached s"
  unfolding blk_def [abs_def] cached_def [abs_def] kbuf_touch by (rule refl)+

subsection \<open>Getting a buffer\<close>

lemma find_None_cached:
  assumes "set xs = {..<NBUF}"
  shows "find (\<lambda>b. dev (bufs s b) = 1 \<and> blockno (bufs s b) = n) xs = None \<longleftrightarrow> (\<forall>b. \<not> cached s n b)"
  using assms by (auto simp: find_None_iff cached_def)

lemma bget_hit:
  assumes "cache_ok p H xs s" "cached s n b" "b \<notin> H"
  shows "bget 1 n s = Ok b (touch (upd_sl (LkBuf b) \<lparr>sl_locked = 1, sl_pid = pid (procs s p)\<rparr>
    (upd_buf b (\<lambda>x. x\<lparr>refcnt := 1\<rparr>) s)))"
proof -
  note D = cache_okD [OF assms(1)]
  have b: "b < NBUF" using assms(2) by (simp add: cached_def)
  have "find (\<lambda>b. dev (bufs s b) = 1 \<and> blockno (bufs s b) = n) xs = Some b"
  proof (cases "find (\<lambda>b. dev (bufs s b) = 1 \<and> blockno (bufs s b) = n) xs")
    case None
    then show ?thesis using find_None_cached [OF D(3)] assms(2) by blast
  next
    case (Some c)
    then have "cached s n c" using D(3) by (auto simp: cached_def find_Some_iff)
    then show ?thesis using Some D(11) assms(2) by blast
  qed
  then have sc: "scan_next NBUF (\<lambda>x. dev x = 1 \<and> blockno x = n) (bnext (bufs s NBUF)) (lock_st LkBcache s)
      = Ok (Some b) (lock_st LkBcache s)"
    using scan_next_eq [of "lock_st LkBcache s" NBUF xs NBUF] D(2,5) by (simp add: blist_def)
  show ?thesis
    using D(1) kern_okD [OF D(1)] sc D(9,10) [OF b assms(3)]
    by (simp add: bget_def kern Let_def acquiresleep_free [of p]) (simp add: upd_buf_def)
qed

lemma bget_miss:
  assumes "cache_ok p H xs s" "\<And>b. \<not> cached s n b"
    and "find (\<lambda>b. refcnt (bufs s b) = 0 \<and> \<not> b_dirty (bufs s b)) (rev xs) = Some b"
  shows "bget 1 n s = Ok b (touch (upd_sl (LkBuf b) \<lparr>sl_locked = 1, sl_pid = pid (procs s p)\<rparr>
    (upd_buf b (\<lambda>x. x\<lparr>dev := 1, blockno := n, b_valid := False, b_dirty := False, refcnt := 1\<rparr>) s)))"
    "b < NBUF" "b \<notin> H" "\<not> b_dirty (bufs s b)"
proof -
  note D = cache_okD [OF assms(1)]
  have "find (\<lambda>b. dev (bufs s b) = 1 \<and> blockno (bufs s b) = n) xs = None"
    using find_None_cached [OF D(3)] assms(2) by blast
  then have sc: "scan_next NBUF (\<lambda>x. dev x = 1 \<and> blockno x = n) (bnext (bufs s NBUF)) (lock_st LkBcache s)
      = Ok None (lock_st LkBcache s)"
    using scan_next_eq [of "lock_st LkBcache s" NBUF xs NBUF] D(2,5) by (simp add: blist_def)
  have sp: "scan_prev NBUF (\<lambda>x. refcnt x = 0 \<and> \<not> b_dirty x) (bprev (bufs s NBUF)) (lock_st LkBcache s)
      = Ok (Some b) (lock_st LkBcache s)"
    using scan_prev_eq [of "lock_st LkBcache s" xs NBUF NBUF] D(2,5) assms(3) by (simp add: blist_def)
  have bx: "b \<in> set xs" "refcnt (bufs s b) = 0" "\<not> b_dirty (bufs s b)"
    using assms(3) by (auto simp: find_Some_iff rev_nth)
  then show b: "b < NBUF" "b \<notin> H" "\<not> b_dirty (bufs s b)" using D(3,6) by auto
  show "bget 1 n s = Ok b (touch (upd_sl (LkBuf b) \<lparr>sl_locked = 1, sl_pid = pid (procs s p)\<rparr>
    (upd_buf b (\<lambda>x. x\<lparr>dev := 1, blockno := n, b_valid := False, b_dirty := False, refcnt := 1\<rparr>) s)))"
    using D(1) kern_okD [OF D(1)] sc sp D(10) [OF b(1,2)]
    by (simp add: bget_def kern Let_def acquiresleep_free [of p])
qed

lemma iderw_read:
  assumes "kern_ok p s" "sleeplocks s (LkBuf b) = \<lparr>sl_locked = 1, sl_pid = pid (procs s p)\<rparr>"
    "\<not> b_valid (bufs s b)" "\<not> b_dirty (bufs s b)" "dev (bufs s b) = 1" "blockno (bufs s b) < disksize s"
  shows "iderw b s = Ok () (touch (upd_buf b (\<lambda>x. x\<lparr>bdata := disk s (blockno (bufs s b)), b_valid := True\<rparr>) s))"
proof -
  have "\<not> disksize s \<le> blockno (bufs s b)" using assms by simp
  then show ?thesis using assms by (simp add: iderw_def holdingsleep_eq [of p] Let_def upd_buf_def)
qed

lemma iderw_write:
  assumes "kern_ok p s" "sleeplocks s (LkBuf b) = \<lparr>sl_locked = 1, sl_pid = pid (procs s p)\<rparr>"
    "b_dirty (bufs s b)" "dev (bufs s b) = 1" "blockno (bufs s b) < disksize s"
  shows "iderw b s = Ok () (touch (upd_buf b (\<lambda>x. x\<lparr>b_dirty := False, b_valid := True\<rparr>)
    (s\<lparr>disk := (disk s)(blockno (bufs s b) := bdata (bufs s b)),
       dwrites := dwrites s @ [(blockno (bufs s b), bdata (bufs s b))]\<rparr>)))"
proof -
  have "\<not> disksize s \<le> blockno (bufs s b)" using assms by simp
  then show ?thesis using assms by (simp add: iderw_def holdingsleep_eq [of p] Let_def upd_buf_def)
qed

subsection \<open>What the cache operations leave alone\<close>

definition awake :: "proc \<Rightarrow> proc \<Rightarrow> bool" where
  "awake x y \<longleftrightarrow> y = x \<or> state x = SLEEPING \<and> y = x\<lparr>state := RUNNABLE\<rparr>"

lemma awake_refl [simp]: "awake x x"
  by (simp add: awake_def)

lemma awake_trans: "awake x y \<Longrightarrow> awake y z \<Longrightarrow> awake x z"
  by (auto simp: awake_def)

lemma awake_wake_procs: "awake (ps q) (wake_procs ch ps q)"
  by (simp add: awake_def wake_procs_def)

lemma awake_fields:
  "awake x y \<Longrightarrow> pid y = pid x \<and> sz y = sz x \<and> pgdir y = pgdir x \<and> ofile y = ofile x \<and> cwd y = cwd x
     \<and> parent y = parent x \<and> killed y = killed x"
  by (auto simp: awake_def)

definition bio_frame :: "'a kbuf_scheme \<Rightarrow> 'a kbuf_scheme \<Rightarrow> bool" where
  "bio_frame s t \<longleftrightarrow> kbuf.more t = kbuf.more s \<and> disksize t = disksize s \<and> mem t = mem s
     \<and> freelist t = freelist s \<and> use_lock t = use_lock s \<and> kend t = kend s
     \<and> (\<forall>q. awake (procs s q) (procs t q)) \<and> curcpu t = curcpu s
     \<and> (\<forall>l. (\<forall>b. l \<noteq> LkBuf b) \<longrightarrow> sleeplocks t l = sleeplocks s l)"

interpretation bio: state_frame bio_frame
  by unfold_locales (auto simp: bio_frame_def intro: awake_trans)

lemma more_st [simp]: "kbuf.more (touch s) = kbuf.more s" "kbuf.more (upd_buf b f s) = kbuf.more s"
  "kbuf.more (upd_sl lk x s) = kbuf.more s"
  by (simp_all add: touch_def upd_buf_def upd_sl_def)

lemma mem_buf [simp]:
  "mem (upd_buf b f s) = mem s" "mem (upd_sl lk x s) = mem s"
  "freelist (upd_buf b f s) = freelist s" "freelist (upd_sl lk x s) = freelist s"
  "use_lock (upd_buf b f s) = use_lock s" "use_lock (upd_sl lk x s) = use_lock s"
  "kend (upd_buf b f s) = kend s" "kend (upd_sl lk x s) = kend s"
  "curcpu (upd_buf b f s) = curcpu s"
  by (simp_all add: upd_buf_def upd_sl_def)

definition dirty_blocks :: "'a kbuf_scheme \<Rightarrow> u32 set" where
  "dirty_blocks s = {n. \<exists>b. cached s n b \<and> b_dirty (bufs s b)}"

subsection \<open>Reading a block\<close>

text \<open>Updating fields of one buffer other than its links.\<close>

lemma blist_upd:
  assumes "bnext (f (bufs s b)) = bnext (bufs s b)" "bprev (f (bufs s b)) = bprev (bufs s b)"
  shows "blist (upd_buf b f s) xs = blist s xs"
proof -
  have "(\<lambda>c. bnext (bufs (upd_buf b f s) c)) = (\<lambda>c. bnext (bufs s c))"
    "(\<lambda>c. bprev (bufs (upd_buf b f s) c)) = (\<lambda>c. bprev (bufs s c))"
    using assms by auto
  then show ?thesis by (simp only: blist_def)
qed

lemma blist_cong: "bufs t = bufs s \<Longrightarrow> blist t xs = blist s xs"
  by (simp only: blist_def)

lemma cache_inv_grab:
  assumes inv: "cache_inv p H xs s" and b: "b < NBUF" "b \<notin> H"
    and x: "dev x = 1" "b_valid x" "refcnt x = 1" "bnext x = bnext (bufs s b)" "bprev x = bprev (bufs s b)"
    and u: "\<And>c. cached s (blockno x) c \<Longrightarrow> c = b"
    and t: "bufs t = (bufs s)(b := x)" "disk t = disk s" "procs t = procs s"
      "sleeplocks t = (sleeplocks s)(LkBuf b := \<lparr>sl_locked = 1, sl_pid = pid (procs s p)\<rparr>)"
  shows "cache_inv p (insert b H) xs t"
proof -
  note D = cache_invD [OF inv]
  have c: "cached t n c \<longleftrightarrow> (if c = b then n = blockno x else cached s n c)" for n c
    using b x(1) t(1) by (auto simp: cached_def)
  show ?thesis
  proof (rule cache_invI)
    have "bufs t = bufs (upd_buf b (\<lambda>_. x) s)" using t(1) by simp
    then have "blist t xs = blist (upd_buf b (\<lambda>_. x) s) xs" by (rule blist_cong)
    then show "blist t xs" using x(4,5) D(1) by (simp add: blist_upd)
    show "insert b H \<subseteq> {..<NBUF}" using D(3) b by simp
    show "buf_owned p (insert b H) t d" if "d < NBUF" for d
      using D(4) [OF that] x(2,3) b by (auto simp: buf_owned_def t)
    show "b_valid (bufs t d) \<longleftrightarrow> dev (bufs t d) = 1" if "d < NBUF" for d
      using D(5) [OF that] x(1,2) by (simp add: t)
    show "b_valid (bufs t d)" if "d < NBUF" "b_dirty (bufs t d)" for d
      using D(6) [of d] x(2) that by (auto simp: t split: if_splits)
    show "d = e" if "cached t n d" "cached t n e" for n d e
      using that D(7) u unfolding c by metis
    show "bdata (bufs t d) = disk t n" if "cached t n d" "d \<notin> insert b H" "\<not> b_dirty (bufs t d)" for n d
      using that D(8) [of n d] unfolding c by (simp add: t)
  qed (rule D(2))
qed

text \<open>What a reader of the cache sees when a buffer is taken over.\<close>

lemma blk_eqI:
  assumes "cache_inv p H xs s" "\<And>b. cached s n b \<Longrightarrow> bdata (bufs s b) = v"
    "(\<And>b. \<not> cached s n b) \<Longrightarrow> disk s n = v"
  shows "blk s n = v"
proof (cases "\<exists>b. cached s n b")
  case True
  then obtain b where b: "cached s n b" by blast
  have "\<not> (dev (bufs s j) = 1 \<and> blockno (bufs s j) = n)" if "j < b" for j
    using cache_invD(7) [OF assms(1) b, of j] that b by (auto simp: cached_def)
  then have "find (\<lambda>b. dev (bufs s b) = 1 \<and> blockno (bufs s b) = n) [0..<NBUF] = Some b"
    using b by (auto simp: find_Some_iff cached_def intro!: exI [of _ b])
  then show ?thesis using assms(2) [OF b] by (simp add: blk_def)
next
  case False
  then show ?thesis using assms(3) blk_uncached [of s n] by simp
qed

lemma blk_cachedI: "cache_inv p H xs s \<Longrightarrow> cached s n b \<Longrightarrow> blk s n = bdata (bufs s b)"
  using cache_invD(7) blk_eqI by metis

lemma grab_blk:
  assumes inv: "cache_inv p H xs s" "cache_inv p (insert b H) xs t" and b: "b < NBUF" "b \<notin> H"
    and t: "bufs t = (bufs s)(b := x)" "disk t = disk s" and x: "dev x = 1"
    and hm: "cached s (blockno x) b \<and> bdata x = bdata (bufs s b) \<and> b_dirty x = b_dirty (bufs s b)
      \<or> (\<forall>c. \<not> cached s (blockno x) c) \<and> \<not> b_dirty (bufs s b) \<and> \<not> b_dirty x \<and> bdata x = disk s (blockno x)"
  shows "blk t = blk s" "dirty_blocks t = dirty_blocks s" "bdata x = blk s (blockno x)"
proof -
  note D = cache_invD [OF inv(1)]
  have c: "cached t n c \<longleftrightarrow> (if c = b then n = blockno x else cached s n c)" for n c
    using b x(1) t(1) by (auto simp: cached_def)
  have v: "bdata x = blk s (blockno x)" using hm blk_cachedI [OF inv(1)] blk_uncached by metis
  then show "bdata x = blk s (blockno x)" .
  have "blk t n = blk s n" for n
  proof (rule blk_eqI [OF inv(2)])
    show "bdata (bufs t d) = blk s n" if "cached t n d" for d
      using that v blk_cachedI [OF inv(1), of n d] by (auto simp: c t split: if_splits)
    show "disk t n = blk s n" if u: "\<And>d. \<not> cached t n d"
    proof (cases "cached s n b")
      case True
      with u [of b] hm have "\<not> b_dirty (bufs s b)" by (auto simp: c cached_def [of s])
      then show ?thesis using D(8) [OF True b(2)] blk_cachedI [OF inv(1) True] t by simp
    next
      case False
      then have "\<not> cached s n d" for d using u [of d] c [of n d] by (cases "d = b") auto
      then show ?thesis using blk_uncached [of s n] t by simp
    qed
  qed
  then show "blk t = blk s" by auto
  have "(cached t n d \<and> b_dirty (bufs t d)) = (cached s n d \<and> b_dirty (bufs s d))" for n d
    using hm unfolding c by (cases "d = b") (auto simp: t cached_def [of s])
  then show "dirty_blocks t = dirty_blocks s" by (simp add: dirty_blocks_def)
qed

text \<open>There is a buffer to recycle as long as few are used or hold blocks yet to be written.\<close>

lemma victim_exists:
  assumes inv: "cache_inv p H xs s" and "card H + card (dirty_blocks s) < NBUF"
  shows "\<exists>b. find (\<lambda>b. refcnt (bufs s b) = 0 \<and> \<not> b_dirty (bufs s b)) (rev xs) = Some b"
proof (rule ccontr)
  note D = cache_invD [OF inv]
  let ?D = "{b. b < NBUF \<and> b_dirty (bufs s b)}"
  assume "\<not> ?thesis"
  then have "find (\<lambda>b. refcnt (bufs s b) = 0 \<and> \<not> b_dirty (bufs s b)) (rev xs) = None" by auto
  then have "refcnt (bufs s b) \<noteq> 0 \<or> b_dirty (bufs s b)" if "b < NBUF" for b
    using that D(2) by (auto simp: find_None_iff)
  then have "b \<in> H \<or> b_dirty (bufs s b)" if "b < NBUF" for b
    using that D(4) [OF that] by (auto simp: buf_owned_def split: if_splits)
  then have "{..<NBUF} \<subseteq> H \<union> ?D" by auto
  moreover have fin: "finite H" "finite ?D" using D(3) finite_subset by auto
  ultimately have "NBUF \<le> card (H \<union> ?D)" using card_mono [of "H \<union> ?D" "{..<NBUF}"] by simp
  also have "\<dots> \<le> card H + card ?D" by (rule card_Un_le)
  also have "card ?D = card ((\<lambda>b. blockno (bufs s b)) ` ?D)"
  proof (rule card_image [symmetric], rule inj_onI)
    fix b c assume *: "b \<in> ?D" "c \<in> ?D" "blockno (bufs s b) = blockno (bufs s c)"
    then have "dev (bufs s b) = 1" "dev (bufs s c) = 1" using D(5,6) [of b] D(5,6) [of c] by auto
    then show "b = c" using * D(7) [of "blockno (bufs s c)" b c] by (simp add: cached_def)
  qed
  also have "(\<lambda>b. blockno (bufs s b)) ` ?D = dirty_blocks s"
    using D(5) D(6) by (force simp: dirty_blocks_def cached_def)
  finally show False using assms(2) by simp
qed

text \<open>
  \<open>bread\<close>: the caller gets the locked buffer of the block, with its current contents; to every
  other reader nothing has changed.
\<close>

lemma bread_hit:
  assumes ok: "cache_ok p H xs s" and b: "cached s n b" "b \<notin> H"
  shows "bread 1 n s = Ok b (touch (upd_sl (LkBuf b) \<lparr>sl_locked = 1, sl_pid = pid (procs s p)\<rparr>
    (upd_buf b (\<lambda>x. x\<lparr>refcnt := 1\<rparr>) s)))"
proof -
  have "cache_inv p H xs s" using ok by (simp add: cache_ok_def)
  then have "b_valid (bufs s b)" using cache_invD(5) b(1) unfolding cached_def by blast
  then show ?thesis using bget_hit [OF ok b] by (simp add: bread_def)
qed

lemma bread_miss:
  assumes ok: "cache_ok p H xs s" and n: "\<And>b. \<not> cached s n b" "n < disksize s"
    and v: "find (\<lambda>b. refcnt (bufs s b) = 0 \<and> \<not> b_dirty (bufs s b)) (rev xs) = Some b"
  shows "bread 1 n s = Ok b (touch (upd_buf b (\<lambda>x. x\<lparr>bdata := disk s n, b_valid := True\<rparr>)
    (upd_sl (LkBuf b) \<lparr>sl_locked = 1, sl_pid = pid (procs s p)\<rparr>
    (upd_buf b (\<lambda>x. x\<lparr>dev := 1, blockno := n, b_valid := False, b_dirty := False, refcnt := 1\<rparr>) s))))"
proof -
  let ?t = "touch (upd_sl (LkBuf b) \<lparr>sl_locked = 1, sl_pid = pid (procs s p)\<rparr>
    (upd_buf b (\<lambda>x. x\<lparr>dev := 1, blockno := n, b_valid := False, b_dirty := False, refcnt := 1\<rparr>) s))"
  note g = bget_miss [OF ok n(1) v]
  have "iderw b ?t = Ok () (touch (upd_buf b (\<lambda>x. x\<lparr>bdata := disk ?t (blockno (bufs ?t b)), b_valid := True\<rparr>) ?t))"
    by (rule iderw_read [of p]) (use cache_okD(1) [OF ok] n in simp_all)
  then show ?thesis using g(1) kern_okD(1) [OF cache_okD(1) [OF ok]] by (simp add: bread_def)
qed

definition bread_post :: "nat \<Rightarrow> nat set \<Rightarrow> nat list \<Rightarrow> u32 \<Rightarrow> 'a kbuf_scheme \<Rightarrow> nat \<Rightarrow> 'a kbuf_scheme \<Rightarrow> bool" where
  "bread_post p H xs n s b t \<longleftrightarrow> b \<notin> H \<and> b < NBUF \<and> cache_ok p (insert b H) xs t
     \<and> blockno (bufs t b) = n \<and> bdata (bufs t b) = blk s n \<and> blk t = blk s
     \<and> dirty_blocks t = dirty_blocks s \<and> disk t = disk s \<and> dwrites t = dwrites s
     \<and> bio_frame s t \<and> (\<forall>c \<in> H. bufs t c = bufs s c)"

lemma bread_spec:
  assumes ok: "cache_ok p H xs s" and n: "n < disksize s" "\<And>b. b \<in> H \<Longrightarrow> blockno (bufs s b) \<noteq> n"
    and room: "card H + card (dirty_blocks s) < NBUF"
  shows "returns (bread 1 n s) (bread_post p H xs n s)"
proof (cases "\<exists>b. cached s n b")
  case True
  then obtain b where b: "cached s n b" by blast
  have inv: "cache_inv p H xs s" using ok by (simp add: cache_ok_def)
  have bH: "b < NBUF" "b \<notin> H" using b n(2) by (auto simp: cached_def)
  have bv: "b_valid (bufs s b)" using cache_invD(5) [OF inv bH(1)] b by (simp add: cached_def)
  let ?x = "(bufs s b)\<lparr>refcnt := 1\<rparr>"
  let ?t = "touch (upd_sl (LkBuf b) \<lparr>sl_locked = 1, sl_pid = pid (procs s p)\<rparr> (upd_buf b (\<lambda>x. x\<lparr>refcnt := 1\<rparr>) s))"
  have u: "c = b" if "cached s (blockno ?x) c" for c
    using that cache_invD(7) [OF inv _ b, of c] b by (simp add: cached_def)
  have inv': "cache_inv p (insert b H) xs ?t"
    by (rule cache_inv_grab [OF inv bH, of ?x]) (use b bv in \<open>simp_all add: cached_def [of s n b]\<close>, rule u, simp)
  have g: "blk ?t = blk s" "dirty_blocks ?t = dirty_blocks s" "bdata ?x = blk s (blockno ?x)"
    by (rule grab_blk [OF inv inv' bH, of ?x]; use b in \<open>simp add: cached_def\<close>)+
  have "bread_post p H xs n s b ?t"
    using bH b g cache_okD(1) [OF ok] inv'
    by (auto simp: bread_post_def cache_ok_def cached_def bio_frame_def)
  then show ?thesis using bread_hit [OF ok b bH(2)] by simp
next
  case False
  have inv: "cache_inv p H xs s" using ok by (simp add: cache_ok_def)
  obtain b where v: "find (\<lambda>b. refcnt (bufs s b) = 0 \<and> \<not> b_dirty (bufs s b)) (rev xs) = Some b"
    using victim_exists [OF inv room] by blast
  have u: "\<And>b. \<not> cached s n b" using False by blast
  note g = bget_miss [OF ok u v]
  let ?t = "touch (upd_buf b (\<lambda>x. x\<lparr>bdata := disk s n, b_valid := True\<rparr>)
    (upd_sl (LkBuf b) \<lparr>sl_locked = 1, sl_pid = pid (procs s p)\<rparr>
    (upd_buf b (\<lambda>x. x\<lparr>dev := 1, blockno := n, b_valid := False, b_dirty := False, refcnt := 1\<rparr>) s)))"
  let ?x = "bufs ?t b"
  have inv': "cache_inv p (insert b H) xs ?t"
    by (rule cache_inv_grab [OF inv g(2,3), of ?x]) (use u in simp_all)
  have h: "blk ?t = blk s" "dirty_blocks ?t = dirty_blocks s" "bdata ?x = blk s (blockno ?x)"
    by (rule grab_blk [OF inv inv' g(2,3), of ?x]; use u g(4) in simp)+
  have "bread_post p H xs n s b ?t"
    using g h cache_okD(1) [OF ok] inv' by (auto simp: bread_post_def cache_ok_def bio_frame_def)
  then show ?thesis using bread_miss [OF ok u n(1) v] by simp
qed

subsection \<open>Releasing and writing a block\<close>

lemma relink_st [simp]:
  "push_front b (lock_st l s) = lock_st l (push_front b s)" "push_front b (touch s) = touch (push_front b s)"
  "unlink b (lock_st l s) = lock_st l (unlink b s)" "unlink b (touch s) = touch (unlink b s)"
  "mach_ok (push_front b s) = mach_ok s" "mach_ok (unlink b s) = mach_ok s"
  "lk_free l (push_front b s) = lk_free l s" "lk_free l (unlink b s) = lk_free l s"
  by (simp_all add: push_front_def unlink_def Let_def)

lemma relink_fields [simp]:
  "kern_ok p (push_front b s) = kern_ok p s" "kern_ok p (unlink b s) = kern_ok p s"
  "sleeplocks (push_front b s) = sleeplocks s" "sleeplocks (unlink b s) = sleeplocks s"
  "procs (push_front b s) = procs s" "procs (unlink b s) = procs s"
  "disk (push_front b s) = disk s" "disk (unlink b s) = disk s"
  "dwrites (push_front b s) = dwrites s" "dwrites (unlink b s) = dwrites s"
  "disksize (push_front b s) = disksize s" "disksize (unlink b s) = disksize s"
  "curcpu (push_front b s) = curcpu s" "curcpu (unlink b s) = curcpu s"
  "mem (push_front b s) = mem s" "mem (unlink b s) = mem s"
  "freelist (push_front b s) = freelist s" "freelist (unlink b s) = freelist s"
  "use_lock (push_front b s) = use_lock s" "use_lock (unlink b s) = use_lock s"
  "kend (push_front b s) = kend s" "kend (unlink b s) = kend s"
  "kbuf.more (push_front b s) = kbuf.more s" "kbuf.more (unlink b s) = kbuf.more s"
  by (simp_all add: push_front_def unlink_def Let_def)

lemma same_but_links_trans: "same_but_links x y \<Longrightarrow> same_but_links y z \<Longrightarrow> same_but_links x z"
  by (cases x, cases y, cases z) (simp add: same_but_links_def)

lemma relink_buf: "same_but_links (bufs s c) (bufs (push_front b (unlink b s)) c)"
  by (rule same_but_links_trans [OF relink_frame(2) relink_frame(1)])

text \<open>Two buffers that agree on all but the list links and the reference count.\<close>

definition same_block :: "buf \<Rightarrow> buf \<Rightarrow> bool" where
  "same_block x y \<longleftrightarrow> dev y = dev x \<and> blockno y = blockno x \<and> b_valid y = b_valid x \<and> b_dirty y = b_dirty x
     \<and> bdata y = bdata x"

lemma same_but_linksD: "same_but_links x y \<Longrightarrow> same_block x y \<and> refcnt y = refcnt x"
  by (cases x, cases y) (simp add: same_but_links_def same_block_def)

lemma same_block_view:
  assumes "\<And>c. same_block (bufs s c) (bufs t c)" "disk t = disk s"
  shows "cached t = cached s" "blk t = blk s" "dirty_blocks t = dirty_blocks s"
proof -
  show c: "cached t = cached s"
    using assms(1) by (auto simp: cached_def same_block_def fun_eq_iff)
  have "blk t n = blk s n" for n
    using assms by (simp add: blk_def same_block_def split: option.split)
  then show "blk t = blk s" by auto
  show "dirty_blocks t = dirty_blocks s"
    using assms(1) unfolding dirty_blocks_def c by (auto simp: same_block_def)
qed

lemma cache_inv_put:
  assumes inv: "cache_inv p H xs s" and b: "b \<in> H"
    and cl: "\<not> b_dirty (bufs s b) \<Longrightarrow> bdata (bufs s b) = disk s (blockno (bufs s b))"
    and t: "\<And>c. same_block (bufs s c) (bufs t c)" "\<And>c. refcnt (bufs t c) = (if c = b then 0 else refcnt (bufs s c))"
      "disk t = disk s" "pid (procs t p) = pid (procs s p)"
      "sleeplocks t = (sleeplocks s)(LkBuf b := \<lparr>sl_locked = 0, sl_pid = 0\<rparr>)"
    and ys: "blist t ys" "set ys = set xs"
  shows "cache_inv p (H - {b}) ys t"
proof -
  note D = cache_invD [OF inv]
  have c: "cached t = cached s" by (rule same_block_view) (use t in simp_all)
  note f = t(1) [unfolded same_block_def]
  show ?thesis
  proof (rule cache_invI)
    show "buf_owned p (H - {b}) t d" if "d < NBUF" for d
      using D(4) [OF that] f [of d] t(2) [of d] b by (auto simp: buf_owned_def t(4,5))
    show "b_valid (bufs t d) \<longleftrightarrow> dev (bufs t d) = 1" if "d < NBUF" for d
      using D(5) [OF that] f [of d] by simp
    show "b_valid (bufs t d)" if "d < NBUF" "b_dirty (bufs t d)" for d
      using D(6) [of d] f [of d] that by simp
    show "d = e" if "cached t n d" "cached t n e" for n d e
      using D(7) that unfolding c by blast
    show "bdata (bufs t d) = disk t n" if "cached t n d" "d \<notin> H - {b}" "\<not> b_dirty (bufs t d)" for n d
      using that D(8) [of n d] f [of d] cl unfolding c t(3) by (cases "d = b") (auto simp: cached_def)
  qed (use D(2,3) ys in auto)
qed

definition brelse_post :: "nat \<Rightarrow> nat set \<Rightarrow> nat list \<Rightarrow> nat \<Rightarrow> 'a kbuf_scheme \<Rightarrow> 'a kbuf_scheme \<Rightarrow> bool" where
  "brelse_post p H xs b s t \<longleftrightarrow> cache_ok p (H - {b}) (b # remove1 b xs) t \<and> blk t = blk s
     \<and> dirty_blocks t = dirty_blocks s \<and> disk t = disk s \<and> dwrites t = dwrites s
     \<and> bio_frame s t \<and> (\<forall>c. same_block (bufs s c) (bufs t c))"

lemma brelse_spec:
  assumes ok: "cache_ok p H xs s" and b: "b \<in> H"
    and cl: "b_dirty (bufs s b) \<or> bdata (bufs s b) = disk s (blockno (bufs s b))"
  shows "returns (brelse b s) (\<lambda>_. brelse_post p H xs b s)"
proof -
  note D = cache_okD [OF ok]
  have inv: "cache_inv p H xs s" using ok by (simp add: cache_ok_def)
  have bx: "b \<in> set xs" "b \<noteq> NBUF" using b D(3,4) by auto
  let ?s1 = "(upd_sl (LkBuf b) \<lparr>sl_locked = 0, sl_pid = 0\<rparr> s)\<lparr>procs := wake_procs (Some (ChSleeplock (LkBuf b))) (procs s)\<rparr>"
  let ?s2 = "upd_buf b (\<lambda>x. x\<lparr>refcnt := 0\<rparr>) ?s1"
  let ?t = "touch (push_front b (unlink b ?s2))"
  have "brelse b s = Ok () ?t"
    using D(1) kern_okD [OF D(1)] D(6,8) [OF b]
    by (simp add: brelse_def kern Let_def holdingsleep_eq [of p] releasesleep_eq [of p]) (simp add: upd_buf_def)
  moreover have f: "same_but_links (bufs ?s2 c) (bufs ?t c)" for c
    unfolding kbuf_touch by (rule relink_buf)
  have b2: "bufs ?s2 = (bufs s)(b := (bufs s b)\<lparr>refcnt := 0\<rparr>)" by (simp add: upd_sl_def)
  note g = f [THEN same_but_linksD, unfolded b2]
  have sb: "same_block (bufs s c) (bufs ?t c)" for c
    using g [of c] by (cases "c = b") (simp_all add: same_block_def)
  have rc: "refcnt (bufs ?t c) = (if c = b then 0 else refcnt (bufs s c))" for c
    using g [of c] by (cases "c = b") simp_all
  have bl: "blist ?t (b # remove1 b xs)"
  proof -
    have "blist ?s2 xs = blist ?s1 xs" by (rule blist_upd) simp_all
    moreover have "blist ?s1 xs = blist s xs" by (rule blist_cong) (simp add: upd_sl_def)
    ultimately have "blist ?s2 xs" using D(2) by simp
    then have "blist (unlink b ?s2) (remove1 b xs)" using bx(1) by (rule blist_unlink)
    moreover have "distinct xs" using D(2) by (simp add: blist_def)
    ultimately have "blist (push_front b (unlink b ?s2)) (b # remove1 b xs)" using bx(2) by (intro blist_push) simp_all
    then show ?thesis by (subst blist_cong [of _ "push_front b (unlink b ?s2)"]) simp_all
  qed
  have "cache_inv p (H - {b}) (b # remove1 b xs) ?t"
    by (rule cache_inv_put [OF inv b _ sb rc]) (use cl bl bx D(2) in \<open>auto simp: blist_def upd_sl_def\<close>)
  moreover have "blk ?t = blk s" "dirty_blocks ?t = dirty_blocks s"
    by (rule same_block_view; use sb in \<open>simp add: upd_sl_def\<close>)+
  moreover have "bio_frame s ?t" by (auto simp: bio_frame_def upd_sl_def awake_wake_procs)
  moreover have "kern_ok p ?t" using D(1) by simp
  moreover have "disk ?t = disk s" "dwrites ?t = dwrites s" by (simp_all add: upd_sl_def)
  ultimately show ?thesis
    using sb unfolding brelse_post_def cache_ok_def by (simp only: returns_simps) blast
qed

text \<open>Changing the data or the dirty bit of a buffer in use, or writing it to disk.\<close>

lemma held_mod:
  assumes inv: "cache_inv p H xs s" and b: "b \<in> H" and n: "n = blockno (bufs s b)"
    and t: "bufs t = (bufs s)(b := x)" "\<And>m. m \<noteq> n \<Longrightarrow> disk t m = disk s m" "procs t = procs s" "sleeplocks t = sleeplocks s"
    and x: "dev x = dev (bufs s b)" "blockno x = n" "b_valid x" "refcnt x = refcnt (bufs s b)"
      "bnext x = bnext (bufs s b)" "bprev x = bprev (bufs s b)"
  shows "cache_inv p H xs t" "blk t = (blk s)(n := bdata x)"
    "dirty_blocks t = (if b_dirty x then insert n (dirty_blocks s) else dirty_blocks s - {n})"
proof -
  note D = cache_invD [OF inv]
  have bb: "b < NBUF" "b_valid (bufs s b)" using b D(3) D(4) [of b] by (auto simp: buf_owned_def)
  then have bc: "cached s n b" using D(5) [of b] n by (simp add: cached_def)
  have c: "cached t m d = cached s m d" for m d using t(1) x(1,2) n by (auto simp: cached_def)
  show inv': "cache_inv p H xs t"
  proof (rule cache_invI)
    have "bufs t = bufs (upd_buf b (\<lambda>_. x) s)" using t(1) by simp
    then have "blist t xs = blist (upd_buf b (\<lambda>_. x) s) xs" by (rule blist_cong)
    then show "blist t xs" using x(5,6) D(1) by (simp add: blist_upd)
    show "buf_owned p H t d" if "d < NBUF" for d
      using D(4) [OF that] x(3,4) b by (auto simp: buf_owned_def t)
    show "b_valid (bufs t d) \<longleftrightarrow> dev (bufs t d) = 1" if "d < NBUF" for d
      using D(5) [OF that] x(1,3) bb D(5) [of b] by (auto simp: t)
    show "b_valid (bufs t d)" if "d < NBUF" "b_dirty (bufs t d)" for d
      using D(6) [of d] x(3) that by (auto simp: t split: if_splits)
    show "d = e" if "cached t m d" "cached t m e" for m d e
      using D(7) that unfolding c by blast
    show "bdata (bufs t d) = disk t m" if "cached t m d" "d \<notin> H" "\<not> b_dirty (bufs t d)" for m d
    proof -
      have "d \<noteq> b" "cached s m d" using that b c by auto
      then have "m \<noteq> n" using D(7) bc by blast
      then show ?thesis using that D(8) [of m d] \<open>d \<noteq> b\<close> c t(2) by (simp add: t(1))
    qed
  qed (use D in auto)
  have "blk t m = ((blk s)(n := bdata x)) m" for m
  proof (rule blk_eqI [OF inv'])
    show "bdata (bufs t d) = ((blk s)(n := bdata x)) m" if "cached t m d" for d
      using that D(7) [of n d b] bc blk_cachedI [OF inv, of m d] unfolding c by (auto simp: t(1) cached_def)
    show "disk t m = ((blk s)(n := bdata x)) m" if "\<And>d. \<not> cached t m d"
      using that bc blk_uncached [of s m] t(2) [of m] unfolding c by auto
  qed
  then show "blk t = (blk s)(n := bdata x)" by auto
  have "m \<in> dirty_blocks t \<longleftrightarrow> (if m = n then b_dirty x else m \<in> dirty_blocks s)" for m
  proof (cases "m = n")
    case True
    have "cached s n d \<longleftrightarrow> d = b" for d using bc D(7) by blast
    then show ?thesis using True by (simp add: dirty_blocks_def c t(1))
  next
    case False
    then have "\<not> cached s m b" using bc by (simp add: cached_def)
    then have "cached s m d \<and> b_dirty (bufs t d) \<longleftrightarrow> cached s m d \<and> b_dirty (bufs s d)" for d
      by (cases "d = b") (simp_all add: t(1))
    then show ?thesis using False by (simp add: dirty_blocks_def c)
  qed
  then show "dirty_blocks t = (if b_dirty x then insert n (dirty_blocks s) else dirty_blocks s - {n})"
    by (intro set_eqI) simp
qed

lemma bwrite_eq:
  assumes ok: "cache_ok p H xs s" and b: "b \<in> H" "blockno (bufs s b) < disksize s"
  shows "bwrite b s = Ok () (touch (upd_buf b (\<lambda>x. x\<lparr>b_dirty := False, b_valid := True\<rparr>)
    (s\<lparr>disk := (disk s)(blockno (bufs s b) := bdata (bufs s b)),
       dwrites := dwrites s @ [(blockno (bufs s b), bdata (bufs s b))]\<rparr>)))"
proof -
  note D = cache_okD [OF ok]
  have d: "dev (bufs s b) = 1"
    using ok b D(3,4,7) cache_invD(5) [of p H xs s b] unfolding cache_ok_def by blast
  let ?s = "touch (upd_buf b (\<lambda>x. x\<lparr>b_dirty := True\<rparr>) s)"
  have "iderw b ?s = Ok () (touch (upd_buf b (\<lambda>x. x\<lparr>b_dirty := False, b_valid := True\<rparr>)
    (?s\<lparr>disk := (disk ?s)(blockno (bufs ?s b) := bdata (bufs ?s b)),
       dwrites := dwrites ?s @ [(blockno (bufs ?s b), bdata (bufs ?s b))]\<rparr>)))"
    by (rule iderw_write [of p]) (use D(1) D(8) [OF b(1)] b(2) d in simp_all)
  then show ?thesis
    using D(1) kern_okD(1) [OF D(1)] D(8) [OF b(1)]
    by (simp add: bwrite_def holdingsleep_eq [of p] upd_buf_def)
qed

definition set_data :: "nat \<Rightarrow> block \<Rightarrow> 'a kbuf_scheme \<Rightarrow> 'a kbuf_scheme" where
  "set_data b x s = upd_buf b (\<lambda>y. y\<lparr>bdata := x\<rparr>) s"

definition cache :: "nat \<Rightarrow> nat set \<Rightarrow> 'a kbuf_scheme \<Rightarrow> bool" where
  "cache p H s \<longleftrightarrow> (\<exists>xs. cache_ok p H xs s)"

lemma cache_clean:
  assumes "cache p H s" "\<forall>b \<in> H. blockno (bufs s b) \<noteq> n"
  shows "n \<in> dirty_blocks s \<or> blk s n = disk s n"
proof (rule disjCI)
  assume d: "blk s n \<noteq> disk s n"
  obtain xs where inv: "cache_inv p H xs s" using assms(1) by (auto simp: cache_def cache_ok_def)
  show "n \<in> dirty_blocks s"
  proof (rule ccontr)
    assume "n \<notin> dirty_blocks s"
    then have "bdata (bufs s b) = disk s n" if "cached s n b" for b
      using that cache_invD(8) [OF inv that] assms(2) by (auto simp: dirty_blocks_def cached_def)
    then show False using d blk_eqI [OF inv] by metis
  qed
qed

lemma bwrite_spec:
  assumes "cache p H s" "b \<in> H" "blockno (bufs s b) < disksize s"
  shows "returns (bwrite b s) (\<lambda>_ t. cache p H t \<and> blk t = blk s
    \<and> disk t = (disk s)(blockno (bufs s b) := bdata (bufs s b))
    \<and> dwrites t = dwrites s @ [(blockno (bufs s b), bdata (bufs s b))]
    \<and> dirty_blocks t = dirty_blocks s - {blockno (bufs s b)} \<and> bio_frame s t
    \<and> (\<lambda>b. bdata (bufs t b)) = (\<lambda>b. bdata (bufs s b)) \<and> (\<lambda>b. blockno (bufs t b)) = (\<lambda>b. blockno (bufs s b)))"
proof -
  obtain xs where ok: "cache_ok p H xs s" using assms(1) by (auto simp: cache_def)
  then have inv: "cache_inv p H xs s" by (simp add: cache_ok_def)
  note D = cache_okD [OF ok]
  let ?n = "blockno (bufs s b)"
  let ?t = "touch (upd_buf b (\<lambda>x. x\<lparr>b_dirty := False, b_valid := True\<rparr>)
    (s\<lparr>disk := (disk s)(?n := bdata (bufs s b)), dwrites := dwrites s @ [(?n, bdata (bufs s b))]\<rparr>))"
  have g: "cache_inv p H xs ?t" "blk ?t = (blk s)(?n := bdata (bufs ?t b))"
    "dirty_blocks ?t = (if b_dirty (bufs ?t b) then insert ?n (dirty_blocks s) else dirty_blocks s - {?n})"
    by (rule held_mod [OF inv assms(2), of ?n ?t "bufs ?t b"]; simp)+
  have "cached s ?n b" using assms(2) D(3,4,7) cache_invD(5) [OF inv, of b] by (auto simp: cached_def)
  then have "blk s ?n = bdata (bufs s b)" by (rule blk_cachedI [OF inv])
  then have "blk ?t = blk s" using g(2) by auto
  moreover have "kern_ok p ?t" using D(1) by simp
  moreover have "bio_frame s ?t" by (simp add: bio_frame_def)
  moreover have "(\<lambda>b. bdata (bufs ?t b)) = (\<lambda>b. bdata (bufs s b))" "(\<lambda>b. blockno (bufs ?t b)) = (\<lambda>b. blockno (bufs s b))"
    by auto
  ultimately show ?thesis
    using g bwrite_eq [OF ok assms(2,3)] by (auto simp: cache_def cache_ok_def)
qed

lemma set_data_spec:
  assumes "cache p H s" "b \<in> H"
  shows "cache p H (set_data b x s)" "blk (set_data b x s) = (blk s)(blockno (bufs s b) := x)"
    "dirty_blocks (set_data b x s) = dirty_blocks s" "bio_frame s (set_data b x s)"
proof -
  obtain xs where ok: "cache_ok p H xs s" using assms(1) by (auto simp: cache_def)
  then have inv: "cache_inv p H xs s" by (simp add: cache_ok_def)
  note D = cache_okD [OF ok]
  let ?n = "blockno (bufs s b)" and ?t = "set_data b x s"
  have g: "cache_inv p H xs ?t" "blk ?t = (blk s)(?n := bdata (bufs ?t b))"
    "dirty_blocks ?t = (if b_dirty (bufs ?t b) then insert ?n (dirty_blocks s) else dirty_blocks s - {?n})"
    by (rule held_mod [OF inv assms(2), of ?n ?t "bufs ?t b"]; use D(7) [OF assms(2)] in \<open>simp add: set_data_def\<close>)+
  have c: "cached s ?n b" using assms(2) D(3,4,7) cache_invD(5) [OF inv, of b] by (auto simp: cached_def)
  have "?n \<in> dirty_blocks s \<longleftrightarrow> b_dirty (bufs s b)"
    using c cache_invD(7) [OF inv c] unfolding dirty_blocks_def by blast
  then show "dirty_blocks ?t = dirty_blocks s" using g(3) by (auto simp: set_data_def)
  show "blk ?t = (blk s)(?n := x)" using g(2) by (simp add: set_data_def)
  show "cache p H ?t" using g(1) D(1) by (auto simp: cache_def cache_ok_def set_data_def)
  show "bio_frame s ?t" by (simp add: bio_frame_def set_data_def)
qed

lemma mark_dirty_spec:
  assumes "cache p H s" "b \<in> H" "t = upd_buf b (\<lambda>y. y\<lparr>b_dirty := True\<rparr>) s"
  shows "cache p H t" "blk t = blk s" "dirty_blocks t = insert (blockno (bufs s b)) (dirty_blocks s)" "bio_frame s t"
proof -
  obtain xs where ok: "cache_ok p H xs s" using assms(1) by (auto simp: cache_def)
  then have inv: "cache_inv p H xs s" by (simp add: cache_ok_def)
  note D = cache_okD [OF ok]
  let ?n = "blockno (bufs s b)"
  have g: "cache_inv p H xs t" "blk t = (blk s)(?n := bdata (bufs t b))"
    "dirty_blocks t = (if b_dirty (bufs t b) then insert ?n (dirty_blocks s) else dirty_blocks s - {?n})"
    by (rule held_mod [OF inv assms(2), of ?n t "bufs t b"]; use D(7) [OF assms(2)] in \<open>simp add: assms(3)\<close>)+
  have c: "cached s ?n b" using assms(2) D(3,4,7) cache_invD(5) [OF inv, of b] by (auto simp: cached_def)
  show "blk t = blk s" using g(2) blk_cachedI [OF inv c] by (auto simp: assms(3))
  show "dirty_blocks t = insert ?n (dirty_blocks s)" using g(3) by (simp add: assms(3))
  show "cache p H t" using g(1) D(1) by (auto simp: cache_def cache_ok_def assms(3))
  show "bio_frame s t" by (simp add: bio_frame_def assms(3))
qed

text \<open>The buffer cache keeps the contract of a block cache.\<close>

interpretation bc: block_cache "cache p" bio_frame "\<lambda>s b. bdata (bufs s b)" "\<lambda>s b. blockno (bufs s b)" blk disk
    dirty_blocks dwrites disksize NBUF "bread 1" bwrite brelse set_data for p
proof (unfold_locales, goal_cases)
  case (1 s t u)
  then show ?case by (rule bio.trans)
next
  case (2 s t)
  then show ?case by (simp add: bio_frame_def)
next
  case (3 H s)
  then obtain xs where "cache_ok p H xs s" by (auto simp: cache_def)
  then have "H \<subseteq> {..<NBUF}" by (rule cache_okD(4))
  then show ?case by (rule finite_subset) simp
next
  case (4 H s n)
  then show ?case by (rule cache_clean)
next
  case (5 H s n)
  then obtain xs where ok: "cache_ok p H xs s" by (auto simp: cache_def)
  show ?case
    by (rule returns_mono [OF bread_spec [OF ok]]) (use 5 in \<open>auto simp: bread_post_def cache_def\<close>)
next
  case (6 H s b x)
  then show ?case using set_data_spec [OF 6] by (auto simp: set_data_def)
next
  case (7 H s b)
  then show ?case by (rule bwrite_spec)
next
  case (8 H s b)
  then obtain xs where ok: "cache_ok p H xs s" by (auto simp: cache_def)
  have "b_dirty (bufs s b) \<or> bdata (bufs s b) = disk s (blockno (bufs s b))"
  proof (rule disjCI)
    assume "bdata (bufs s b) \<noteq> disk s (blockno (bufs s b))"
    with 8(3) obtain c where c: "cached s (blockno (bufs s b)) c" "b_dirty (bufs s c)"
      by (auto simp: dirty_blocks_def)
    have inv: "cache_inv p H xs s" using ok by (simp add: cache_ok_def)
    have "cached s (blockno (bufs s b)) b"
      using 8(2) cache_okD(3,4,7) [OF ok] cache_invD(5) [OF inv, of b] by (auto simp: cached_def)
    then show "b_dirty (bufs s b)" using c cache_invD(7) [OF inv] by metis
  qed
  then show ?case
    by (intro returns_mono [OF brelse_spec [OF ok 8(2)]]) (auto simp: brelse_post_def cache_def same_block_def)
qed

section \<open>Starting up\<close>

lemma initsl_fields [simp]:
  "bufs (initsleeplock l s) = bufs s" "disk (initsleeplock l s) = disk s" "bufs (initlock l s) = bufs s"
  "disk (initlock l s) = disk s" "sleeplocks (initlock l s) = sleeplocks s"
  "sleeplocks (initsleeplock l s) = (sleeplocks s)(l := \<lparr>sl_locked = 0, sl_pid = 0\<rparr>)"
  by (simp_all add: initsleeplock_def initlock_def upd_sl_def)

lemma binit_steps:
  assumes "k \<le> NBUF" "blist s []"
  defines "t \<equiv> fold (\<lambda>b s. push_front b (initsleeplock (LkBuf b) s)) [0..<k] s"
  shows "blist t (rev [0..<k]) \<and> (\<forall>c. same_but_links (bufs s c) (bufs t c)) \<and> disk t = disk s
    \<and> (\<forall>c < k. sleeplocks t (LkBuf c) = \<lparr>sl_locked = 0, sl_pid = 0\<rparr>)"
  using assms(1) unfolding t_def
proof (induction k)
  case 0
  then show ?case using assms(2) by (simp add: same_but_links_def)
next
  case (Suc k)
  let ?t = "fold (\<lambda>b s. push_front b (initsleeplock (LkBuf b) s)) [0..<k] s"
  have bl: "blist (initsleeplock (LkBuf k) ?t) (rev [0..<k])"
    using Suc by (subst blist_cong [of _ ?t]) simp_all
  have "blist (push_front k (initsleeplock (LkBuf k) ?t)) (k # rev [0..<k])"
    by (rule blist_push [OF bl]) (use Suc.prems in simp_all)
  moreover have "same_but_links (bufs s c) (bufs (push_front k (initsleeplock (LkBuf k) ?t)) c)" for c
    using Suc same_but_links_trans [OF _ relink_frame(1) [of "initsleeplock (LkBuf k) ?t" c k], of "bufs s c"] by simp
  ultimately show ?case using Suc by (simp add: less_Suc_eq)
qed

lemma binit_fields:
  "b < NBUF \<Longrightarrow> same_block (bufs s b) (bufs (binit s) b) \<and> refcnt (bufs (binit s) b) = refcnt (bufs s b)"
proof -
  assume b: "b < NBUF"
  let ?s = "upd_buf NBUF (\<lambda>x. x\<lparr>bprev := NBUF, bnext := NBUF\<rparr>) (initlock LkBcache s)"
  have "blist ?s []" by (simp add: blist_def)
  from binit_steps [OF order_refl this] have "same_but_links (bufs ?s b) (bufs (binit s) b)"
    by (auto simp: binit_def)
  then show ?thesis using b by (auto dest: same_but_linksD)
qed

lemma binit_inv:
  assumes "\<And>b. b < NBUF \<Longrightarrow> dev (bufs s b) = 0 \<and> refcnt (bufs s b) = 0 \<and> \<not> b_valid (bufs s b) \<and> \<not> b_dirty (bufs s b)"
  shows "cache_inv p {} (rev [0..<NBUF]) (binit s)" "blk (binit s) = disk s" "dirty_blocks (binit s) = {}"
proof -
  let ?s = "upd_buf NBUF (\<lambda>x. x\<lparr>bprev := NBUF, bnext := NBUF\<rparr>) (initlock LkBcache s)"
  have "blist ?s []" by (simp add: blist_def)
  from binit_steps [OF order_refl this] have
    t: "blist (binit s) (rev [0..<NBUF])" "\<And>c. same_but_links (bufs ?s c) (bufs (binit s) c)" "disk (binit s) = disk s"
    "\<And>c. c < NBUF \<Longrightarrow> sleeplocks (binit s) (LkBuf c) = \<lparr>sl_locked = 0, sl_pid = 0\<rparr>"
    by (auto simp: binit_def)
  have f: "dev (bufs (binit s) b) = 0 \<and> refcnt (bufs (binit s) b) = 0 \<and> \<not> b_valid (bufs (binit s) b) \<and> \<not> b_dirty (bufs (binit s) b)"
    if "b < NBUF" for b
    using assms [OF that] same_but_linksD [OF t(2) [of b]] that by (auto simp: same_block_def)
  have nc: "\<not> cached (binit s) n b" for n b using f [of b] by (auto simp: cached_def)
  show "cache_inv p {} (rev [0..<NBUF]) (binit s)"
  proof (rule cache_invI)
    show "buf_owned p {} (binit s) b" if "b < NBUF" for b
      using f [OF that] t(4) [OF that] by (simp add: buf_owned_def)
    show "b_valid (bufs (binit s) b) \<longleftrightarrow> dev (bufs (binit s) b) = 1" if "b < NBUF" for b
      using f [OF that] by simp
  qed (use t(1) f nc in \<open>auto\<close>)
  show "blk (binit s) = disk s" using blk_uncached [OF nc] t(3) by auto
  show "dirty_blocks (binit s) = {}" using nc by (simp add: dirty_blocks_def)
qed

section \<open>Properties\<close>

definition kbuf0 :: kbuf where
  "kbuf0 = kproc.extend kproc0 (ksleep_ext (\<lambda>_. \<lparr>sl_locked = 0, sl_pid = 0\<rparr>)
     (kbuf_ext (\<lambda>_. \<lparr>b_valid = False, b_dirty = False, dev = 0, blockno = 0, refcnt = 0, bprev = 0, bnext = 0, bdata = (\<lambda>_. 0)\<rparr>)
       (\<lambda>n i. if i = 0 then ucast n else 0) 1000 [] ()))"

lemma initlock_kern [simp]: "kern_ok p s \<Longrightarrow> kern_ok p (initlock l s)"
  by (auto simp: kern_ok_def initlock_def mach_ok_def curcpu_def lk_free_def)

lemma disksize_init [simp]: "disksize (initlock l s) = disksize s" "disksize (initsleeplock l s) = disksize s"
  by (simp_all add: initsleeplock_def) (simp_all add: initlock_def)

lemma initsleeplock_kern [simp]: "kern_ok p s \<Longrightarrow> kern_ok p (initsleeplock l s)"
  by (simp add: initsleeplock_def)

lemma binit_kern:
  assumes "kern_ok p s"
  shows "kern_ok p (binit s) \<and> disksize (binit s) = disksize s"
proof -
  have "kern_ok p (fold (\<lambda>b s. push_front b (initsleeplock (LkBuf b) s)) xs t)
    \<and> disksize (fold (\<lambda>b s. push_front b (initsleeplock (LkBuf b) s)) xs t) = disksize t"
    if "kern_ok p t" for xs and t :: "'a kbuf_scheme"
    using that by (induction xs arbitrary: t) simp_all
  then show ?thesis using assms by (simp add: binit_def Let_def)
qed

lemma kbuf0_ok: "cache_ok 0 {} (rev [0..<NBUF]) (binit kbuf0)" "disksize (binit kbuf0) = 1000"
  "blk (binit kbuf0) = disk kbuf0" "dirty_blocks (binit kbuf0) = {}"
proof -
  have "mach_ok kbuf0" "curcpu kbuf0 = 1"
    using kproc0_ok(1,3) by (simp_all add: kbuf0_def kproc.defs mach_ok_def curcpu_def kproc0_def)
  then have k: "kern_ok 0 kbuf0"
    by (simp add: kern_ok_def lk_free_def) (simp add: kbuf0_def kproc.defs kproc0_def)
  have z: "dev (bufs kbuf0 b) = 0 \<and> refcnt (bufs kbuf0 b) = 0 \<and> \<not> b_valid (bufs kbuf0 b) \<and> \<not> b_dirty (bufs kbuf0 b)" for b
    by (simp add: kbuf0_def kproc.defs)
  show "cache_ok 0 {} (rev [0..<NBUF]) (binit kbuf0)" "blk (binit kbuf0) = disk kbuf0" "dirty_blocks (binit kbuf0) = {}"
    using binit_inv [OF z] binit_kern [OF k] by (auto simp: cache_ok_def)
  show "disksize (binit kbuf0) = 1000" using binit_kern [OF k] by (simp add: kbuf0_def kproc.defs)
qed

text \<open>C15: \<open>bread\<close>. As long as the buffers in use and the blocks waiting to be written leave one
  buffer to recycle, \<open>bread\<close> returns a locked buffer not yet in use that holds the current contents of the
  block: the cached ones if the block is cached, else those on disk. No reader of any block can
  tell the difference, whichever buffer was recycled, and nothing is written to the disk.\<close>

theorem bread_returns_block:
  assumes "cache p H s" "n < disksize s" "\<forall>b \<in> H. blockno (bufs s b) \<noteq> n" "card H + card (dirty_blocks s) < NBUF"
  shows "\<exists>b t. bread 1 n s = Ok b t \<and> b \<notin> H \<and> cache p (insert b H) t \<and> blockno (bufs t b) = n
    \<and> bdata (bufs t b) = blk s n \<and> blk t = blk s \<and> disk t = disk s \<and> dirty_blocks t = dirty_blocks s
    \<and> (\<forall>c \<in> H. bdata (bufs t c) = bdata (bufs s c) \<and> blockno (bufs t c) = blockno (bufs s c))"
  using bc.rd [OF assms] by (auto simp: returns_iff)

theorem bread_returns_block_witness:
  "\<exists>b t. bread 1 7 (binit kbuf0) = Ok b t \<and> blockno (bufs t b) = 7 \<and> bdata (bufs t b) 0 = 7 \<and> cache 0 {b} t"
proof -
  have c: "cache 0 {} (binit kbuf0)" using kbuf0_ok(1) by (auto simp: cache_def)
  have "disk kbuf0 7 0 = 7" by (simp add: kbuf0_def kproc.defs)
  then show ?thesis
    using bread_returns_block [OF c, of 7] kbuf0_ok(2-4) by (auto simp: NBUF_def)
qed

text \<open>C16: the recycling order. The doubly linked list of buffers is a list from the most to the
  least recently released: \<open>brelse\<close> of the last user moves a buffer to its front, and a \<open>bread\<close> of a
  block that is not cached takes over the last buffer of the list that nobody uses and that
  needs no write back.\<close>

theorem lru_replacement:
  assumes "cache_ok p H xs s"
  shows "(\<forall>b \<in> H. blockno (bufs s b) \<in> dirty_blocks s \<or> bdata (bufs s b) = disk s (blockno (bufs s b)) \<longrightarrow>
      (\<exists>t. brelse b s = Ok () t \<and> cache_ok p (H - {b}) (b # remove1 b xs) t))
    \<and> (\<forall>n v. n < disksize s \<longrightarrow> (\<forall>b. \<not> cached s n b) \<longrightarrow>
      find (\<lambda>b. refcnt (bufs s b) = 0 \<and> \<not> b_dirty (bufs s b)) (rev xs) = Some v \<longrightarrow>
      (\<exists>t. bread 1 n s = Ok v t))"
proof (intro conjI ballI allI impI)
  fix b assume b: "b \<in> H" "blockno (bufs s b) \<in> dirty_blocks s \<or> bdata (bufs s b) = disk s (blockno (bufs s b))"
  have inv: "cache_inv p H xs s" using assms by (simp add: cache_ok_def)
  have "cached s (blockno (bufs s b)) b"
    using b(1) cache_okD(3,4,7) [OF assms] cache_invD(5) [OF inv, of b] by (auto simp: cached_def)
  then have "b_dirty (bufs s b) \<or> bdata (bufs s b) = disk s (blockno (bufs s b))"
    using b(2) cache_invD(7) [OF inv] unfolding dirty_blocks_def by blast
  from brelse_spec [OF assms b(1) this] show "\<exists>t. brelse b s = Ok () t \<and> cache_ok p (H - {b}) (b # remove1 b xs) t"
    by (auto simp: returns_iff brelse_post_def)
next
  fix n v assume "n < disksize s" "\<forall>b. \<not> cached s n b"
    "find (\<lambda>b. refcnt (bufs s b) = 0 \<and> \<not> b_dirty (bufs s b)) (rev xs) = Some v"
  then show "\<exists>t. bread 1 n s = Ok v t" using bread_miss [OF assms, of n v] by blast
qed

theorem lru_replacement_witness: "\<exists>t. bread 1 5 (binit kbuf0) = Ok 0 t"
proof -
  note D = cache_okD [OF kbuf0_ok(1)] and I = kbuf0_ok(1) [unfolded cache_ok_def, THEN conjunct2]
  have z: "dev (bufs (binit kbuf0) b) = 0 \<and> refcnt (bufs (binit kbuf0) b) = 0 \<and> \<not> b_dirty (bufs (binit kbuf0) b)"
    if "b < NBUF" for b
  proof -
    have "bufs kbuf0 b = \<lparr>b_valid = False, b_dirty = False, dev = 0, blockno = 0, refcnt = 0, bprev = 0, bnext = 0, bdata = (\<lambda>_. 0)\<rparr>"
      by (simp add: kbuf0_def kproc.defs)
    then show ?thesis using binit_fields [of b kbuf0] that by (auto simp: same_block_def)
  qed
  then have "\<forall>b. \<not> cached (binit kbuf0) 5 b" by (auto simp: cached_def)
  moreover have "rev (rev [0..<NBUF]) = 0 # [1..<NBUF]" by (simp add: NBUF_def upt_conv_Cons)
  then have "find (\<lambda>b. refcnt (bufs (binit kbuf0) b) = 0 \<and> \<not> b_dirty (bufs (binit kbuf0) b)) (rev (rev [0..<NBUF])) = Some 0"
    using z [of 0] by (simp add: NBUF_def)
  ultimately show ?thesis
    using lru_replacement [OF kbuf0_ok(1), THEN conjunct2, THEN spec [of _ 5], THEN spec [of _ 0]] kbuf0_ok(2) by simp
qed

text \<open>C17: running out of buffers. If the block is not cached and every buffer is in use or dirty,
  \<open>bget\<close> has nothing to recycle and the kernel panics. With \<open>NBUF = LOGSIZE = 30\<close> a full log pins
  every buffer of the cache, so that the commit that should write it cannot even read a log
  block.\<close>

theorem bread_no_buffers:
  assumes "cache_ok p H xs s" "\<forall>b. \<not> cached s n b" "\<forall>b < NBUF. b \<in> H \<or> b_dirty (bufs s b)"
  shows "bread 1 n s = Panic ''bget: no buffers''"
proof -
  note D = cache_okD [OF assms(1)]
  have f: "find (\<lambda>b. dev (bufs s b) = 1 \<and> blockno (bufs s b) = n) xs = None"
    using find_None_cached [OF D(3)] assms(2) by blast
  have "find (\<lambda>b. refcnt (bufs s b) = 0 \<and> \<not> b_dirty (bufs s b)) (rev xs) = None"
    using assms(3) D(3,6) by (auto simp: find_None_iff)
  then have sp: "scan_prev NBUF (\<lambda>x. refcnt x = 0 \<and> \<not> b_dirty x) (bprev (bufs s NBUF)) (lock_st LkBcache s)
      = Ok None (lock_st LkBcache s)"
    using scan_prev_eq [of "lock_st LkBcache s" xs NBUF NBUF] D(2,5) by (simp add: blist_def)
  have sc: "scan_next NBUF (\<lambda>x. dev x = 1 \<and> blockno x = n) (bnext (bufs s NBUF)) (lock_st LkBcache s)
      = Ok None (lock_st LkBcache s)"
    using scan_next_eq [of "lock_st LkBcache s" NBUF xs NBUF] D(2,5) f by (simp add: blist_def)
  show ?thesis using D(1) kern_okD [OF D(1)] sc sp by (simp add: bread_def bget_def kern Let_def)
qed

definition full_cache :: kbuf where
  "full_cache = (binit kbuf0)\<lparr>bufs := \<lambda>b. (bufs (binit kbuf0) b)\<lparr>b_valid := True, b_dirty := True, dev := 1, blockno := of_nat b\<rparr>\<rparr>"

lemma full_cache_ok: "cache_ok 0 {} (rev [0..<NBUF]) full_cache" "cached full_cache n b \<longleftrightarrow> b < NBUF \<and> n = of_nat b"
proof -
  note I = kbuf0_ok(1) [unfolded cache_ok_def, THEN conjunct2]
  show c: "cached full_cache n b \<longleftrightarrow> b < NBUF \<and> n = of_nat b" for n b
    by (auto simp: cached_def full_cache_def)
  have "cache_inv 0 {} (rev [0..<NBUF]) full_cache"
  proof (rule cache_invI)
    show "blist full_cache (rev [0..<NBUF])" using cache_invD(1) [OF I] by (simp add: blist_def full_cache_def)
    show "buf_owned 0 {} full_cache b" if "b < NBUF" for b
      using cache_invD(4) [OF I that] by (simp add: buf_owned_def full_cache_def)
    show "b = d" if "cached full_cache n b" "cached full_cache n d" for n b d
    proof -
      have "of_nat b = (of_nat d :: u32)" "b < NBUF" "d < NBUF" using that by (auto simp: c)
      then have "unat (of_nat b :: u32) = unat (of_nat d :: u32)" "b < 4294967296" "d < 4294967296"
        by (simp_all add: NBUF_def)
      then show ?thesis by (simp only: unat_of_nat32)
    qed
  qed (auto simp: full_cache_def)
  moreover have "kern_ok 0 full_cache" using cache_okD(1) [OF kbuf0_ok(1)] by (simp add: full_cache_def)
  ultimately show "cache_ok 0 {} (rev [0..<NBUF]) full_cache" by (simp add: cache_ok_def)
qed

theorem bread_no_buffers_witness: "bread 1 500 full_cache = Panic ''bget: no buffers''"
proof (rule bread_no_buffers [OF full_cache_ok(1)])
  have "(500 :: u32) \<noteq> of_nat b" if "b < NBUF" for b
  proof
    assume "(500 :: u32) = of_nat b"
    then have "unat (500 :: u32) = unat (of_nat b :: u32)" by simp
    then show False using that unat_of_nat32 [of b] by (simp add: NBUF_def)
  qed
  then show "\<forall>b. \<not> cached full_cache 500 b" by (simp add: full_cache_ok(2))
  show "\<forall>b < NBUF. b \<in> {} \<or> b_dirty (bufs full_cache b)" by (simp add: full_cache_def)
qed

end
