(* ===== verification/Log.thy ===== *)
theory Log
  imports Bio
begin

text \<open>
  The write-ahead log of xv6, \<open>src/my-xv6-public/log.c\<close>: system calls group their block writes in
  a transaction, which is copied to the log, committed by writing the log header, and then
  installed. The super block and \<open>readsb\<close> of \<open>fs.c\<close>, which \<open>initlog\<close> needs, are here too.
\<close>

section \<open>State\<close>

definition MAXOPBLOCKS :: nat where "MAXOPBLOCKS = 10"
definition LOGSIZE :: nat where "LOGSIZE = MAXOPBLOCKS * 3"

record superblock =
  sb_size :: u32
  nblocks :: u32
  ninodes :: u32
  nlog :: u32
  logstart :: u32
  inodestart :: u32
  bmapstart :: u32

text \<open>\<open>struct log\<close> with its \<open>struct logheader\<close>: \<open>lh_n\<close> and \<open>lh_block\<close> are \<open>lh.n\<close> and \<open>lh.block\<close>.\<close>

record klog = kbuf +
  lg_start :: u32
  lg_size :: int
  outstanding :: int
  committing :: bool
  lg_dev :: u32
  lh_n :: int
  lh_block :: "nat \<Rightarrow> u32"

section \<open>Operations\<close>

definition readsb :: "u32 \<Rightarrow> 'a kbuf_scheme \<Rightarrow> (superblock, 'a kbuf_scheme) res" where
  "readsb d s = bind (bread d 1 s) (\<lambda>bp s.
     let x = bdata (bufs s bp);
         sb = \<lparr>sb_size = get32 x 0, nblocks = get32 x 4, ninodes = get32 x 8, nlog = get32 x 12,
               logstart = get32 x 16, inodestart = get32 x 20, bmapstart = get32 x 24\<rparr> in
     bind (brelse bp s) (\<lambda>_ s. Ok sb s))"

subsection \<open>Copying between the log and the home locations\<close>

definition install_step :: "nat \<Rightarrow> 'a klog_scheme \<Rightarrow> (unit, 'a klog_scheme) res" where
  "install_step tail s =
     bind (bread (lg_dev s) (lg_start s + of_nat tail + 1) s) (\<lambda>lbuf s.
     bind (bread (lg_dev s) (lh_block s tail) s) (\<lambda>dbuf s.
     bind (bwrite dbuf (set_data dbuf (bdata (bufs s lbuf)) s)) (\<lambda>_ s.
     bind (brelse lbuf s) (\<lambda>_ s. brelse dbuf s))))"

primrec install_loop :: "nat \<Rightarrow> nat \<Rightarrow> 'a klog_scheme \<Rightarrow> (unit, 'a klog_scheme) res" where
  "install_loop 0 tail s = Ok () s"
| "install_loop (Suc m) tail s = bind (install_step tail s) (\<lambda>_ s. install_loop m (Suc tail) s)"

definition install_trans :: "'a klog_scheme \<Rightarrow> (unit, 'a klog_scheme) res" where
  "install_trans s = install_loop (nat (lh_n s)) 0 s"

definition write_log_step :: "nat \<Rightarrow> 'a klog_scheme \<Rightarrow> (unit, 'a klog_scheme) res" where
  "write_log_step tail s =
     bind (bread (lg_dev s) (lg_start s + of_nat tail + 1) s) (\<lambda>to s.
     bind (bread (lg_dev s) (lh_block s tail) s) (\<lambda>from s.
     bind (bwrite to (set_data to (bdata (bufs s from)) s)) (\<lambda>_ s.
     bind (brelse from s) (\<lambda>_ s. brelse to s))))"

primrec write_log_loop :: "nat \<Rightarrow> nat \<Rightarrow> 'a klog_scheme \<Rightarrow> (unit, 'a klog_scheme) res" where
  "write_log_loop 0 tail s = Ok () s"
| "write_log_loop (Suc m) tail s = bind (write_log_step tail s) (\<lambda>_ s. write_log_loop m (Suc tail) s)"

definition write_log :: "'a klog_scheme \<Rightarrow> (unit, 'a klog_scheme) res" where
  "write_log s = write_log_loop (nat (lh_n s)) 0 s"

subsection \<open>The header\<close>

text \<open>
  \<open>read_head\<close> copies \<open>n\<close> entries; a header with more than \<open>LOGSIZE\<close> of them makes it store past
  the end of \<open>lh.block\<close>.
\<close>

definition read_head :: "'a klog_scheme \<Rightarrow> (unit, 'a klog_scheme) res" where
  "read_head s = bind (bread (lg_dev s) (lg_start s) s) (\<lambda>b s.
     let x = bdata (bufs s b); s = s\<lparr>lh_n := sint (get32 x 0)\<rparr> in
     if lh_n s > int LOGSIZE then Fault
     else
       let s = s\<lparr>lh_block := fold (\<lambda>i f. f(i := get32 x (4 + 4 * i))) [0..<nat (lh_n s)] (lh_block s)\<rparr> in
       brelse b s)"

definition head_block :: "int \<Rightarrow> (nat \<Rightarrow> u32) \<Rightarrow> block \<Rightarrow> block" where
  "head_block n f x = fold (\<lambda>i x. put32 (4 + 4 * i) (f i) x) [0..<nat n] (put32 0 (of_int n) x)"

definition write_head :: "'a klog_scheme \<Rightarrow> (unit, 'a klog_scheme) res" where
  "write_head s = bind (bread (lg_dev s) (lg_start s) s) (\<lambda>b s.
     let s = set_data b (head_block (lh_n s) (lh_block s) (bdata (bufs s b))) s in
     bind (bwrite b s) (\<lambda>_ s. brelse b s))"

definition recover_from_log :: "'a klog_scheme \<Rightarrow> (unit, 'a klog_scheme) res" where
  "recover_from_log s = bind (read_head s) (\<lambda>_ s. bind (install_trans s) (\<lambda>_ s.
     write_head (s\<lparr>lh_n := 0\<rparr>)))"

definition sizeof_logheader :: nat where "sizeof_logheader = 4 + 4 * LOGSIZE"

definition initlog :: "u32 \<Rightarrow> 'a klog_scheme \<Rightarrow> (unit, 'a klog_scheme) res" where
  "initlog d s =
    (if sizeof_logheader \<ge> BSIZE then Panic ''initlog: too big logheader''
     else bind (readsb d (initlock LkLog s)) (\<lambda>sb s.
       recover_from_log (s\<lparr>lg_start := logstart sb, lg_size := sint (nlog sb), lg_dev := d\<rparr>)))"

subsection \<open>Transactions\<close>

text \<open>
  The loop of \<open>begin_op\<close>, entered with the log locked. \<open>sleep\<close> ends the step; the process goes on
  in \<open>begin_op_resume\<close> when it is scheduled again.
\<close>

definition begin_op_loop :: "'a klog_scheme \<Rightarrow> (unit, 'a klog_scheme) res" where
  "begin_op_loop s =
    (if committing s then sleep ChLog LkLog s
     else if lh_n s + (outstanding s + 1) * int MAXOPBLOCKS > int LOGSIZE then sleep ChLog LkLog s
     else release LkLog (s\<lparr>outstanding := outstanding s + 1\<rparr>))"

definition begin_op :: "'a klog_scheme \<Rightarrow> (unit, 'a klog_scheme) res" where
  "begin_op s = bind (acquire LkLog s) (\<lambda>_ s. begin_op_loop s)"

definition begin_op_resume :: "nat \<Rightarrow> bool \<Rightarrow> 'a klog_scheme \<Rightarrow> (unit, 'a klog_scheme) res" where
  "begin_op_resume p ie s = bind (sleep_resume p LkLog ie s) (\<lambda>_ s. begin_op_loop s)"

definition commit :: "'a klog_scheme \<Rightarrow> (unit, 'a klog_scheme) res" where
  "commit s =
    (if lh_n s > 0
     then bind (write_log s) (\<lambda>_ s. bind (write_head s) (\<lambda>_ s. bind (install_trans s) (\<lambda>_ s.
       write_head (s\<lparr>lh_n := 0\<rparr>))))
     else Ok () s)"

definition end_op :: "'a klog_scheme \<Rightarrow> (unit, 'a klog_scheme) res" where
  "end_op s = bind (acquire LkLog s) (\<lambda>_ s.
     let s = s\<lparr>outstanding := outstanding s - 1\<rparr> in
     if committing s then Panic ''log.committing''
     else bind (if outstanding s = 0 then Ok True (s\<lparr>committing := True\<rparr>)
                else bind (wakeup ChLog s) (\<lambda>_ s. Ok False s)) (\<lambda>do_commit s.
       bind (release LkLog s) (\<lambda>_ s.
       if do_commit
       then bind (commit s) (\<lambda>_ s. bind (acquire LkLog s) (\<lambda>_ s.
         bind (wakeup ChLog (s\<lparr>committing := False\<rparr>)) (\<lambda>_ s. release LkLog s)))
       else Ok () s)))"

definition log_write :: "nat \<Rightarrow> 'a klog_scheme \<Rightarrow> (unit, 'a klog_scheme) res" where
  "log_write b s =
    (if lh_n s \<ge> int LOGSIZE \<or> lh_n s \<ge> lg_size s - 1 then Panic ''too big a transaction''
     else if outstanding s < 1 then Panic ''log_write outside of trans''
     else bind (acquire LkLog s) (\<lambda>_ s.
       let i = (case find (\<lambda>i. lh_block s i = blockno (bufs s b)) [0..<nat (lh_n s)] of
                  Some i \<Rightarrow> i | None \<Rightarrow> nat (lh_n s));
           s = s\<lparr>lh_block := (lh_block s)(i := blockno (bufs s b))\<rparr>;
           s = (if int i = lh_n s then s\<lparr>lh_n := lh_n s + 1\<rparr> else s);
           s = upd_buf b (\<lambda>x. x\<lparr>b_dirty := True\<rparr>) s in
       release LkLog s))"

section \<open>Lock states\<close>

lemma klog_lock_st [simp]:
  "lg_start (lock_st l s) = lg_start s" "lg_size (lock_st l s) = lg_size s"
  "outstanding (lock_st l s) = outstanding s" "committing (lock_st l s) = committing s"
  "lg_dev (lock_st l s) = lg_dev s" "lh_n (lock_st l s) = lh_n s"
  "lh_block (lock_st l s) = lh_block s"
  by (simp_all add: lock_st_def push_st_def)

lemma klog_touch [simp]:
  "lg_start (touch s) = lg_start s" "lg_size (touch s) = lg_size s"
  "outstanding (touch s) = outstanding s" "committing (touch s) = committing s"
  "lg_dev (touch s) = lg_dev s" "lh_n (touch s) = lh_n s" "lh_block (touch s) = lh_block s"
  by (simp_all add: touch_def)

lemma lock_st_klog [simp]:
  "(lock_st l s)\<lparr>lg_start := x1\<rparr> = lock_st l (s\<lparr>lg_start := x1\<rparr>)"
  "(lock_st l s)\<lparr>lg_size := x2\<rparr> = lock_st l (s\<lparr>lg_size := x2\<rparr>)"
  "(lock_st l s)\<lparr>outstanding := x3\<rparr> = lock_st l (s\<lparr>outstanding := x3\<rparr>)"
  "(lock_st l s)\<lparr>committing := x4\<rparr> = lock_st l (s\<lparr>committing := x4\<rparr>)"
  "(lock_st l s)\<lparr>lg_dev := x5\<rparr> = lock_st l (s\<lparr>lg_dev := x5\<rparr>)"
  "(lock_st l s)\<lparr>lh_n := x6\<rparr> = lock_st l (s\<lparr>lh_n := x6\<rparr>)"
  "(lock_st l s)\<lparr>lh_block := x7\<rparr> = lock_st l (s\<lparr>lh_block := x7\<rparr>)"
  by (simp_all add: lock_st_def push_st_def curcpu_def)

lemma touch_klog [simp]:
  "(touch s)\<lparr>lg_start := x1\<rparr> = touch (s\<lparr>lg_start := x1\<rparr>)"
  "(touch s)\<lparr>lg_size := x2\<rparr> = touch (s\<lparr>lg_size := x2\<rparr>)"
  "(touch s)\<lparr>outstanding := x3\<rparr> = touch (s\<lparr>outstanding := x3\<rparr>)"
  "(touch s)\<lparr>committing := x4\<rparr> = touch (s\<lparr>committing := x4\<rparr>)"
  "(touch s)\<lparr>lg_dev := x5\<rparr> = touch (s\<lparr>lg_dev := x5\<rparr>)"
  "(touch s)\<lparr>lh_n := x6\<rparr> = touch (s\<lparr>lh_n := x6\<rparr>)"
  "(touch s)\<lparr>lh_block := x7\<rparr> = touch (s\<lparr>lh_block := x7\<rparr>)"
  by (simp_all add: touch_def curcpu_def)

lemma mach_ok_klog [simp]:
  "mach_ok (s\<lparr>lg_start := x1\<rparr>) = mach_ok s"
  "mach_ok (s\<lparr>lg_size := x2\<rparr>) = mach_ok s"
  "mach_ok (s\<lparr>outstanding := x3\<rparr>) = mach_ok s"
  "mach_ok (s\<lparr>committing := x4\<rparr>) = mach_ok s"
  "mach_ok (s\<lparr>lg_dev := x5\<rparr>) = mach_ok s"
  "mach_ok (s\<lparr>lh_n := x6\<rparr>) = mach_ok s"
  "mach_ok (s\<lparr>lh_block := x7\<rparr>) = mach_ok s"
  "lk_free l (s\<lparr>lg_start := x1\<rparr>) = lk_free l s"
  "lk_free l (s\<lparr>lg_size := x2\<rparr>) = lk_free l s"
  "lk_free l (s\<lparr>outstanding := x3\<rparr>) = lk_free l s"
  "lk_free l (s\<lparr>committing := x4\<rparr>) = lk_free l s"
  "lk_free l (s\<lparr>lg_dev := x5\<rparr>) = lk_free l s"
  "lk_free l (s\<lparr>lh_n := x6\<rparr>) = lk_free l s"
  "lk_free l (s\<lparr>lh_block := x7\<rparr>) = lk_free l s"
  "curcpu (s\<lparr>lg_start := x1\<rparr>) = curcpu s"
  "curcpu (s\<lparr>lg_size := x2\<rparr>) = curcpu s"
  "curcpu (s\<lparr>outstanding := x3\<rparr>) = curcpu s"
  "curcpu (s\<lparr>committing := x4\<rparr>) = curcpu s"
  "curcpu (s\<lparr>lg_dev := x5\<rparr>) = curcpu s"
  "curcpu (s\<lparr>lh_n := x6\<rparr>) = curcpu s"
  "curcpu (s\<lparr>lh_block := x7\<rparr>) = curcpu s"
  by (simp_all add: mach_ok_def curcpu_def lk_free_def)


lemma kern_ok_klog [simp]:
  "kern_ok p (s\<lparr>lg_start := x1\<rparr>) = kern_ok p s" "kern_ok p (s\<lparr>lg_size := x2\<rparr>) = kern_ok p s"
  "kern_ok p (s\<lparr>outstanding := x3\<rparr>) = kern_ok p s" "kern_ok p (s\<lparr>committing := x4\<rparr>) = kern_ok p s"
  "kern_ok p (s\<lparr>lg_dev := x5\<rparr>) = kern_ok p s" "kern_ok p (s\<lparr>lh_n := x6\<rparr>) = kern_ok p s"
  "kern_ok p (s\<lparr>lh_block := x7\<rparr>) = kern_ok p s"
  by (simp_all add: kern_ok_def)

section \<open>The log over the block cache\<close>

text \<open>States that differ only outside the cache.\<close>

lemma view_cong:
  assumes "bufs t = bufs s" "disk t = disk s"
  shows "blk t = blk s" "dirty_blocks t = dirty_blocks s"
  unfolding blk_def [abs_def] dirty_blocks_def cached_def assms by (rule refl)+

lemma cache_cong:
  assumes "bufs t = bufs s" "disk t = disk s" "sleeplocks t = sleeplocks s" "procs t = procs s"
    "kern_ok p t = kern_ok p s"
  shows "cache p H t = cache p H s"
  using cache_inv_cong [OF assms(1-3), of p H] assms(4,5) by (simp add: cache_def cache_ok_def)

lemma klog_more:
  assumes "kbuf.more t = kbuf.more s"
  shows "lg_start t = lg_start s" "lg_size t = lg_size s" "outstanding t = outstanding s"
    "committing t = committing s" "lg_dev t = lg_dev s" "lh_n t = lh_n s" "lh_block t = lh_block s"
    "klog.more t = klog.more s"
  using assms by (cases s, cases t, simp)+

lemma bio_frame_log:
  assumes "bio_frame s t"
  shows "lg_start t = lg_start s" "lg_size t = lg_size s" "outstanding t = outstanding s"
    "committing t = committing s" "lg_dev t = lg_dev s" "lh_n t = lh_n s" "lh_block t = lh_block s"
    "klog.more t = klog.more s" "disksize t = disksize s"
  using klog_more [of t s] assms by (simp_all add: bio_frame_def)

lemma bio_frame_head: "bio_frame s t \<Longrightarrow> lg_dev t = lg_dev s \<and> lh_block t = lh_block s \<and> lh_n t = lh_n s"
  by (simp add: bio_frame_log)

text \<open>The blocks of the log, and a log whose layout on disk is sound.\<close>

definition log_blk :: "'a klog_scheme \<Rightarrow> nat \<Rightarrow> u32" where
  "log_blk s i = lg_start s + of_nat i + 1"

definition log_area :: "'a klog_scheme \<Rightarrow> u32 set" where
  "log_area s = {n. unat (lg_start s) \<le> unat n \<and> unat n < unat (lg_start s) + nat (lg_size s)}"

definition log_layout :: "'a klog_scheme \<Rightarrow> bool" where
  "log_layout s \<longleftrightarrow> lg_dev s = 1 \<and> 0 < lg_size s \<and> unat (lg_start s) + nat (lg_size s) \<le> unat (disksize s)"

lemma log_blk_unat:
  assumes "log_layout s" "i + 1 < nat (lg_size s)"
  shows "unat (log_blk s i) = unat (lg_start s) + i + 1"
proof -
  have "unat (lg_start s) + i + 1 < unat (disksize s)" using assms by (simp add: log_layout_def)
  also have "unat (disksize s) < 4294967296" using unsigned_less [of "disksize s", where 'a = nat] by simp
  finally have b: "unat (lg_start s) + i + 1 < 4294967296" .
  then have "unat (of_nat (i + 1) :: u32) = i + 1" by (intro unat_of_nat32) simp
  moreover have "log_blk s i = lg_start s + of_nat (i + 1)" by (simp add: log_blk_def add.assoc add.commute)
  ultimately show ?thesis using b by (simp only: unat_add_less)
qed

lemma log_blk_facts:
  assumes "log_layout s" "i + 1 < nat (lg_size s)"
  shows "log_blk s i \<in> log_area s" "log_blk s i < disksize s" "log_blk s i \<noteq> lg_start s"
    "j + 1 < nat (lg_size s) \<Longrightarrow> log_blk s i = log_blk s j \<longleftrightarrow> i = j"
proof -
  note u = log_blk_unat [OF assms]
  show "log_blk s i \<in> log_area s" using assms u by (simp add: log_area_def)
  show "log_blk s i < disksize s" using assms u by (simp add: log_layout_def word_less_nat_alt)
  show "log_blk s i \<noteq> lg_start s"
  proof
    assume "log_blk s i = lg_start s"
    then have "unat (log_blk s i) = unat (lg_start s)" by (rule arg_cong)
    then show False unfolding u by simp
  qed
  show "log_blk s i = log_blk s j \<longleftrightarrow> i = j" if "j + 1 < nat (lg_size s)"
  proof
    assume "log_blk s i = log_blk s j"
    then have "unat (log_blk s i) = unat (log_blk s j)" by (rule arg_cong)
    then show "i = j" unfolding u log_blk_unat [OF assms(1) that] by simp
  qed simp
qed

lemma lg_start_facts: "log_layout s \<Longrightarrow> lg_start s \<in> log_area s" "log_layout s \<Longrightarrow> lg_start s < disksize s"
  by (auto simp: log_layout_def log_area_def word_less_nat_alt)

text \<open>
  \<open>stepped p ws s t\<close>: from \<open>s\<close>, process \<open>p\<close> has written the blocks \<open>ws\<close> through to the disk, in this
  order, holds no buffer, and has changed nothing else.
\<close>

definition stepped :: "nat \<Rightarrow> (u32 \<times> block) list \<Rightarrow> 'a kbuf_scheme \<Rightarrow> 'a kbuf_scheme \<Rightarrow> bool" where
  "stepped p ws s t \<longleftrightarrow> cache p {} t \<and> bio_frame s t \<and> dwrites t = dwrites s @ ws
     \<and> disk t = apply_writes ws (disk s) \<and> blk t = apply_writes ws (blk s)
     \<and> dirty_blocks t = dirty_blocks s - fst ` set ws"

lemma stepped_trans: "stepped p ws s t \<Longrightarrow> stepped p vs t u \<Longrightarrow> stepped p (ws @ vs) s u"
  by (auto simp: stepped_def intro: bio.trans)

lemma stepped_refl: "cache p {} s \<Longrightarrow> stepped p [] s s"
  by (simp add: stepped_def)

lemma stepped_written: "bc.written p {} d x s t \<Longrightarrow> stepped p [(d, x)] s t"
  by (simp add: bc.written_def stepped_def)

lemma stepped_log:
  assumes "stepped p ws s t"
  shows "lg_start t = lg_start s" "lg_size t = lg_size s" "outstanding t = outstanding s"
    "committing t = committing s" "lg_dev t = lg_dev s" "lh_n t = lh_n s" "lh_block t = lh_block s"
    "klog.more t = klog.more s" "disksize t = disksize s"
    "log_blk t = log_blk s" "log_area t = log_area s" "log_layout t = log_layout s"
  using bio_frame_log [of s t] assms
  by (simp_all add: stepped_def log_blk_def [abs_def] log_area_def log_layout_def)

definition home_ok :: "'a klog_scheme \<Rightarrow> u32 \<Rightarrow> bool" where
  "home_ok s c \<longleftrightarrow> c < disksize s \<and> c \<notin> log_area s"

lemma home_not_log: "log_layout s \<Longrightarrow> home_ok s c \<Longrightarrow> i + 1 < nat (lg_size s) \<Longrightarrow> log_blk s i \<noteq> c"
  using log_blk_facts(1) by (auto simp: home_ok_def)

lemma write_log_step_spec:
  assumes "cache p {} s" "log_layout s" "i + 1 < nat (lg_size s)" "home_ok s (lh_block s i)"
    "card (dirty_blocks s) + 1 < NBUF"
  shows "returns (write_log_step i s) (\<lambda>_ t. stepped p [(log_blk s i, blk s (lh_block s i))] s t)"
proof -
  let ?d = "log_blk s i" and ?c = "lh_block s i"
  have d: "?d < disksize s" "?d \<noteq> ?c" "?c < disksize s" "lg_dev s = 1"
    using log_blk_facts(2) [OF assms(2,3)] home_not_log [OF assms(2,4,3)] assms(2,4)
    by (auto simp: home_ok_def log_layout_def)
  have "write_log_step i s = bind (bread 1 ?d s) (\<lambda>to s. bind (bread 1 ?c s) (\<lambda>from s.
      bind (bwrite to (set_data to (bdata (bufs s from)) s)) (\<lambda>_ s. bind (brelse from s) (\<lambda>_ s. brelse to s))))"
    unfolding write_log_step_def d(4) log_blk_def [symmetric]
    by (rule returns_bind_cong [OF bc.rd [OF assms(1) d(1)]]) (use assms(5) d(4) in \<open>auto dest: bio_frame_head\<close>)
  then show ?thesis
    using bc.copy_dst_first [OF assms(1) d(1,3,2)] assms(5) by (auto elim!: returns_mono intro: stepped_written)
qed

lemma install_step_spec:
  assumes "cache p {} s" "log_layout s" "i + 1 < nat (lg_size s)" "home_ok s (lh_block s i)"
    "card (dirty_blocks s) + 1 < NBUF"
  shows "returns (install_step i s) (\<lambda>_ t. stepped p [(lh_block s i, blk s (log_blk s i))] s t)"
proof -
  let ?c = "log_blk s i" and ?d = "lh_block s i"
  have d: "?c < disksize s" "?c \<noteq> ?d" "?d < disksize s" "lg_dev s = 1"
    using log_blk_facts(2) [OF assms(2,3)] home_not_log [OF assms(2,4,3)] assms(2,4)
    by (auto simp: home_ok_def log_layout_def)
  have "install_step i s = bind (bread 1 ?c s) (\<lambda>lbuf s. bind (bread 1 ?d s) (\<lambda>dbuf s.
      bind (bwrite dbuf (set_data dbuf (bdata (bufs s lbuf)) s)) (\<lambda>_ s. bind (brelse lbuf s) (\<lambda>_ s. brelse dbuf s))))"
    unfolding install_step_def d(4) log_blk_def [symmetric]
    by (rule returns_bind_cong [OF bc.rd [OF assms(1) d(1)]]) (use assms(5) d(4) in \<open>auto dest: bio_frame_head\<close>)
  then show ?thesis
    using bc.copy_src_first [OF assms(1) d(1,3,2)] assms(5) by (auto elim!: returns_mono intro: stepped_written)
qed

text \<open>Both loops copy blocks; the writes are those the state before the loop determines.\<close>

lemma copy_loop:
  assumes loop: "\<And>k s. loop 0 k s = Ok () s" "\<And>m k s. loop (Suc m) k s = bind (step k s) (\<lambda>_ s. loop m (Suc k) s)"
    and step: "\<And>i s. P s \<Longrightarrow> i < N \<Longrightarrow> returns (step i s) (\<lambda>_ t. stepped p [(dst i, blk s (src i))] s t)"
    and P: "\<And>s. P s \<Longrightarrow> cache p {} s" "\<And>i x s t. P s \<Longrightarrow> stepped p [(dst i, x)] s t \<Longrightarrow> P t"
    and disj: "\<And>i j. i < N \<Longrightarrow> j < N \<Longrightarrow> src j \<noteq> dst i"
  shows "P s \<Longrightarrow> k + m \<le> N \<Longrightarrow> returns (loop m k s) (\<lambda>_ t. stepped p (map (\<lambda>i. (dst i, blk s (src i))) [k..<k + m]) s t)"
proof (induction m arbitrary: k s)
  case 0
  then show ?case using P(1) by (simp add: loop(1) stepped_refl)
next
  case (Suc m)
  have up: "[k..<k + Suc m] = k # [Suc k..<Suc k + m]" by (simp add: upt_conv_Cons del: upt_Suc)
  have "returns (loop m (Suc k) t) (\<lambda>_ u. stepped p (map (\<lambda>i. (dst i, blk s (src i))) [k..<k + Suc m]) s u)"
    if st: "stepped p [(dst k, blk s (src k))] s t" for t
  proof -
    have "blk t = (blk s)(dst k := blk s (src k))" using st by (simp add: stepped_def)
    then have "blk t (src i) = blk s (src i)" if "i < N" for i using disj [of k i] that Suc.prems(2) by simp
    then have "map (\<lambda>i. (dst i, blk t (src i))) [Suc k..<Suc k + m] = map (\<lambda>i. (dst i, blk s (src i))) [Suc k..<Suc k + m]"
      using Suc.prems(2) by (intro map_cong refl) auto
    moreover have "returns (loop m (Suc k) t) (\<lambda>_ u. stepped p (map (\<lambda>i. (dst i, blk t (src i))) [Suc k..<Suc k + m]) t u)"
      by (rule Suc.IH) (use Suc.prems P(2) st in auto)
    ultimately show ?thesis
      unfolding up by (simp only: list.map) (erule returns_mono, use stepped_trans [OF st] in simp)
  qed
  then show ?case
    using step [OF Suc.prems(1), of k] Suc.prems(2) by (auto simp: loop(2) elim!: returns_mono)
qed

text \<open>The state in which blocks are copied between the log and the home locations \<open>f\<close>.\<close>

definition copying :: "nat \<Rightarrow> nat \<Rightarrow> 'a klog_scheme \<Rightarrow> 'a klog_scheme \<Rightarrow> bool" where
  "copying p n s t \<longleftrightarrow> cache p {} t \<and> log_layout t \<and> log_blk t = log_blk s \<and> lh_block t = lh_block s
     \<and> n < nat (lg_size t) \<and> (\<forall>i < n. home_ok t (lh_block s i)) \<and> card (dirty_blocks t) + 1 < NBUF"

lemma copying_step:
  assumes c: "copying p n s t" and st: "stepped p ws t u"
  shows "copying p n s u"
proof -
  have "dirty_blocks u \<subseteq> dirty_blocks t" "cache p {} u" using st by (auto simp: stepped_def)
  moreover from this(1) have "card (dirty_blocks u) \<le> card (dirty_blocks t)" by (intro card_mono) simp_all
  ultimately show ?thesis
    using c stepped_log [OF st] by (auto simp: copying_def home_ok_def)
qed

lemma write_log_spec:
  assumes c: "copying p n s s" and n: "lh_n s = int n"
  shows "returns (write_log s) (\<lambda>_ t. stepped p (map (\<lambda>i. (log_blk s i, blk s (lh_block s i))) [0..<n]) s t)"
proof -
  have "returns (write_log_loop n 0 s) (\<lambda>_ t. stepped p (map (\<lambda>i. (log_blk s i, blk s (lh_block s i))) [0..<0 + n]) s t)"
  proof (rule copy_loop [where P = "copying p n s" and N = n])
    show "returns (write_log_step i t) (\<lambda>_ u. stepped p [(log_blk s i, blk t (lh_block s i))] t u)"
      if "copying p n s t" "i < n" for i t
      using write_log_step_spec [of p t i] that by (auto simp: copying_def)
    show "lh_block s j \<noteq> log_blk s i" if "i < n" "j < n" for i j
      using home_not_log [of s "lh_block s j" i] that c by (auto simp: copying_def)
    show "copying p n s u" if "copying p n s t" "stepped p [(log_blk s i, x)] t u" for i x t u
      using that by (rule copying_step)
  qed (use c in \<open>auto simp: copying_def\<close>)
  then show ?thesis using n by (simp add: write_log_def)
qed

lemma install_spec:
  assumes c: "copying p n s s" and n: "lh_n s = int n"
  shows "returns (install_trans s) (\<lambda>_ t. stepped p (map (\<lambda>i. (lh_block s i, blk s (log_blk s i))) [0..<n]) s t)"
proof -
  have "returns (install_loop n 0 s) (\<lambda>_ t. stepped p (map (\<lambda>i. (lh_block s i, blk s (log_blk s i))) [0..<0 + n]) s t)"
  proof (rule copy_loop [where P = "copying p n s" and N = n])
    show "returns (install_step i t) (\<lambda>_ u. stepped p [(lh_block s i, blk t (log_blk s i))] t u)"
      if "copying p n s t" "i < n" for i t
      using install_step_spec [of p t i] that by (auto simp: copying_def)
    show "log_blk s j \<noteq> lh_block s i" if "i < n" "j < n" for i j
      using home_not_log [of s "lh_block s i" j] that c by (auto simp: copying_def)
    show "copying p n s u" if "copying p n s t" "stepped p [(lh_block s i, x)] t u" for i x t u
      using that by (rule copying_step)
  qed (use c in \<open>auto simp: copying_def\<close>)
  then show ?thesis using n by (simp add: install_trans_def)
qed

subsection \<open>The header block\<close>

lemma head_block_entries:
  "get32 (fold (\<lambda>i x. put32 (4 + 4 * i) (f i) x) is x) 0 = get32 x 0"
  "distinct is \<Longrightarrow> get32 (fold (\<lambda>i x. put32 (4 + 4 * i) (f i) x) is x) (4 + 4 * j)
     = (if j \<in> set is then f j else get32 x (4 + 4 * j))"
proof -
  show "get32 (fold (\<lambda>i x. put32 (4 + 4 * i) (f i) x) is x) 0 = get32 x 0"
    by (induction "is" arbitrary: x) (auto simp: get32_put32_other)
  have o: "get32 (put32 (4 + 4 * i) v x) (4 + 4 * j) = (if i = j then v else get32 x (4 + 4 * j))" for i v x
  proof (cases "i = j")
    case False
    then have "4 + 4 * i + 4 \<le> 4 + 4 * j \<or> 4 + 4 * j + 4 \<le> 4 + 4 * i" by arith
    then show ?thesis using False by (simp add: get32_put32_other)
  qed simp
  show "distinct is \<Longrightarrow> get32 (fold (\<lambda>i x. put32 (4 + 4 * i) (f i) x) is x) (4 + 4 * j)
     = (if j \<in> set is then f j else get32 x (4 + 4 * j))"
    by (induction "is" arbitrary: x) (auto simp: o)
qed

lemma head_block_get:
  "get32 (head_block n f x) 0 = of_int n"
  "int i < n \<Longrightarrow> get32 (head_block n f x) (4 + 4 * i) = f i"
  using head_block_entries(2) [of "[0..<nat n]" f _ i] zless_nat_eq_int_zless [of i n]
  by (simp_all add: head_block_def head_block_entries(1))

lemma fold_upd_eq: "fold (\<lambda>i f. f(i := g i)) [0..<n] f = (\<lambda>i. if i < n then g i else f i)"
  by (induction n) auto

lemma stepped_logI:
  assumes "stepped p ws s t" "bufs s' = bufs s" "disk s' = disk s" "dwrites s' = dwrites s" "bio_frame s' t'"
    "bufs t' = bufs t" "disk t' = disk t" "dwrites t' = dwrites t" "cache p {} t'"
  shows "stepped p ws s' t'"
  using assms view_cong [of s' s] view_cong [of t' t] by (simp add: stepped_def)

lemma write_head_spec:
  assumes "cache p {} s" "log_layout s" "card (dirty_blocks s) < NBUF"
  shows "returns (write_head s) (\<lambda>_ t. stepped p [(lg_start s, head_block (lh_n s) (lh_block s) (blk s (lg_start s)))] s t)"
proof -
  let ?n = "lg_start s" and ?g = "head_block (lh_n s) (lh_block s)"
  have d: "?n < disksize s" "lg_dev s = 1" using assms(2) lg_start_facts by (auto simp: log_layout_def)
  have "write_head s = bind (bread 1 ?n s) (\<lambda>b s. bind (bwrite b (set_data b (?g (bdata (bufs s b))) s)) (\<lambda>_ s. brelse b s))"
    unfolding write_head_def d(2) Let_def
    by (rule returns_bind_cong [OF bc.rd [OF assms(1) d(1)]]) (use assms(3) in \<open>auto dest: bio_frame_head\<close>)
  then show ?thesis
    using bc.modify_block [OF assms(1) d(1), of ?g] assms(3) by (auto elim!: returns_mono intro: stepped_written)
qed

subsection \<open>Commit\<close>

lemma apply_writes_map:
  assumes "i \<in> set is" "\<And>j. j \<in> set is \<Longrightarrow> k j = k i \<Longrightarrow> g j = g i"
  shows "apply_writes (map (\<lambda>i. (k i, g i)) is) d (k i) = g i"
  using assms
proof (induction "is" rule: rev_induct)
  case (snoc j "is")
  show ?case
  proof (cases "k j = k i")
    case True
    then show ?thesis using snoc.prems(2) [of j] by simp
  next
    case False
    then have "i \<in> set is" using snoc.prems(1) by auto
    then have "apply_writes (map (\<lambda>i. (k i, g i)) is) d (k i) = g i"
      by (rule snoc.IH) (rule snoc.prems(2), simp_all)
    then show ?thesis using False by simp
  qed
qed simp

text \<open>The block writes of a commit, in order: the log blocks, the header with the block numbers,
  the home locations, and the empty header.\<close>

definition commit_writes :: "'a klog_scheme \<Rightarrow> (u32 \<times> block) list" where
  "commit_writes s =
    (let n = nat (lh_n s); h = head_block (lh_n s) (lh_block s) (blk s (lg_start s)) in
     map (\<lambda>i. (log_blk s i, blk s (lh_block s i))) [0..<n] @ [(lg_start s, h)]
     @ map (\<lambda>i. (lh_block s i, blk s (lh_block s i))) [0..<n] @ [(lg_start s, head_block 0 (lh_block s) h)])"

lemma bio_frame_lh: "bio_frame s t \<Longrightarrow> bio_frame (s\<lparr>lh_n := x\<rparr>) (t\<lparr>lh_n := x\<rparr>)"
  using bio_frame_log [of s t] by (cases s, cases t) (simp add: bio_frame_def curcpu_def)

lemma stepped_lh:
  assumes "stepped p ws s t"
  shows "stepped p ws (s\<lparr>lh_n := x\<rparr>) (t\<lparr>lh_n := x\<rparr>)"
proof (rule stepped_logI [OF assms])
  show "bio_frame (s\<lparr>lh_n := x\<rparr>) (t\<lparr>lh_n := x\<rparr>)" using assms by (intro bio_frame_lh) (simp add: stepped_def)
  have "cache p {} (t\<lparr>lh_n := x\<rparr>) = cache p {} t" by (rule cache_cong) simp_all
  then show "cache p {} (t\<lparr>lh_n := x\<rparr>)" using assms by (simp add: stepped_def)
qed simp_all

lemma copying_dirty: "copying p n s t \<Longrightarrow> card (dirty_blocks t) < NBUF" by (simp add: copying_def)

lemma start_not_copied:
  assumes c: "copying p n s s"
  shows "lg_start s \<notin> log_blk s ` {0..<n}" "lg_start s \<notin> lh_block s ` {0..<n}"
proof -
  have lay: "log_layout s" "n < nat (lg_size s)" "\<forall>i < n. home_ok s (lh_block s i)" using c by (auto simp: copying_def)
  have "log_blk s i \<noteq> lg_start s" if "i < n" for i using log_blk_facts(3) [OF lay(1), of i] that lay(2) by simp
  then show "lg_start s \<notin> log_blk s ` {0..<n}" by force
  show "lg_start s \<notin> lh_block s ` {0..<n}" using lg_start_facts(1) [OF lay(1)] lay(3) by (auto simp: home_ok_def)
qed

lemma log_copy_eq:
  assumes c: "copying p n s s" and i: "i < n"
  shows "apply_writes (map (\<lambda>i. (log_blk s i, g i)) [0..<n]) d (log_blk s i) = g i"
proof (rule apply_writes_map)
  show "g j = g i" if "j \<in> set [0..<n]" "log_blk s j = log_blk s i" for j
    using log_blk_facts(4) [of s j i] that i c by (simp add: copying_def)
qed (use i in simp)

text \<open>The first half of a commit brings the log and its header to the disk.\<close>

lemma commit_log:
  assumes c: "copying p n s s" and n: "lh_n s = int n"
  shows "returns (write_log s) (\<lambda>_ s1. returns (write_head s1) (\<lambda>_ t.
    stepped p (map (\<lambda>i. (log_blk s i, blk s (lh_block s i))) [0..<n]
      @ [(lg_start s, head_block (lh_n s) (lh_block s) (blk s (lg_start s)))]) s t))"
proof (rule returns_mono [OF write_log_spec [OF c n]])
  fix a s1 assume s1: "stepped p (map (\<lambda>i. (log_blk s i, blk s (lh_block s i))) [0..<n]) s s1"
  note l1 = stepped_log [OF s1] and c1 = copying_step [OF c s1]
  have "blk s1 (lg_start s) = blk s (lg_start s)"
    using s1 start_not_copied [OF c] by (simp add: stepped_def apply_writes_other image_image)
  then have "returns (write_head s1) (\<lambda>_ t. stepped p [(lg_start s, head_block (lh_n s) (lh_block s) (blk s (lg_start s)))] s1 t)"
    using write_head_spec [of p s1] c1 l1 by (simp add: copying_def)
  then show "returns (write_head s1) (\<lambda>_ t. stepped p (map (\<lambda>i. (log_blk s i, blk s (lh_block s i))) [0..<n]
      @ [(lg_start s, head_block (lh_n s) (lh_block s) (blk s (lg_start s)))]) s t)"
    by (rule returns_mono) (rule stepped_trans [OF s1])
qed

text \<open>The second half installs the log and empties the header. \<open>ws\<close> is what was written before.\<close>

lemma install_clear:
  assumes c: "copying p n s s" and n: "lh_n s = int n" and st: "stepped p ws s0 s"
  shows "returns (install_trans s) (\<lambda>_ s3. returns (write_head (s3\<lparr>lh_n := 0\<rparr>)) (\<lambda>_ t.
    stepped p (ws @ map (\<lambda>i. (lh_block s i, blk s (log_blk s i))) [0..<n]
      @ [(lg_start s, head_block 0 (lh_block s) (blk s (lg_start s)))]) (s0\<lparr>lh_n := 0\<rparr>) t))"
proof (rule returns_mono [OF install_spec [OF c n]])
  let ?W = "map (\<lambda>i. (lh_block s i, blk s (log_blk s i))) [0..<n]"
  fix a s3 assume s3: "stepped p ?W s s3"
  let ?t = "s3\<lparr>lh_n := 0\<rparr>"
  note l3 = stepped_log [OF s3] and c3 = copying_step [OF c s3] and v = view_cong [of ?t s3]
  have t: "stepped p (ws @ ?W) (s0\<lparr>lh_n := 0\<rparr>) ?t" by (rule stepped_lh [OF stepped_trans [OF st s3]])
  have "blk s3 (lg_start s) = blk s (lg_start s)"
    using s3 start_not_copied [OF c] by (simp add: stepped_def apply_writes_other image_image)
  moreover have "log_layout ?t" using c3 by (simp add: copying_def log_layout_def)
  ultimately have "returns (write_head ?t) (\<lambda>_ u. stepped p [(lg_start s, head_block 0 (lh_block s) (blk s (lg_start s)))] ?t u)"
    using write_head_spec [of p ?t] t l3 v copying_dirty [OF c3] by (simp add: stepped_def)
  then show "returns (write_head ?t) (\<lambda>_ u. stepped p (ws @ ?W
      @ [(lg_start s, head_block 0 (lh_block s) (blk s (lg_start s)))]) (s0\<lparr>lh_n := 0\<rparr>) u)"
    by (rule returns_mono) (use stepped_trans [OF t] in simp)
qed

lemma commit_spec:
  assumes c: "copying p n s s" and n: "lh_n s = int n" "0 < n"
  shows "returns (commit s) (\<lambda>_ t. stepped p (commit_writes s) (s\<lparr>lh_n := 0\<rparr>) t)"
proof -
  let ?f = "lh_block s" and ?h = "head_block (lh_n s) (lh_block s) (blk s (lg_start s))"
  let ?W = "map (\<lambda>i. (log_blk s i, blk s (?f i))) [0..<n] @ [(lg_start s, ?h)]"
  have "returns (install_trans s2) (\<lambda>_ s3. returns (write_head (s3\<lparr>lh_n := 0\<rparr>))
      (\<lambda>_ t. stepped p (commit_writes s) (s\<lparr>lh_n := 0\<rparr>) t))" if s2: "stepped p ?W s s2" for s2
  proof -
    note l2 = stepped_log [OF s2]
    have c2: "copying p n s2 s2" using copying_step [OF c s2] l2 by (simp add: copying_def)
    have "blk s2 (log_blk s i) = blk s (?f i)" if "i < n" for i
    proof -
      have "log_blk s i \<noteq> lg_start s" using start_not_copied(1) [OF c] that by (metis imageI atLeastLessThan_iff le0)
      then show ?thesis using s2 log_copy_eq [OF c that] by (simp add: stepped_def)
    qed
    then have m: "map (\<lambda>i. (?f i, blk s2 (log_blk s i))) [0..<n] = map (\<lambda>i. (?f i, blk s (?f i))) [0..<n]" by simp
    have h: "blk s2 (lg_start s) = ?h" using s2 by (simp add: stepped_def)
    have "lh_n s2 = int n" using l2 n by simp
    from install_clear [OF c2 this s2, unfolded l2 m h] show ?thesis
      using n by (simp add: commit_writes_def Let_def)
  qed
  then show ?thesis
    using commit_log [OF c n(1)] n(2) unfolding commit_def n(1) by (auto elim!: returns_mono)
qed

subsection \<open>Recovery\<close>

definition with_head :: "block \<Rightarrow> 'a klog_scheme \<Rightarrow> 'a klog_scheme" where
  "with_head x s = s\<lparr>lh_n := sint (get32 x 0),
     lh_block := (\<lambda>i. if i < nat (sint (get32 x 0)) then get32 x (4 + 4 * i) else lh_block s i)\<rparr>"

lemma bio_frame_lhb: "bio_frame s t \<Longrightarrow> bio_frame (s\<lparr>lh_block := x\<rparr>) (t\<lparr>lh_block := x\<rparr>)"
  using bio_frame_log [of s t] by (cases s, cases t) (simp add: bio_frame_def curcpu_def)

lemma bio_frame_with_head:
  assumes "bio_frame s t"
  shows "bio_frame (with_head x s) (with_head x t)"
  unfolding with_head_def bio_frame_log(7) [OF assms] by (intro bio_frame_lhb bio_frame_lh assms)

lemma with_head_fields [simp]:
  "bufs (with_head x s) = bufs s" "disk (with_head x s) = disk s" "sleeplocks (with_head x s) = sleeplocks s"
  "procs (with_head x s) = procs s" "kern_ok p (with_head x s) = kern_ok p s" "dwrites (with_head x s) = dwrites s"
  "lg_start (with_head x s) = lg_start s" "lg_size (with_head x s) = lg_size s" "lg_dev (with_head x s) = lg_dev s"
  "disksize (with_head x s) = disksize s" "lh_n (with_head x s) = sint (get32 x 0)"
  "cache p H (with_head x s) = cache p H s" "blk (with_head x s) = blk s" "dirty_blocks (with_head x s) = dirty_blocks s"
  "log_blk (with_head x s) = log_blk s" "log_area (with_head x s) = log_area s" "log_layout (with_head x s) = log_layout s"
proof -
  show "cache p H (with_head x s) = cache p H s" by (rule cache_cong) (simp_all add: with_head_def)
  show "blk (with_head x s) = blk s" "dirty_blocks (with_head x s) = dirty_blocks s"
    by (rule view_cong; simp add: with_head_def)+
qed (simp_all add: with_head_def log_blk_def [abs_def] log_area_def log_layout_def)

lemma read_head_spec:
  assumes "cache p {} s" "log_layout s" "card (dirty_blocks s) < NBUF"
    and "sint (get32 (blk s (lg_start s)) 0) \<le> int LOGSIZE"
  shows "returns (read_head s) (\<lambda>_ t. stepped p [] (with_head (blk s (lg_start s)) s) t)"
proof -
  let ?x = "blk s (lg_start s)"
  have d: "lg_start s < disksize s" "lg_dev s = 1" using assms(2) lg_start_facts by (auto simp: log_layout_def)
  show ?thesis
    unfolding read_head_def d(2) returns_bind
  proof (rule returns_mono [OF bc.rd [OF assms(1) d(1)]])
    show "\<forall>b \<in> {}. blockno (bufs s b) \<noteq> lg_start s" "card {} + card (dirty_blocks s) < NBUF" using assms(3) by auto
    fix b t assume "b \<notin> {} \<and> cache p (insert b {}) t \<and> blockno (bufs t b) = lg_start s \<and> bdata (bufs t b) = ?x
        \<and> blk t = blk s \<and> disk t = disk s \<and> dirty_blocks t = dirty_blocks s \<and> dwrites t = dwrites s \<and> bio_frame s t
        \<and> (\<forall>c \<in> {}. bdata (bufs t c) = bdata (bufs s c) \<and> blockno (bufs t c) = blockno (bufs s c))"
    then have t: "cache p {b} t" "blockno (bufs t b) = lg_start s" "bdata (bufs t b) = ?x" "blk t = blk s" "disk t = disk s"
      "dirty_blocks t = dirty_blocks s" "dwrites t = dwrites s" "bio_frame s t" by auto
    have "returns (brelse b (with_head ?x t)) (\<lambda>_ v. cache p ({b} - {b}) v \<and> blk v = blk (with_head ?x t)
        \<and> disk v = disk (with_head ?x t) \<and> dwrites v = dwrites (with_head ?x t)
        \<and> dirty_blocks v = dirty_blocks (with_head ?x t) \<and> bio_frame (with_head ?x t) v
        \<and> (\<lambda>b. bdata (bufs v b)) = (\<lambda>b. bdata (bufs (with_head ?x t) b))
        \<and> (\<lambda>b. blockno (bufs v b)) = (\<lambda>b. blockno (bufs (with_head ?x t) b)))"
      by (rule bc.rel) (use t cache_clean [OF assms(1), of "lg_start s"] in auto)
    then have "returns (brelse b (with_head ?x t)) (\<lambda>_ v. stepped p [] (with_head ?x s) v)"
      by (rule returns_mono) (use t bio_frame_with_head [OF t(8)] in \<open>auto simp: stepped_def intro: bio.trans\<close>)
    then show "returns (let x = bdata (bufs t b); s = t\<lparr>lh_n := sint (get32 x 0)\<rparr> in
       if lh_n s > int LOGSIZE then Fault
       else let s = s\<lparr>lh_block := fold (\<lambda>i f. f(i := get32 x (4 + 4 * i))) [0..<nat (lh_n s)] (lh_block s)\<rparr> in brelse b s)
      (\<lambda>_ v. stepped p [] (with_head ?x s) v)"
      using assms(4) t(3) by (simp add: Let_def fold_upd_eq with_head_def)
  qed
qed

text \<open>
  What recovery makes of a disk: the blocks the header names are overwritten with the logged
  copies and the header is emptied.
\<close>

definition recover_writes :: "'a klog_scheme \<Rightarrow> (u32 \<times> block) list" where
  "recover_writes s = (let x = blk s (lg_start s); n = nat (sint (get32 x 0)) in
     map (\<lambda>i. (get32 x (4 + 4 * i), blk s (log_blk s i))) [0..<n]
     @ [(lg_start s, head_block 0 (\<lambda>_. 0) x)])"

lemma head_block_0: "head_block 0 f x = head_block 0 g x"
  by (simp add: head_block_def)

lemma recover_spec:
  assumes "cache p {} s" "log_layout s" "card (dirty_blocks s) + 1 < NBUF"
    and n: "sint (get32 (blk s (lg_start s)) 0) = int n" "n \<le> LOGSIZE" "n < nat (lg_size s)"
    and h: "\<forall>i < n. home_ok s (get32 (blk s (lg_start s)) (4 + 4 * i))"
  shows "returns (recover_from_log s) (\<lambda>_ t. disk t = apply_writes (recover_writes s) (disk s)
    \<and> blk t = apply_writes (recover_writes s) (blk s) \<and> cache p {} t \<and> lh_n t = 0 \<and> dirty_blocks t \<subseteq> dirty_blocks s)"
proof -
  let ?x = "blk s (lg_start s)"
  have "returns (read_head s) (\<lambda>_ t. stepped p [] (with_head ?x s) t)"
    by (rule read_head_spec) (use assms in auto)
  then have "returns (read_head s) (\<lambda>_ t. returns (install_trans t) (\<lambda>_ u. returns (write_head (u\<lparr>lh_n := 0\<rparr>))
      (\<lambda>_ v. stepped p (recover_writes s) ((with_head ?x s)\<lparr>lh_n := 0\<rparr>) v)))"
  proof (rule returns_mono)
    fix a t assume t: "stepped p [] (with_head ?x s) t"
    note l = stepped_log [OF t]
    have v: "blk t = blk s" "dirty_blocks t = dirty_blocks s" using t by (simp_all add: stepped_def)
    have e: "lh_block t i = get32 ?x (4 + 4 * i)" if "i < n" for i using that n(1) by (simp add: l with_head_def)
    have c: "copying p n t t"
      using t assms(2,3) n(3) h e l v by (simp add: copying_def home_ok_def stepped_def)
    have m: "map (\<lambda>i. (lh_block t i, blk t (log_blk t i))) [0..<n] = map (\<lambda>i. (get32 ?x (4 + 4 * i), blk s (log_blk s i))) [0..<n]"
      using e l v by simp
    have "lh_n t = int n" using n(1) l by simp
    from install_clear [OF c this t] show "returns (install_trans t) (\<lambda>_ u. returns (write_head (u\<lparr>lh_n := 0\<rparr>))
      (\<lambda>_ w. stepped p (recover_writes s) ((with_head ?x s)\<lparr>lh_n := 0\<rparr>) w))"
      unfolding m recover_writes_def Let_def head_block_0 [of "lh_block t" _ "\<lambda>_. 0"] using n(1) l v by simp
  qed
  then show ?thesis
    unfolding recover_from_log_def returns_bind
    by (elim returns_mono) (auto simp: stepped_def view_cong [of "with_head ?x s\<lparr>lh_n := 0\<rparr>" "with_head ?x s"] dest: bio_frame_log(6))
qed

subsection \<open>Atomicity\<close>

lemma apply_writes_same:
  "apply_writes (map (\<lambda>i. (f i, g (f i))) is) d = (\<lambda>c. if c \<in> f ` set is then g c else d c)"
  by (induction "is" rule: rev_induct) auto

text \<open>
  \<open>rebooted p s j r\<close>: the machine stopped during the commit that started in \<open>s\<close>, after its first
  \<open>j\<close> block writes, and \<open>r\<close> is a state after the reboot: the disk holds what was written, nothing
  is dirty in the cache, and the log is where it was.
\<close>

definition rebooted :: "nat \<Rightarrow> 'a klog_scheme \<Rightarrow> nat \<Rightarrow> 'a klog_scheme \<Rightarrow> bool" where
  "rebooted p s j r \<longleftrightarrow> cache p {} r \<and> dirty_blocks r = {} \<and> disk r = apply_writes (take j (commit_writes s)) (disk s)
     \<and> lg_start r = lg_start s \<and> lg_size r = lg_size s \<and> lg_dev r = 1 \<and> disksize r = disksize s"

lemma rebooted_view:
  assumes "rebooted p s j r" "log_layout s"
  shows "blk r = disk r" "log_layout r" "log_blk r = log_blk s" "log_area r = log_area s" "home_ok r = home_ok s"
proof -
  show "blk r = disk r" using cache_clean [of p "{}" r] assms(1) by (auto simp: rebooted_def fun_eq_iff)
  show "log_layout r" "log_blk r = log_blk s" "log_area r = log_area s" "home_ok r = home_ok s"
    using assms by (auto simp: rebooted_def log_layout_def log_blk_def log_area_def home_ok_def fun_eq_iff)
qed

text \<open>Recovery of a disk whose header is empty, and of one whose header names the blocks \<open>f\<close>.\<close>

lemma recover_empty:
  assumes "rebooted p s j r" "log_layout s" "get32 (disk r (lg_start s)) 0 = 0"
  shows "returns (recover_from_log r) (\<lambda>_ t. lh_n t = 0 \<and> (\<forall>c. c \<notin> log_area s \<longrightarrow> disk t c = disk r c))"
proof -
  note v = rebooted_view [OF assms(1,2)] and r = assms(1) [unfolded rebooted_def]
  have "returns (recover_from_log r) (\<lambda>_ t. disk t = apply_writes (recover_writes r) (disk r)
    \<and> blk t = apply_writes (recover_writes r) (blk r) \<and> cache p {} t \<and> lh_n t = 0 \<and> dirty_blocks t \<subseteq> dirty_blocks r)"
    by (rule recover_spec [where n = 0]) (use r v assms(3) lg_start_facts(1) [OF assms(2)] assms(2) in
        \<open>auto simp: NBUF_def MAXOPBLOCKS_def log_layout_def\<close>)
  then show ?thesis
    by (rule returns_mono)
      (use r v assms(3) lg_start_facts(1) [OF assms(2)] in \<open>auto simp: recover_writes_def Let_def\<close>)
qed

lemma recover_full:
  assumes "rebooted p s j r" "copying p n s s" "n \<le> LOGSIZE"
    and h: "get32 (disk r (lg_start s)) 0 = of_nat n" "\<And>i. i < n \<Longrightarrow> get32 (disk r (lg_start s)) (4 + 4 * i) = lh_block s i"
    and l: "\<And>i. i < n \<Longrightarrow> disk r (log_blk s i) = blk s (lh_block s i)"
  shows "returns (recover_from_log r) (\<lambda>_ t. lh_n t = 0
    \<and> (\<forall>c. c \<notin> log_area s \<longrightarrow> disk t c = (if c \<in> lh_block s ` {0..<n} then blk s c else disk r c)))"
proof -
  have lay: "log_layout s" "n < nat (lg_size s)" "\<forall>i < n. home_ok s (lh_block s i)"
    using assms(2) by (auto simp: copying_def)
  note v = rebooted_view [OF assms(1) lay(1)] and r = assms(1) [unfolded rebooted_def]
  have n: "sint (of_nat n :: u32) = int n" using assms(3)
    by (simp add: LOGSIZE_def MAXOPBLOCKS_def signed_of_nat signed_take_bit_int_eq_self)
  have "returns (recover_from_log r) (\<lambda>_ t. disk t = apply_writes (recover_writes r) (disk r)
    \<and> blk t = apply_writes (recover_writes r) (blk r) \<and> cache p {} t \<and> lh_n t = 0 \<and> dirty_blocks t \<subseteq> dirty_blocks r)"
    by (rule recover_spec [where n = n]) (use r v lay assms(3) h n in \<open>auto simp: NBUF_def MAXOPBLOCKS_def\<close>)
  moreover have "recover_writes r = map (\<lambda>i. (lh_block s i, blk s (lh_block s i))) [0..<n]
      @ [(lg_start s, head_block 0 (\<lambda>_. 0) (disk r (lg_start s)))]"
    using h l n v r by (simp add: recover_writes_def Let_def)
  ultimately show ?thesis
    by (elim returns_mono) (use lg_start_facts(1) [OF lay(1)] in \<open>auto simp: apply_writes_same\<close>)
qed

text \<open>
  A state in which \<open>end_op\<close> commits a transaction of \<open>n\<close> blocks: the blocks of the log header lie
  outside the log, only they are dirty, and the log on disk is empty.
\<close>

definition commit_ready :: "nat \<Rightarrow> nat \<Rightarrow> 'a klog_scheme \<Rightarrow> bool" where
  "commit_ready p n s \<longleftrightarrow> cache p {} s \<and> log_layout s \<and> lh_n s = int n \<and> 0 < n \<and> n < nat (lg_size s)
     \<and> n + 1 < NBUF \<and> (\<forall>i < n. home_ok s (lh_block s i)) \<and> dirty_blocks s \<subseteq> lh_block s ` {0..<n}
     \<and> get32 (disk s (lg_start s)) 0 = 0"

lemma commit_ready_copying:
  assumes "commit_ready p n s"
  shows "copying p n s s" "lh_n s = int n" "0 < n" "n \<le> LOGSIZE" "log_layout s"
    and "\<And>c. c \<notin> lh_block s ` {0..<n} \<Longrightarrow> blk s c = disk s c"
proof -
  note r = assms [unfolded commit_ready_def]
  have "card (dirty_blocks s) \<le> card (lh_block s ` {0..<n})" using r by (intro card_mono) auto
  also have "\<dots> \<le> n" using card_image_le [of "{0..<n}" "lh_block s"] by simp
  finally show "copying p n s s" using r by (simp add: copying_def)
  show "lh_n s = int n" "0 < n" "log_layout s" using r by simp_all
  show "n \<le> LOGSIZE" using r by (simp add: NBUF_def LOGSIZE_def MAXOPBLOCKS_def)
  show "blk s c = disk s c" if "c \<notin> lh_block s ` {0..<n}" for c
    using cache_clean [of p "{}" s c] r that by auto
qed

lemma log_writes_outside:
  assumes "copying p n s s" "c \<notin> log_area s"
  shows "apply_writes (map (\<lambda>i. (log_blk s i, g i)) [0..<n]) d c = d c"
proof -
  have "log_blk s ` {0..<n} \<subseteq> log_area s" using log_blk_facts(1) [of s] assms(1) by (auto simp: copying_def)
  then have "c \<notin> log_blk s ` {0..<n}" using assms(2) by blast
  then show ?thesis by (intro apply_writes_other) (simp add: image_image)
qed

text \<open>The disk after the first \<open>j\<close> block writes of a commit.\<close>

lemma crash_early:
  assumes r: "commit_ready p n s" and j: "j \<le> n"
  shows "apply_writes (take j (commit_writes s)) d (lg_start s) = d (lg_start s)"
    "c \<notin> log_area s \<Longrightarrow> apply_writes (take j (commit_writes s)) d c = d c"
proof -
  note C = commit_ready_copying [OF r]
  have t: "take j (commit_writes s) = map (\<lambda>i. (log_blk s i, blk s (lh_block s i))) [0..<j]"
    using j C(2) by (simp add: commit_writes_def Let_def take_map)
  have sub: "fst ` set (take j (commit_writes s)) \<subseteq> log_blk s ` {0..<n}" using j unfolding t by auto
  then show "apply_writes (take j (commit_writes s)) d (lg_start s) = d (lg_start s)"
    using start_not_copied(1) [OF C(1)] by (intro apply_writes_other) auto
  have "log_blk s ` {0..<n} \<subseteq> log_area s" using log_blk_facts(1) [OF C(5)] C(1) by (auto simp: copying_def)
  then show "apply_writes (take j (commit_writes s)) d c = d c" if "c \<notin> log_area s"
    using sub that by (intro apply_writes_other) blast
qed

lemma crash_late:
  assumes r: "commit_ready p n s" and j: "n < j" "j \<le> 2 * n + 1"
  defines "d \<equiv> apply_writes (take j (commit_writes s)) (disk s)"
  shows "d (lg_start s) = head_block (lh_n s) (lh_block s) (blk s (lg_start s))"
    "\<And>i. i < n \<Longrightarrow> d (log_blk s i) = blk s (lh_block s i)"
    "\<And>c. c \<notin> log_area s \<Longrightarrow> c \<notin> lh_block s ` {0..<n} \<Longrightarrow> d c = disk s c"
proof -
  note C = commit_ready_copying [OF r]
  let ?f = "lh_block s" and ?k = "j - Suc n" and ?h = "head_block (lh_n s) (lh_block s) (blk s (lg_start s))"
  let ?L = "map (\<lambda>i. (log_blk s i, blk s (?f i))) [0..<n]"
  have k: "?k \<le> n" using j by simp
  have t: "take j (commit_writes s) = ?L @ [(lg_start s, ?h)] @ map (\<lambda>i. (?f i, blk s (?f i))) [0..<?k]"
    using j C(2) by (simp add: commit_writes_def Let_def take_map take_Cons' min_def)
  have d: "d = (\<lambda>c. if c \<in> ?f ` {0..<?k} then blk s c else ((apply_writes ?L (disk s))(lg_start s := ?h)) c)"
    by (simp add: d_def t apply_writes_same)
  have f: "?f ` {0..<?k} \<subseteq> ?f ` {0..<n}" using k by auto
  have home: "?f i \<notin> log_area s" if "i < n" for i using C(1) that by (auto simp: copying_def home_ok_def)
  show "d (lg_start s) = ?h" using start_not_copied(2) [OF C(1)] f by (auto simp: d)
  show "d (log_blk s i) = blk s (?f i)" if "i < n" for i
  proof -
    have "log_blk s i \<in> log_area s" "log_blk s i \<noteq> lg_start s"
      using log_blk_facts(1,3) [OF C(5), of i] C(1) that by (auto simp: copying_def)
    then have "log_blk s i \<notin> ?f ` {0..<?k}" using home k by auto
    then show ?thesis using log_copy_eq [OF C(1) that] \<open>log_blk s i \<noteq> lg_start s\<close> by (simp add: d)
  qed
  show "d c = disk s c" if "c \<notin> log_area s" "c \<notin> ?f ` {0..<n}" for c
    using that f lg_start_facts(1) [OF C(5)] by (auto simp: d log_writes_outside [OF C(1)])
qed

lemma commit_writes_length: "lh_n s = int n \<Longrightarrow> length (commit_writes s) = 2 * n + 2"
  by (simp add: commit_writes_def Let_def)

lemma crash_done:
  assumes r: "commit_ready p n s" and j: "2 * n + 2 \<le> j"
  defines "d \<equiv> apply_writes (take j (commit_writes s)) (disk s)"
  shows "get32 (d (lg_start s)) 0 = 0" "\<And>c. c \<notin> log_area s \<Longrightarrow> d c = blk s c"
proof -
  note C = commit_ready_copying [OF r]
  have t: "take j (commit_writes s) = commit_writes s" using j commit_writes_length [OF C(2)] by simp
  show "get32 (d (lg_start s)) 0 = 0"
    unfolding d_def t by (simp add: commit_writes_def Let_def head_block_get(1))
  show "d c = blk s c" if "c \<notin> log_area s" for c
    using that lg_start_facts(1) [OF C(5)] C(2) C(6) [of c]
    unfolding d_def t by (auto simp: commit_writes_def Let_def apply_writes_same log_writes_outside [OF C(1)])
qed

text \<open>C1: Transactions are atomic. A commit writes the blocks of the log, its header, the home blocks and
  the emptied header, in this order. Wherever the machine stops between two of these writes,
  recovery after the reboot returns and leaves every block outside the log either as it was before
  the transaction (the header was not yet written) or as the transaction left it (all later
  points), the same for all blocks.\<close>

theorem log_crash_atomic:
  assumes r: "commit_ready p n s"
  shows "returns (commit s) (\<lambda>_ t. lh_n t = 0 \<and> dwrites t = dwrites s @ commit_writes s
      \<and> (\<forall>c. c \<notin> log_area s \<longrightarrow> disk t c = blk s c))
    \<and> (\<forall>j r. rebooted p s j r \<longrightarrow> returns (recover_from_log r) (\<lambda>_ t. lh_n t = 0
      \<and> (\<forall>c. c \<notin> log_area s \<longrightarrow> disk t c = (if j \<le> n then disk s c else blk s c))))"
proof (intro conjI allI impI)
  note C = commit_ready_copying [OF r]
  have "returns (commit s) (\<lambda>_ t. stepped p (commit_writes s) (s\<lparr>lh_n := 0\<rparr>) t)" by (rule commit_spec [OF C(1-3)])
  then show "returns (commit s) (\<lambda>_ t. lh_n t = 0 \<and> dwrites t = dwrites s @ commit_writes s
      \<and> (\<forall>c. c \<notin> log_area s \<longrightarrow> disk t c = blk s c))"
    using crash_done(2) [OF r, of "2 * n + 2"] commit_writes_length [OF C(2)]
    by (elim returns_mono) (auto simp: stepped_def dest: bio_frame_log(6))
  fix j u assume u: "rebooted p s j u"
  have d: "disk u = apply_writes (take j (commit_writes s)) (disk s)" using u by (simp add: rebooted_def)
  have z: "get32 (disk s (lg_start s)) 0 = 0" using r by (simp add: commit_ready_def)
  consider "j \<le> n" | "n < j" "j \<le> 2 * n + 1" | "2 * n + 2 \<le> j" by linarith
  then show "returns (recover_from_log u) (\<lambda>_ t. lh_n t = 0
      \<and> (\<forall>c. c \<notin> log_area s \<longrightarrow> disk t c = (if j \<le> n then disk s c else blk s c)))"
  proof cases
    case 1
    show ?thesis using recover_empty [OF u C(5)] crash_early [OF r 1] z 1 unfolding d by (auto elim!: returns_mono)
  next
    case 2
    have "get32 (disk u (lg_start s)) 0 = of_nat n" "\<And>i. i < n \<Longrightarrow> get32 (disk u (lg_start s)) (4 + 4 * i) = lh_block s i"
      using crash_late(1) [OF r 2] C(2) unfolding d by (simp_all add: head_block_get)
    then show ?thesis using recover_full [OF u C(1,4)] crash_late(2,3) [OF r 2] C(6) 2(1) unfolding d
      by (auto elim!: returns_mono)
  next
    case 3
    show ?thesis using recover_empty [OF u C(5)] crash_done [OF r 3] 3 unfolding d by (auto elim!: returns_mono)
  qed
qed

text \<open>A log of one block: block 7 has been changed in the cache, and the log on disk is empty.\<close>

definition klog0 :: klog where
  "klog0 = kbuf.extend ((binit kbuf0)\<lparr>bufs := (bufs (binit kbuf0))(0 := (bufs (binit kbuf0) 0)\<lparr>b_valid := True, b_dirty := True,
       dev := 1, blockno := 7, bdata := (\<lambda>_. 99)\<rparr>)\<rparr>) (klog.fields 256 31 0 False 1 1 (\<lambda>_. 7))"

lemma klog0_fields [simp]:
  "bufs klog0 = (bufs (binit kbuf0))(0 := (bufs (binit kbuf0) 0)\<lparr>b_valid := True, b_dirty := True, dev := 1, blockno := 7, bdata := (\<lambda>_. 99)\<rparr>)"
  "disk klog0 = disk (binit kbuf0)" "sleeplocks klog0 = sleeplocks (binit kbuf0)" "procs klog0 = procs (binit kbuf0)"
  "lg_start klog0 = 256" "lg_size klog0 = 31" "lg_dev klog0 = 1" "lh_n klog0 = 1" "lh_block klog0 = (\<lambda>_. 7)"
  "disksize klog0 = disksize (binit kbuf0)" "kern_ok p klog0 = kern_ok p (binit kbuf0)"
  by (simp_all add: klog0_def kbuf.defs klog.defs kern_ok_def mach_ok_def curcpu_def lk_free_def)

lemma klog0_unused:
  assumes "b < NBUF"
  shows "\<not> b_valid (bufs (binit kbuf0) b)" "\<not> b_dirty (bufs (binit kbuf0) b)" "dev (bufs (binit kbuf0) b) \<noteq> 1"
proof -
  have "bufs kbuf0 b = \<lparr>b_valid = False, b_dirty = False, dev = 0, blockno = 0, refcnt = 0, bprev = 0, bnext = 0, bdata = (\<lambda>_. 0)\<rparr>"
    by (simp add: kbuf0_def kproc.defs)
  then show "\<not> b_valid (bufs (binit kbuf0) b)" "\<not> b_dirty (bufs (binit kbuf0) b)" "dev (bufs (binit kbuf0) b) \<noteq> 1"
    using binit_fields [of b kbuf0] assms by (auto simp: same_block_def)
qed

lemma klog0_ready: "commit_ready 0 1 klog0" "blk klog0 7 = (\<lambda>_. 99)" "7 \<notin> log_area klog0"
  "dirty_blocks klog0 = {7}" "cache_inv 0 {} (rev [0..<NBUF]) klog0" "cached klog0 n b \<longleftrightarrow> b = 0 \<and> n = 7"
proof -
  note I = kbuf0_ok(1) [unfolded cache_ok_def, THEN conjunct2] and u = klog0_unused
  show c: "cached klog0 n b \<longleftrightarrow> b = 0 \<and> n = 7" for n b
    using u(3) [of b] by (auto simp: cached_def NBUF_def MAXOPBLOCKS_def)
  show inv: "cache_inv 0 {} (rev [0..<NBUF]) klog0"
  proof (rule cache_invI)
    have "(\<lambda>b. bnext (bufs klog0 b)) = (\<lambda>b. bnext (bufs (binit kbuf0) b))"
      "(\<lambda>b. bprev (bufs klog0 b)) = (\<lambda>b. bprev (bufs (binit kbuf0) b))" by auto
    then show "blist klog0 (rev [0..<NBUF])" using cache_invD(1) [OF I] by (simp only: blist_def)
    show "buf_owned 0 {} klog0 b" if "b < NBUF" for b
      using cache_invD(4) [OF I that] by (auto simp: buf_owned_def)
  qed (use u in \<open>auto simp: c split: if_splits\<close>)
  have "kern_ok 0 klog0" using cache_okD(1) [OF kbuf0_ok(1)] by simp
  then have cc: "cache 0 {} klog0" using inv by (auto simp: cache_def cache_ok_def)
  show "blk klog0 7 = (\<lambda>_. 99)" by (rule blk_eqI [OF inv]) (auto simp: c)
  show d: "dirty_blocks klog0 = {7}" by (auto simp: dirty_blocks_def c)
  show "7 \<notin> log_area klog0" by (simp add: log_area_def)
  have "cache 0 {} (binit kbuf0)" using kbuf0_ok(1) by (auto simp: cache_def)
  then have "disk (binit kbuf0) 256 = disk kbuf0 256" using cache_clean [of 0 "{}" "binit kbuf0" 256] kbuf0_ok(3,4) by simp
  then have h: "get32 (disk (binit kbuf0) 256) 0 = 0" by (simp add: get32_def kbuf0_def kproc.defs)
  show "commit_ready 0 1 klog0" using cc d h kbuf0_ok(2)
    by (simp add: commit_ready_def log_layout_def home_ok_def log_area_def NBUF_def MAXOPBLOCKS_def)
qed

theorem log_crash_atomic_witness:
  "returns (commit klog0) (\<lambda>_ t. lh_n t = 0 \<and> dwrites t = dwrites klog0 @ commit_writes klog0 \<and> disk t 7 = (\<lambda>_. 99))"
  using log_crash_atomic [OF klog0_ready(1), THEN conjunct1] klog0_ready(2,3) by (auto elim!: returns_mono)

subsection \<open>Logging a block\<close>

text \<open>What the file system's routines leave alone when they read or log blocks.\<close>

definition log_frame :: "'a klog_scheme \<Rightarrow> 'a klog_scheme \<Rightarrow> bool" where
  "log_frame s t \<longleftrightarrow> klog.more t = klog.more s \<and> disksize t = disksize s \<and> lg_start t = lg_start s \<and> lg_size t = lg_size s
     \<and> lg_dev t = lg_dev s \<and> outstanding t = outstanding s \<and> committing t = committing s \<and> disk t = disk s
     \<and> mem t = mem s \<and> freelist t = freelist s \<and> (\<forall>l. (\<forall>b. l \<noteq> LkBuf b) \<longrightarrow> sleeplocks t l = sleeplocks s l)
     \<and> (\<forall>q. awake (procs s q) (procs t q))"

interpretation lf: state_frame log_frame
  by unfold_locales (auto simp: log_frame_def intro: awake_trans)


text \<open>The block numbers in the header in memory, and a state inside a transaction: every dirty block is
  logged, no block is logged twice, and the header has room left.\<close>

definition logged :: "'a klog_scheme \<Rightarrow> u32 list" where
  "logged s = map (lh_block s) [0..<nat (lh_n s)]"

definition in_trans :: "'a klog_scheme \<Rightarrow> bool" where
  "in_trans s \<longleftrightarrow> 1 \<le> outstanding s \<and> 0 \<le> lh_n s \<and> distinct (logged s) \<and> dirty_blocks s \<subseteq> set (logged s)"

text \<open>What \<open>log_write\<close> does to the header: a block that is already logged is absorbed.\<close>

definition absorb :: "u32 \<Rightarrow> u32 list \<Rightarrow> u32 list" where
  "absorb n ns = (if n \<in> set ns then ns else ns @ [n])"

lemma logged_step:
  fixes s :: "'a klog_scheme" and n :: u32
  assumes "0 \<le> lh_n s"
  defines "i \<equiv> (case find (\<lambda>i. lh_block s i = n) [0..<nat (lh_n s)] of Some i \<Rightarrow> i | None \<Rightarrow> nat (lh_n s))"
  shows "logged (s\<lparr>lh_block := (lh_block s)(i := n), lh_n := (if int i = lh_n s then lh_n s + 1 else lh_n s)\<rparr>) = absorb n (logged s)"
proof (cases "find (\<lambda>i. lh_block s i = n) [0..<nat (lh_n s)]")
  case None
  then have i: "i = nat (lh_n s)" by (simp add: i_def)
  have n: "n \<notin> set (logged s)" using None by (auto simp: logged_def find_None_iff)
  have "nat (lh_n s + 1) = Suc (nat (lh_n s))" using assms(1) by simp
  then show ?thesis using n assms(1) by (simp add: i logged_def absorb_def)
next
  case (Some k)
  then have k: "i = k" "lh_block s k = n" "k < nat (lh_n s)" by (simp_all add: i_def) (auto simp: find_Some_iff)
  then have "(lh_block s)(i := n) = lh_block s" "int i \<noteq> lh_n s" "n \<in> set (logged s)"
    by (auto simp: logged_def fun_eq_iff)
  then show ?thesis by (simp add: absorb_def logged_def)
qed

lemma log_write_eq:
  assumes "kern_ok p s" "0 \<le> lh_n s" "lh_n s < int LOGSIZE" "lh_n s < lg_size s - 1" "1 \<le> outstanding s"
  shows "\<exists>f n. log_write b s = Ok () (touch (upd_buf b (\<lambda>x. x\<lparr>b_dirty := True\<rparr>) (s\<lparr>lh_block := f, lh_n := n\<rparr>)))
    \<and> 0 \<le> n \<and> logged (s\<lparr>lh_block := f, lh_n := n\<rparr>) = absorb (blockno (bufs s b)) (logged s)"
proof -
  let ?n = "blockno (bufs s b)"
  define i where "i = (case find (\<lambda>i. lh_block s i = ?n) [0..<nat (lh_n s)] of Some i \<Rightarrow> i | None \<Rightarrow> nat (lh_n s))"
  define f where "f = (lh_block s)(i := ?n)"
  define n where "n = (if int i = lh_n s then lh_n s + 1 else lh_n s)"
  have "log_write b s = Ok () (touch (upd_buf b (\<lambda>x. x\<lparr>b_dirty := True\<rparr>) (s\<lparr>lh_block := f, lh_n := n\<rparr>)))"
    using kern_okD [OF assms(1)] assms(2-5)
    by (cases "find (\<lambda>i. lh_block s i = ?n) [0..<nat (lh_n s)]")
      (simp_all add: log_write_def kern Let_def i_def f_def n_def upd_buf_def)
  moreover have "logged (s\<lparr>lh_block := f, lh_n := n\<rparr>) = absorb ?n (logged s)"
    unfolding f_def n_def i_def by (rule logged_step [OF assms(2)])
  moreover have "0 \<le> n" using assms(2) by (simp add: n_def)
  ultimately show ?thesis by blast
qed

lemma log_write_spec:
  assumes "cache p H s" "b \<in> H" "in_trans s" "length (logged s) < LOGSIZE" "int (length (logged s)) < lg_size s - 1"
  shows "returns (log_write b s) (\<lambda>_ t. cache p H t \<and> in_trans t \<and> logged t = absorb (blockno (bufs s b)) (logged s)
    \<and> blk t = blk s \<and> disk t = disk s \<and> dwrites t = dwrites s \<and> dirty_blocks t = insert (blockno (bufs s b)) (dirty_blocks s)
    \<and> log_frame s t \<and> (\<forall>c. bdata (bufs t c) = bdata (bufs s c) \<and> blockno (bufs t c) = blockno (bufs s c)))"
proof -
  let ?n = "blockno (bufs s b)"
  have k: "kern_ok p s" using assms(1) by (auto simp: cache_def cache_ok_def)
  have g: "0 \<le> lh_n s" "lh_n s < int LOGSIZE" "lh_n s < lg_size s - 1" "1 \<le> outstanding s"
    using assms(3-5) by (auto simp: in_trans_def logged_def)
  obtain f n where fn: "log_write b s = Ok () (touch (upd_buf b (\<lambda>x. x\<lparr>b_dirty := True\<rparr>) (s\<lparr>lh_block := f, lh_n := n\<rparr>)))"
    "0 \<le> n" "logged (s\<lparr>lh_block := f, lh_n := n\<rparr>) = absorb ?n (logged s)" using log_write_eq [OF k g] by blast
  let ?s = "s\<lparr>lh_block := f, lh_n := n\<rparr>"
  define u where "u = upd_buf b (\<lambda>x. x\<lparr>b_dirty := True\<rparr>) ?s"
  have c: "cache p H ?s = cache p H s" by (rule cache_cong) simp_all
  have v: "blk ?s = blk s" "dirty_blocks ?s = dirty_blocks s" by (rule view_cong; simp)+
  note m = mark_dirty_spec [OF assms(1) [folded c] assms(2) u_def]
  have w: "blk (touch u) = blk u" "dirty_blocks (touch u) = dirty_blocks u" by (rule view_cong; simp)+
  have "cache p H (touch u)" using m(1) cache_ok_touch unfolding cache_def by blast
  moreover have "logged (touch u) = absorb ?n (logged s)"
    using fn(3) bio_frame_head [OF m(4)] by (simp add: logged_def)
  moreover have "in_trans (touch u)"
    using assms(3) fn(2) bio_frame_log(3,6) [OF m(4)] m(3) v calculation(2) w
    by (auto simp: in_trans_def absorb_def)
  moreover have "log_frame s (touch u)" by (simp add: u_def log_frame_def) (simp add: upd_buf_def touch_def)
  moreover have "bdata (bufs (touch u) c) = bdata (bufs s c) \<and> blockno (bufs (touch u) c) = blockno (bufs s c)" for c
    by (simp add: u_def)
  ultimately show ?thesis using fn(1) m v w by (simp add: u_def)
qed

text \<open>C2: Inside a transaction \<open>log_write\<close> records the block of a locked buffer in the log header, once
  however often it is written (absorption), and pins the buffer in the cache until the commit.
  Nothing reaches the disk, no reader sees a change, and still every dirty block is logged.\<close>

theorem log_write_absorbs:
  assumes "cache p H s" "b \<in> H" "in_trans s" "length (logged s) < LOGSIZE" "int (length (logged s)) < lg_size s - 1"
  shows "returns (log_write b s) (\<lambda>_ t. cache p H t \<and> in_trans t \<and> logged t = absorb (blockno (bufs s b)) (logged s)
    \<and> blk t = blk s \<and> disk t = disk s \<and> dwrites t = dwrites s \<and> dirty_blocks t = insert (blockno (bufs s b)) (dirty_blocks s))"
  by (rule returns_mono [OF log_write_spec [OF assms]]) simp

text \<open>In a transaction that has logged block 7, block 8 is read and logged.\<close>

definition klog1 :: klog where
  "klog1 = klog0\<lparr>outstanding := 1\<rparr>"

theorem log_write_absorbs_witness:
  "\<exists>b t u. bread 1 8 klog1 = Ok b t \<and> log_write b t = Ok () u \<and> logged u = [7, 8] \<and> dirty_blocks u = {7, 8}"
proof -
  have c: "cache 0 {} klog1 = cache 0 {} klog0" by (rule cache_cong) (simp_all add: klog1_def)
  have d: "dirty_blocks klog1 = dirty_blocks klog0" by (rule view_cong) (simp_all add: klog1_def)
  have f: "lh_n klog1 = 1" "lh_block klog1 = (\<lambda>_. 7)" "lg_size klog1 = 31" "outstanding klog1 = 1" "disksize klog1 = 1000"
    using kbuf0_ok(2) by (simp_all add: klog1_def)
  have r: "cache 0 {} klog0" "dirty_blocks klog0 = {7}"
    using klog0_ready(1,4) by (auto simp: commit_ready_def)
  obtain b t where t: "bread 1 8 klog1 = Ok b t" "cache 0 {b} t" "blockno (bufs t b) = 8" "dirty_blocks t = {7}" "bio_frame klog1 t"
    using bc.rd [of 0 "{}" klog1 8] c d f r by (auto simp: returns_iff NBUF_def MAXOPBLOCKS_def)
  note l = bio_frame_log [OF t(5)]
  have g: "logged t = [7]" using l f by (simp add: logged_def)
  have "in_trans t" using t(4) g l f by (simp add: in_trans_def)
  then show ?thesis
    using log_write_absorbs [OF t(2), of b] t g l f by (auto simp: returns_iff absorb_def LOGSIZE_def MAXOPBLOCKS_def)
qed

subsection \<open>Changing a block in a transaction\<close>

lemma bio_log_frame: "bio_frame s t \<Longrightarrow> disk t = disk s \<Longrightarrow> log_frame s t"
  using bio_frame_log [of s t] by (simp add: log_frame_def bio_frame_def)

text \<open>\<open>p\<close> is inside a transaction, holds no buffer, and \<open>k\<close> more blocks fit into the log.\<close>

definition trans_ok :: "nat \<Rightarrow> nat \<Rightarrow> 'a klog_scheme \<Rightarrow> bool" where
  "trans_ok p k s \<longleftrightarrow> cache p {} s \<and> in_trans s \<and> length (logged s) + k \<le> LOGSIZE
     \<and> int (length (logged s) + k) \<le> lg_size s - 1"

lemma trans_ok_le: "trans_ok p k s \<Longrightarrow> j \<le> k \<Longrightarrow> trans_ok p j s"
  by (auto simp: trans_ok_def)

lemma trans_dirty:
  assumes "in_trans s"
  shows "card (dirty_blocks s) \<le> length (logged s)"
proof -
  have "card (dirty_blocks s) \<le> card (set (logged s))" using assms by (intro card_mono) (auto simp: in_trans_def)
  also have "\<dots> \<le> length (logged s)" by (rule card_length)
  finally show ?thesis .
qed

lemma trans_cache:
  assumes "trans_ok p (Suc k) s"
  shows "cache p {} s" "in_trans s" "card {} + card (dirty_blocks s) < NBUF" "length (logged s) < LOGSIZE"
    "int (length (logged s)) < lg_size s - 1"
  using assms trans_dirty [of s] by (auto simp: trans_ok_def NBUF_def LOGSIZE_def MAXOPBLOCKS_def)

lemma absorb_facts: "set (absorb n ns) = insert n (set ns)" "length (absorb n ns) \<le> Suc (length ns)"
  by (auto simp: absorb_def)

definition block_upd :: "nat \<Rightarrow> nat \<Rightarrow> u32 \<Rightarrow> block \<Rightarrow> 'a klog_scheme \<Rightarrow> 'a klog_scheme \<Rightarrow> bool" where
  "block_upd p k n x s t \<longleftrightarrow> trans_ok p k t \<and> log_frame s t \<and> blk t = (blk s)(n := x)"

lemma in_trans_frame:
  assumes "in_trans s" "bio_frame s t" "dirty_blocks t = dirty_blocks s"
  shows "in_trans t" "logged t = logged s"
  using assms bio_frame_log [OF assms(2)] by (simp_all add: in_trans_def logged_def)

lemma log_modify:
  assumes "trans_ok p (Suc k) s" "n < disksize s"
  shows "returns (bind (bread 1 n s) (\<lambda>b s. bind (log_write b (set_data b (g (bdata (bufs s b))) s)) (\<lambda>_ s. brelse b s)))
    (\<lambda>_ t. block_upd p k n (g (blk s n)) s t)"
proof -
  note T = trans_cache [OF assms(1)]
  show ?thesis
    unfolding returns_bind [of "bread 1 n s"]
  proof (rule returns_mono [OF bc.rd [OF T(1) assms(2) _ T(3)]], simp)
    fix b t
    assume "b \<notin> {} \<and> cache p (insert b {}) t \<and> blockno (bufs t b) = n \<and> bdata (bufs t b) = blk s n \<and> blk t = blk s \<and> disk t = disk s
      \<and> dirty_blocks t = dirty_blocks s \<and> dwrites t = dwrites s \<and> bio_frame s t
      \<and> (\<forall>c \<in> {}. bdata (bufs t c) = bdata (bufs s c) \<and> blockno (bufs t c) = blockno (bufs s c))"
    then have t: "cache p {b} t" "blockno (bufs t b) = n" "bdata (bufs t b) = blk s n" "blk t = blk s" "disk t = disk s"
      "dirty_blocks t = dirty_blocks s" "bio_frame s t" by auto
    define u where "u = set_data b (g (blk s n)) t"
    note P = bc.put [OF t(1), of b "g (blk s n)", folded u_def]
    have u: "cache p {b} u" "blk u = (blk s)(n := g (blk s n))" "disk u = disk s" "dirty_blocks u = dirty_blocks s"
      "bio_frame s u" "blockno (bufs u b) = n" using P t by (auto intro: bio.trans dest: fun_cong)
    note i = in_trans_frame [OF T(2) u(5,4)] and l = bio_frame_log [OF u(5)]
    have lw: "returns (log_write b u) (\<lambda>_ v. cache p {b} v \<and> in_trans v \<and> logged v = absorb n (logged s)
      \<and> blk v = blk u \<and> disk v = disk s \<and> n \<in> dirty_blocks v \<and> log_frame u v \<and> blockno (bufs v b) = n)"
      by (rule returns_mono [OF log_write_spec [of p "{b}" u b]]) (use u i T l in auto)
    have "returns (bind (log_write b u) (\<lambda>_ s. brelse b s)) (\<lambda>_ v. block_upd p k n (g (blk s n)) s v)"
      unfolding returns_bind
    proof (rule returns_mono [OF lw])
      fix a v assume v: "cache p {b} v \<and> in_trans v \<and> logged v = absorb n (logged s)
        \<and> blk v = blk u \<and> disk v = disk s \<and> n \<in> dirty_blocks v \<and> log_frame u v \<and> blockno (bufs v b) = n"
      have "returns (brelse b v) (\<lambda>_ w. cache p ({b} - {b}) w \<and> blk w = blk v \<and> disk w = disk v \<and> dwrites w = dwrites v
        \<and> dirty_blocks w = dirty_blocks v \<and> bio_frame v w \<and> (\<lambda>b. bdata (bufs w b)) = (\<lambda>b. bdata (bufs v b))
        \<and> (\<lambda>b. blockno (bufs w b)) = (\<lambda>b. blockno (bufs v b)))"
        by (rule bc.rel) (use v in auto)
      then show "returns (brelse b v) (\<lambda>_ w. block_upd p k n (g (blk s n)) s w)"
      proof (rule returns_mono)
        fix c w assume w: "cache p ({b} - {b}) w \<and> blk w = blk v \<and> disk w = disk v \<and> dwrites w = dwrites v
          \<and> dirty_blocks w = dirty_blocks v \<and> bio_frame v w \<and> (\<lambda>b. bdata (bufs w b)) = (\<lambda>b. bdata (bufs v b))
          \<and> (\<lambda>b. blockno (bufs w b)) = (\<lambda>b. blockno (bufs v b))"
        have f: "log_frame s w"
          using bio_log_frame [OF u(5,3)] v bio_log_frame [of v w] w by (auto intro: lf.trans)
        have "in_trans w" "logged w = absorb n (logged s)" using in_trans_frame [of v w] v w by auto
        then show "block_upd p k n (g (blk s n)) s w"
          using f w v u assms(1) absorb_facts(2) [of n "logged s"]
          by (auto simp: block_upd_def trans_ok_def log_frame_def)
      qed
    qed
    then show "returns (bind (log_write b (set_data b (g (bdata (bufs t b))) t)) (\<lambda>_ s. brelse b s)) (\<lambda>_ v. block_upd p k n (g (blk s n)) s v)"
      unfolding u_def t(3) .
  qed
qed

text \<open>
  Reading a block in a transaction, with its two uses: releasing the buffer unchanged, and logging
  new contents \<open>x\<close> before it is released.
\<close>

lemma log_bread:
  assumes T: "trans_ok p (Suc k) s" and n: "n < disksize s"
  obtains b t where "bread 1 n s = Ok b t" "bdata (bufs t b) = blk s n" "log_frame s t"
    "\<exists>u. brelse b t = Ok () u \<and> trans_ok p (Suc k) u \<and> log_frame s u \<and> blk u = blk s"
    "\<And>x. \<exists>v w. log_write b (set_data b x t) = Ok () v \<and> brelse b v = Ok () w \<and> log_frame s v \<and> block_upd p k n x s w"
proof -
  note T' = trans_cache [OF T]
  obtain b t where t: "bread 1 n s = Ok b t" "cache p {b} t" "blockno (bufs t b) = n" "bdata (bufs t b) = blk s n" "blk t = blk s"
      "disk t = disk s" "dirty_blocks t = dirty_blocks s" "bio_frame s t"
    using bc.rd [OF T'(1) n _ T'(3)] by (auto simp: returns_iff)
  have "returns (brelse b t) (\<lambda>_ w. cache p ({b} - {b}) w \<and> blk w = blk t \<and> disk w = disk t \<and> dwrites w = dwrites t
      \<and> dirty_blocks w = dirty_blocks t \<and> bio_frame t w \<and> (\<lambda>b. bdata (bufs w b)) = (\<lambda>b. bdata (bufs t b))
      \<and> (\<lambda>b. blockno (bufs w b)) = (\<lambda>b. blockno (bufs t b)))"
    by (rule bc.rel) (use t bc.clean [OF T'(1), of n] in auto)
  then obtain u where u: "brelse b t = Ok () u" "cache p {} u" "blk u = blk t" "disk u = disk t" "dirty_blocks u = dirty_blocks t" "bio_frame t u"
    by (auto simp: returns_iff)
  have f: "bio_frame s u" using t(8) u(6) by (rule bio.trans)
  have "in_trans u" "logged u = logged s" using in_trans_frame [OF T'(2) f] u(5) t(7) by auto
  then have 1: "trans_ok p (Suc k) u" "log_frame s u" "blk u = blk s"
    using T u t f bio_frame_log(2) [OF f] by (auto simp: trans_ok_def intro: bio_log_frame)
  have 2: "\<exists>v w. log_write b (set_data b x t) = Ok () v \<and> brelse b v = Ok () w \<and> log_frame s v \<and> block_upd p k n x s w" for x
  proof -
    obtain v w where v: "log_write b (set_data b x t) = Ok () v" "brelse b v = Ok () w" "block_upd p k n x s w"
      using log_modify [OF T n, of "\<lambda>_. x"] t(1) by (auto simp: returns_iff)
    note P = bc.put [OF t(2), of b x]
    have p: "bio_frame s (set_data b x t)" "dirty_blocks (set_data b x t) = dirty_blocks s" "disk (set_data b x t) = disk s"
      using P t by (auto intro: bio.trans)
    note i = in_trans_frame [OF T'(2) p(1,2)]
    have "log_frame (set_data b x t) v"
      using log_write_spec [of p "{b}" "set_data b x t" b] P i T' bio_frame_log(2) [OF p(1)] v(1) by (auto simp: returns_iff)
    then show ?thesis using v bio_log_frame [OF p(1,3)] by (auto intro: lf.trans)
  qed
  show ?thesis by (rule that [OF t(1,4) bio_log_frame [OF t(8,6)] _ 2]) (use u 1 in blast)+
qed

text \<open>Reading a block without changing it, in a transaction or outside.\<close>

definition rd_ok :: "nat \<Rightarrow> 'a klog_scheme \<Rightarrow> bool" where
  "rd_ok p s \<longleftrightarrow> cache p {} s \<and> card (dirty_blocks s) < NBUF"

definition same_view :: "nat \<Rightarrow> 'a klog_scheme \<Rightarrow> 'a klog_scheme \<Rightarrow> bool" where
  "same_view p s t \<longleftrightarrow> rd_ok p t \<and> log_frame s t \<and> blk t = blk s"

lemma same_view_trans: "same_view p s t \<Longrightarrow> same_view p t u \<Longrightarrow> same_view p s u"
  by (auto simp: same_view_def intro: lf.trans)

lemma cache_bread:
  assumes "rd_ok p s" "n < disksize s"
  obtains b t u where "bread 1 n s = Ok b t" "bdata (bufs t b) = blk s n" "log_frame s t" "brelse b t = Ok () u" "same_view p s u"
proof -
  have c: "cache p {} s" "card {} + card (dirty_blocks s) < NBUF" using assms(1) by (auto simp: rd_ok_def)
  obtain b t where t: "bread 1 n s = Ok b t" "cache p {b} t" "blockno (bufs t b) = n" "bdata (bufs t b) = blk s n" "blk t = blk s"
      "disk t = disk s" "dirty_blocks t = dirty_blocks s" "bio_frame s t"
    using bc.rd [OF c(1) assms(2) _ c(2)] by (auto simp: returns_iff)
  have "returns (brelse b t) (\<lambda>_ w. cache p ({b} - {b}) w \<and> blk w = blk t \<and> disk w = disk t \<and> dwrites w = dwrites t
      \<and> dirty_blocks w = dirty_blocks t \<and> bio_frame t w \<and> (\<lambda>b. bdata (bufs w b)) = (\<lambda>b. bdata (bufs t b))
      \<and> (\<lambda>b. blockno (bufs w b)) = (\<lambda>b. blockno (bufs t b)))"
    by (rule bc.rel) (use t bc.clean [OF c(1), of n] in auto)
  then obtain u where u: "brelse b t = Ok () u" "cache p {} u" "blk u = blk t" "disk u = disk t" "dirty_blocks u = dirty_blocks t" "bio_frame t u"
    by (auto simp: returns_iff)
  have "same_view p s u" unfolding same_view_def rd_ok_def
    using u t assms(1) by (auto simp: rd_ok_def intro: bio_log_frame bio.trans)
  then show ?thesis using that t u bio_log_frame [OF t(8,6)] by blast
qed

end
