(* ===== verification/Fs.thy ===== *)
theory Fs
  imports Log
begin

text \<open>
  The file system layers of \<open>src/my-xv6-public/fs.c\<close>: block allocation, inodes and their cache, inode
  contents, directories and path names. Data that a routine copies to or from its caller's
  buffer is a list of bytes: the result of \<open>readi\<close>, an argument of \<open>writei\<close>. A path is the bytes of
  the C string; \<open>char name[DIRSIZ]\<close> is an array, indexed from 0.
\<close>

section \<open>State\<close>

definition NDIRECT :: nat where "NDIRECT = 12"
definition NINDIRECT :: nat where "NINDIRECT = BSIZE div 4"
definition MAXFILE :: nat where "MAXFILE = NDIRECT + NINDIRECT"
definition IPB :: nat where "IPB = BSIZE div 64"
definition BPB :: nat where "BPB = BSIZE * 8"
definition DIRSIZ :: nat where "DIRSIZ = 14"
definition ROOTINO :: u32 where "ROOTINO = 1"
definition ROOTDEV :: u32 where "ROOTDEV = 1"
definition NINODE :: nat where "NINODE = 50"
definition NDEV :: nat where "NDEV = 10"
definition T_DIR :: u16 where "T_DIR = 1"
definition T_FILE :: u16 where "T_FILE = 2"
definition T_DEV :: u16 where "T_DEV = 3"

record inode =
  i_dev :: u32
  inum :: u32
  iref :: int
  i_valid :: bool
  itype :: u16
  major :: u16
  minor :: u16
  nlink :: u16
  isize :: u32
  addrs :: "nat \<Rightarrow> u32"

record kfs = klog +
  sb :: superblock
  inodes :: "nat \<Rightarrow> inode"

text \<open>The entry of a major device number in \<open>devsw\<close>: the device's read and write routines.\<close>

record 's devsw =
  dev_read :: "(nat \<Rightarrow> u32 \<Rightarrow> 's \<Rightarrow> (int \<times> u8 list, 's) res) option"
  dev_write :: "(nat \<Rightarrow> u8 list \<Rightarrow> 's \<Rightarrow> (int, 's) res) option"

definition upd_ip :: "nat \<Rightarrow> (inode \<Rightarrow> inode) \<Rightarrow> 'a kfs_scheme \<Rightarrow> 'a kfs_scheme" where
  "upd_ip i f s = s\<lparr>inodes := (inodes s)(i := f (inodes s i))\<rparr>"

section \<open>Blocks\<close>

definition IBLOCK :: "u32 \<Rightarrow> superblock \<Rightarrow> u32" where "IBLOCK i x = i div of_nat IPB + inodestart x"
definition BBLOCK :: "nat \<Rightarrow> superblock \<Rightarrow> u32" where "BBLOCK b x = of_nat (b div BPB) + bmapstart x"

definition bzero :: "u32 \<Rightarrow> u32 \<Rightarrow> 'a klog_scheme \<Rightarrow> (unit, 'a klog_scheme) res" where
  "bzero d bno s = bind (bread d bno s) (\<lambda>bp s.
     bind (log_write bp (set_data bp (\<lambda>_. 0) s)) (\<lambda>_ s. brelse bp s))"

text \<open>The test of one bit of the free map, and a block of it with the bit changed.\<close>

definition bit_free :: "block \<Rightarrow> nat \<Rightarrow> bool" where
  "bit_free x bi \<longleftrightarrow> x (bi div 8) AND push_bit (bi mod 8) 1 = 0"

definition set_bit_used :: "nat \<Rightarrow> block \<Rightarrow> block" where
  "set_bit_used bi x = x(bi div 8 := x (bi div 8) OR push_bit (bi mod 8) 1)"

definition set_bit_free :: "nat \<Rightarrow> block \<Rightarrow> block" where
  "set_bit_free bi x = x(bi div 8 := x (bi div 8) AND NOT (push_bit (bi mod 8) 1))"

text \<open>The outer loop of \<open>balloc\<close> over the blocks of the free map; the inner loop is \<open>find\<close>.\<close>

primrec balloc_loop :: "u32 \<Rightarrow> nat list \<Rightarrow> 'a kfs_scheme \<Rightarrow> (u32, 'a kfs_scheme) res" where
  "balloc_loop d [] s = Panic ''balloc: out of blocks''"
| "balloc_loop d (b # bs) s = bind (bread d (BBLOCK b (sb s)) s) (\<lambda>bp s.
     case find (\<lambda>bi. b + bi < unat (sb_size (sb s)) \<and> bit_free (bdata (bufs s bp)) bi) [0..<BPB] of
       Some bi \<Rightarrow>
         bind (log_write bp (set_data bp (set_bit_used bi (bdata (bufs s bp))) s)) (\<lambda>_ s.
         bind (brelse bp s) (\<lambda>_ s.
         bind (bzero d (of_nat (b + bi)) s) (\<lambda>_ s. Ok (of_nat (b + bi)) s)))
     | None \<Rightarrow> bind (brelse bp s) (\<lambda>_ s. balloc_loop d bs s))"

definition balloc :: "u32 \<Rightarrow> 'a kfs_scheme \<Rightarrow> (u32, 'a kfs_scheme) res" where
  "balloc d s = balloc_loop d (map (\<lambda>k. k * BPB) [0..<(unat (sb_size (sb s)) + BPB - 1) div BPB]) s"

definition bfree :: "u32 \<Rightarrow> u32 \<Rightarrow> 'a kfs_scheme \<Rightarrow> (unit, 'a kfs_scheme) res" where
  "bfree d b s = bind (bread d (BBLOCK (unat b) (sb s)) s) (\<lambda>bp s.
     let bi = unat b mod BPB in
     if bit_free (bdata (bufs s bp)) bi then Panic ''freeing free block''
     else bind (log_write bp (set_data bp (set_bit_free bi (bdata (bufs s bp))) s)) (\<lambda>_ s. brelse bp s))"

section \<open>Inodes\<close>

definition iinit :: "u32 \<Rightarrow> 'a kfs_scheme \<Rightarrow> (unit, 'a kfs_scheme) res" where
  "iinit d s =
    (let s = initlock LkIcache s; s = fold (\<lambda>i s. initsleeplock (LkInode i) s) [0..<NINODE] s in
     bind (readsb d s) (\<lambda>x s. Ok () (s\<lparr>sb := x\<rparr>)))"

text \<open>\<open>struct dinode\<close> at its offset in a block of inodes.\<close>

definition dip_off :: "u32 \<Rightarrow> nat" where "dip_off i = 64 * (unat i mod IPB)"

definition put_dinode :: "nat \<Rightarrow> inode \<Rightarrow> block \<Rightarrow> block" where
  "put_dinode p ip x =
    (let x = put16 p (itype ip) x; x = put16 (p + 2) (major ip) x; x = put16 (p + 4) (minor ip) x;
         x = put16 (p + 6) (nlink ip) x; x = put32 (p + 8) (isize ip) x in
     fold (\<lambda>k x. put32 (p + 12 + 4 * k) (addrs ip k) x) [0..<NDIRECT + 1] x)"

definition get_dinode :: "nat \<Rightarrow> block \<Rightarrow> inode \<Rightarrow> inode" where
  "get_dinode p x ip = ip\<lparr>itype := get16 x p, major := get16 x (p + 2), minor := get16 x (p + 4),
     nlink := get16 x (p + 6), isize := get32 x (p + 8), addrs := (\<lambda>k. if k < NDIRECT + 1 then get32 x (p + 12 + 4 * k) else addrs ip k)\<rparr>"

definition iget :: "u32 \<Rightarrow> u32 \<Rightarrow> 'a kfs_scheme \<Rightarrow> (nat, 'a kfs_scheme) res" where
  "iget d n s = bind (acquire LkIcache s) (\<lambda>_ s.
     case find (\<lambda>i. iref (inodes s i) > 0 \<and> i_dev (inodes s i) = d \<and> inum (inodes s i) = n) [0..<NINODE] of
       Some i \<Rightarrow> let s = upd_ip i (\<lambda>x. x\<lparr>iref := iref x + 1\<rparr>) s in bind (release LkIcache s) (\<lambda>_ s. Ok i s)
     | None \<Rightarrow>
       (case find (\<lambda>i. iref (inodes s i) = 0) [0..<NINODE] of
          None \<Rightarrow> Panic ''iget: no inodes''
        | Some i \<Rightarrow>
            let s = upd_ip i (\<lambda>x. x\<lparr>i_dev := d, inum := n, iref := 1, i_valid := False\<rparr>) s in
            bind (release LkIcache s) (\<lambda>_ s. Ok i s)))"

definition zero_dinode :: "nat \<Rightarrow> block \<Rightarrow> block" where
  "zero_dinode p x = (\<lambda>k. if p \<le> k \<and> k < p + 64 then 0 else x k)"

primrec ialloc_loop :: "u32 \<Rightarrow> u16 \<Rightarrow> nat list \<Rightarrow> 'a kfs_scheme \<Rightarrow> (nat, 'a kfs_scheme) res" where
  "ialloc_loop d ty [] s = Panic ''ialloc: no inodes''"
| "ialloc_loop d ty (n # ns) s = bind (bread d (IBLOCK (of_nat n) (sb s)) s) (\<lambda>bp s.
     let p = dip_off (of_nat n); x = bdata (bufs s bp) in
     if get16 x p = 0 then
       bind (log_write bp (set_data bp (put16 p ty (zero_dinode p x)) s)) (\<lambda>_ s.
       bind (brelse bp s) (\<lambda>_ s. iget d (of_nat n) s))
     else bind (brelse bp s) (\<lambda>_ s. ialloc_loop d ty ns s))"

definition ialloc :: "u32 \<Rightarrow> u16 \<Rightarrow> 'a kfs_scheme \<Rightarrow> (nat, 'a kfs_scheme) res" where
  "ialloc d ty s = ialloc_loop d ty [1..<unat (ninodes (sb s))] s"

definition iupdate :: "nat \<Rightarrow> 'a kfs_scheme \<Rightarrow> (unit, 'a kfs_scheme) res" where
  "iupdate i s = bind (bread (i_dev (inodes s i)) (IBLOCK (inum (inodes s i)) (sb s)) s) (\<lambda>bp s.
     let x = put_dinode (dip_off (inum (inodes s i))) (inodes s i) (bdata (bufs s bp)) in
     bind (log_write bp (set_data bp x s)) (\<lambda>_ s. brelse bp s))"

definition idup :: "nat \<Rightarrow> 'a kfs_scheme \<Rightarrow> (nat, 'a kfs_scheme) res" where
  "idup i s = bind (acquire LkIcache s) (\<lambda>_ s.
     let s = upd_ip i (\<lambda>x. x\<lparr>iref := iref x + 1\<rparr>) s in bind (release LkIcache s) (\<lambda>_ s. Ok i s))"

text \<open>
  The part of \<open>ilock\<close> after the lock is taken; a process that had to sleep for it continues there.
\<close>

definition ilock_body :: "nat \<Rightarrow> 'a kfs_scheme \<Rightarrow> (unit, 'a kfs_scheme) res" where
  "ilock_body i s =
    (if \<not> i_valid (inodes s i) then
       bind (bread (i_dev (inodes s i)) (IBLOCK (inum (inodes s i)) (sb s)) s) (\<lambda>bp s.
       let s = upd_ip i (get_dinode (dip_off (inum (inodes s i))) (bdata (bufs s bp))) s in
       bind (brelse bp s) (\<lambda>_ s.
       let s = upd_ip i (\<lambda>x. x\<lparr>i_valid := True\<rparr>) s in
       if itype (inodes s i) = 0 then Panic ''ilock: no type'' else Ok () s))
     else Ok () s)"

definition ilock :: "nat option \<Rightarrow> 'a kfs_scheme \<Rightarrow> (unit, 'a kfs_scheme) res" where
  "ilock ip s = (case ip of None \<Rightarrow> Panic ''ilock''
   | Some i \<Rightarrow> if iref (inodes s i) < 1 then Panic ''ilock''
       else bind (acquiresleep (LkInode i) s) (\<lambda>_ s. ilock_body i s))"

definition ilock_resume :: "nat \<Rightarrow> nat \<Rightarrow> bool \<Rightarrow> 'a kfs_scheme \<Rightarrow> (unit, 'a kfs_scheme) res" where
  "ilock_resume p i ie s = bind (acquiresleep_resume p (LkInode i) ie s) (\<lambda>_ s. ilock_body i s)"

definition iunlock :: "nat option \<Rightarrow> 'a kfs_scheme \<Rightarrow> (unit, 'a kfs_scheme) res" where
  "iunlock ip s = (case ip of None \<Rightarrow> Panic ''iunlock''
   | Some i \<Rightarrow> bind (holdingsleep (LkInode i) s) (\<lambda>h s.
       if \<not> h \<or> iref (inodes s i) < 1 then Panic ''iunlock'' else releasesleep (LkInode i) s))"

section \<open>Inode contents\<close>

definition set_addr :: "nat \<Rightarrow> nat \<Rightarrow> u32 \<Rightarrow> 'a kfs_scheme \<Rightarrow> 'a kfs_scheme" where
  "set_addr i k a s = upd_ip i (\<lambda>x. x\<lparr>addrs := (addrs x)(k := a)\<rparr>) s"

definition bmap :: "nat \<Rightarrow> u32 \<Rightarrow> 'a kfs_scheme \<Rightarrow> (u32, 'a kfs_scheme) res" where
  "bmap i bn s =
    (let alloc_at = (\<lambda>k s. if addrs (inodes s i) k = 0
           then bind (balloc (i_dev (inodes s i)) s) (\<lambda>a s. Ok a (set_addr i k a s))
           else Ok (addrs (inodes s i) k) s) in
     if unat bn < NDIRECT then alloc_at (unat bn) s
     else let k = unat bn - NDIRECT in
       if k < NINDIRECT then
         bind (alloc_at NDIRECT s) (\<lambda>a s.
         bind (bread (i_dev (inodes s i)) a s) (\<lambda>bp s.
         let e = get32 (bdata (bufs s bp)) (4 * k) in
         if e = 0 then
           bind (balloc (i_dev (inodes s i)) s) (\<lambda>e s.
           bind (log_write bp (set_data bp (put32 (4 * k) e (bdata (bufs s bp))) s)) (\<lambda>_ s.
           bind (brelse bp s) (\<lambda>_ s. Ok e s)))
         else bind (brelse bp s) (\<lambda>_ s. Ok e s)))
       else Panic ''bmap: out of range'')"

primrec itrunc_direct :: "nat \<Rightarrow> nat list \<Rightarrow> 'a kfs_scheme \<Rightarrow> (unit, 'a kfs_scheme) res" where
  "itrunc_direct i [] s = Ok () s"
| "itrunc_direct i (k # ks) s =
    (if addrs (inodes s i) k \<noteq> 0 then
       bind (bfree (i_dev (inodes s i)) (addrs (inodes s i) k) s) (\<lambda>_ s. itrunc_direct i ks (set_addr i k 0 s))
     else itrunc_direct i ks s)"

primrec itrunc_indirect :: "nat \<Rightarrow> nat \<Rightarrow> nat list \<Rightarrow> 'a kfs_scheme \<Rightarrow> (unit, 'a kfs_scheme) res" where
  "itrunc_indirect i bp [] s = Ok () s"
| "itrunc_indirect i bp (j # js) s =
    (let a = get32 (bdata (bufs s bp)) (4 * j) in
     if a \<noteq> 0 then bind (bfree (i_dev (inodes s i)) a s) (\<lambda>_ s. itrunc_indirect i bp js s)
     else itrunc_indirect i bp js s)"

definition itrunc :: "nat \<Rightarrow> 'a kfs_scheme \<Rightarrow> (unit, 'a kfs_scheme) res" where
  "itrunc i s = bind (itrunc_direct i [0..<NDIRECT] s) (\<lambda>_ s.
     bind (if addrs (inodes s i) NDIRECT \<noteq> 0 then
             bind (bread (i_dev (inodes s i)) (addrs (inodes s i) NDIRECT) s) (\<lambda>bp s.
             bind (itrunc_indirect i bp [0..<NINDIRECT] s) (\<lambda>_ s.
             bind (brelse bp s) (\<lambda>_ s.
             bind (bfree (i_dev (inodes s i)) (addrs (inodes s i) NDIRECT) s) (\<lambda>_ s.
             Ok () (set_addr i NDIRECT 0 s)))))
           else Ok () s) (\<lambda>_ s. iupdate i (upd_ip i (\<lambda>x. x\<lparr>isize := 0\<rparr>) s)))"

text \<open>\<open>iput\<close>, from the point where the sleeping lock of the inode is held.\<close>

definition iput_body :: "nat \<Rightarrow> 'a kfs_scheme \<Rightarrow> (unit, 'a kfs_scheme) res" where
  "iput_body i s =
     bind (if i_valid (inodes s i) \<and> nlink (inodes s i) = 0 then
             bind (acquire LkIcache s) (\<lambda>_ s. let r = iref (inodes s i) in
             bind (release LkIcache s) (\<lambda>_ s.
             if r = 1 then
               bind (itrunc i s) (\<lambda>_ s.
               bind (iupdate i (upd_ip i (\<lambda>x. x\<lparr>itype := 0\<rparr>) s)) (\<lambda>_ s.
               Ok () (upd_ip i (\<lambda>x. x\<lparr>i_valid := False\<rparr>) s)))
             else Ok () s))
           else Ok () s) (\<lambda>_ s.
     bind (releasesleep (LkInode i) s) (\<lambda>_ s.
     bind (acquire LkIcache s) (\<lambda>_ s.
     release LkIcache (upd_ip i (\<lambda>x. x\<lparr>iref := iref x - 1\<rparr>) s))))"

definition iput :: "nat \<Rightarrow> 'a kfs_scheme \<Rightarrow> (unit, 'a kfs_scheme) res" where
  "iput i s = bind (acquiresleep (LkInode i) s) (\<lambda>_ s. iput_body i s)"

definition iput_resume :: "nat \<Rightarrow> nat \<Rightarrow> bool \<Rightarrow> 'a kfs_scheme \<Rightarrow> (unit, 'a kfs_scheme) res" where
  "iput_resume p i ie s = bind (acquiresleep_resume p (LkInode i) ie s) (\<lambda>_ s. iput_body i s)"

definition iunlockput :: "nat \<Rightarrow> 'a kfs_scheme \<Rightarrow> (unit, 'a kfs_scheme) res" where
  "iunlockput i s = bind (iunlock (Some i) s) (\<lambda>_ s. iput i s)"

record stat =
  st_type :: u16
  st_dev :: u32
  st_ino :: u32
  st_nlink :: u16
  st_size :: u32

definition stati :: "nat \<Rightarrow> 'a kfs_scheme \<Rightarrow> stat" where
  "stati i s = (let ip = inodes s i in
     \<lparr>st_type = itype ip, st_dev = i_dev ip, st_ino = inum ip, st_nlink = nlink ip, st_size = isize ip\<rparr>)"

text \<open>
  The iterations of the loops of \<open>readi\<close> and \<open>writei\<close>: the offset and the number of bytes of each,
  for \<open>n\<close> bytes from \<open>off\<close>.
\<close>

function chunks :: "nat \<Rightarrow> nat \<Rightarrow> (nat \<times> nat) list" where
  "chunks off n = (if n = 0 then [] else
     let m = min n (BSIZE - off mod BSIZE) in (off, m) # chunks (off + m) (n - m))"
  by pat_completeness auto
termination by (relation "measure snd") (auto simp: BSIZE_def Let_def min_def)

declare chunks.simps [simp del]

primrec readi_loop :: "nat \<Rightarrow> (nat \<times> nat) list \<Rightarrow> 'a kfs_scheme \<Rightarrow> (u8 list, 'a kfs_scheme) res" where
  "readi_loop i [] s = Ok [] s"
| "readi_loop i (c # cs) s = (case c of (off, m) \<Rightarrow>
     bind (bmap i (of_nat (off div BSIZE)) s) (\<lambda>a s.
     bind (bread (i_dev (inodes s i)) a s) (\<lambda>bp s.
     let xs = map (bdata (bufs s bp)) [off mod BSIZE..<off mod BSIZE + m] in
     bind (brelse bp s) (\<lambda>_ s. bind (readi_loop i cs s) (\<lambda>ys s. Ok (xs @ ys) s)))))"

text \<open>
  \<open>readi\<close> returns its result and the bytes it stores at \<open>dst\<close>. \<open>dv\<close> is the device switch \<open>devsw\<close>.
\<close>

definition readi :: "(nat \<Rightarrow> ('a kfs_scheme) devsw) \<Rightarrow> nat \<Rightarrow> u32 \<Rightarrow> u32 \<Rightarrow> 'a kfs_scheme
    \<Rightarrow> (int \<times> u8 list, 'a kfs_scheme) res" where
  "readi dv i off n s =
    (let ip = inodes s i in
     if itype ip = T_DEV then
       if sint (major ip) < 0 \<or> sint (major ip) \<ge> int NDEV then Ok (-1, []) s
       else case dev_read (dv (unat (major ip))) of None \<Rightarrow> Ok (-1, []) s | Some f \<Rightarrow> f i n s
     else if off > isize ip \<or> off + n < off then Ok (-1, []) s
     else let n = (if off + n > isize ip then isize ip - off else n) in
       bind (readi_loop i (chunks (unat off) (unat n)) s) (\<lambda>xs s. Ok (sint n, xs) s))"

text \<open>\<open>memmove\<close> into a block, at an offset.\<close>

definition put_bytes :: "nat \<Rightarrow> u8 list \<Rightarrow> block \<Rightarrow> block" where
  "put_bytes p xs b = (\<lambda>k. if p \<le> k \<and> k < p + length xs then xs ! (k - p) else b k)"

primrec writei_loop :: "nat \<Rightarrow> (nat \<times> nat) list \<Rightarrow> u8 list \<Rightarrow> 'a kfs_scheme \<Rightarrow> (unit, 'a kfs_scheme) res" where
  "writei_loop i [] xs s = Ok () s"
| "writei_loop i (c # cs) xs s = (case c of (off, m) \<Rightarrow>
     bind (bmap i (of_nat (off div BSIZE)) s) (\<lambda>a s.
     bind (bread (i_dev (inodes s i)) a s) (\<lambda>bp s.
     bind (log_write bp (set_data bp (put_bytes (off mod BSIZE) (take m xs) (bdata (bufs s bp))) s)) (\<lambda>_ s.
     bind (brelse bp s) (\<lambda>_ s. writei_loop i cs (drop m xs) s)))))"

text \<open>\<open>writei\<close>; \<open>xs\<close> is the \<open>n\<close> bytes at \<open>src\<close>.\<close>

definition writei :: "(nat \<Rightarrow> ('a kfs_scheme) devsw) \<Rightarrow> nat \<Rightarrow> u8 list \<Rightarrow> u32 \<Rightarrow> u32 \<Rightarrow> 'a kfs_scheme
    \<Rightarrow> (int, 'a kfs_scheme) res" where
  "writei dv i xs off n s =
    (let ip = inodes s i in
     if itype ip = T_DEV then
       if sint (major ip) < 0 \<or> sint (major ip) \<ge> int NDEV then Ok (-1) s
       else case dev_write (dv (unat (major ip))) of None \<Rightarrow> Ok (-1) s | Some f \<Rightarrow> f i xs s
     else if off > isize ip \<or> off + n < off then Ok (-1) s
     else if off + n > of_nat (MAXFILE * BSIZE) then Ok (-1) s
     else bind (writei_loop i (chunks (unat off) (unat n)) xs s) (\<lambda>_ s.
       if n > 0 \<and> off + n > isize (inodes s i) then
         bind (iupdate i (upd_ip i (\<lambda>x. x\<lparr>isize := off + n\<rparr>) s)) (\<lambda>_ s. Ok (sint n) s)
       else Ok (sint n) s))"

section \<open>Directories\<close>

text \<open>\<open>strncmp\<close> on two arrays, from index \<open>i\<close>.\<close>

primrec namecmp_loop :: "nat \<Rightarrow> nat \<Rightarrow> (nat \<Rightarrow> u8) \<Rightarrow> (nat \<Rightarrow> u8) \<Rightarrow> int" where
  "namecmp_loop 0 i s t = 0"
| "namecmp_loop (Suc n) i s t = (if s i \<noteq> 0 \<and> s i = t i then namecmp_loop n (Suc i) s t
     else uint (s i) - uint (t i))"

definition namecmp :: "(nat \<Rightarrow> u8) \<Rightarrow> (nat \<Rightarrow> u8) \<Rightarrow> int" where
  "namecmp s t = namecmp_loop DIRSIZ 0 s t"

text \<open>\<open>struct dirent\<close>, and its 16 bytes.\<close>

record dirent =
  de_inum :: u16
  de_name :: "nat \<Rightarrow> u8"

definition get_dirent :: "u8 list \<Rightarrow> dirent" where
  "get_dirent xs = \<lparr>de_inum = ucast (xs ! 0) OR push_bit 8 (ucast (xs ! 1)), de_name = (\<lambda>i. xs ! (2 + i))\<rparr>"

definition put_dirent :: "dirent \<Rightarrow> u8 list" where
  "put_dirent de = [ucast (de_inum de), ucast (drop_bit 8 (de_inum de))] @ map (de_name de) [0..<DIRSIZ]"

text \<open>\<open>strncpy(de.name, name, DIRSIZ)\<close>: zero from the first NUL on.\<close>

definition strncpy_name :: "(nat \<Rightarrow> u8) \<Rightarrow> nat \<Rightarrow> u8" where
  "strncpy_name nm = (\<lambda>i. if list_all (\<lambda>j. nm j \<noteq> 0) [0..<Suc i] then nm i else 0)"

definition dir_offs :: "nat \<Rightarrow> 'a kfs_scheme \<Rightarrow> nat list" where
  "dir_offs i s = map (\<lambda>k. 16 * k) [0..<(unat (isize (inodes s i)) + 15) div 16]"

primrec dirlookup_loop :: "(nat \<Rightarrow> ('a kfs_scheme) devsw) \<Rightarrow> nat \<Rightarrow> (nat \<Rightarrow> u8) \<Rightarrow> nat list \<Rightarrow> 'a kfs_scheme
    \<Rightarrow> ((nat \<times> nat) option, 'a kfs_scheme) res" where
  "dirlookup_loop dv dp nm [] s = Ok None s"
| "dirlookup_loop dv dp nm (off # offs) s = bind (readi dv dp (of_nat off) 16 s) (\<lambda>(r, xs) s.
     if r \<noteq> 16 then Panic ''dirlookup read''
     else let de = get_dirent xs in
       if de_inum de = 0 then dirlookup_loop dv dp nm offs s
       else if namecmp nm (de_name de) = 0 then
         bind (iget (i_dev (inodes s dp)) (ucast (de_inum de)) s) (\<lambda>i s. Ok (Some (i, off)) s)
       else dirlookup_loop dv dp nm offs s)"

text \<open>\<open>dirlookup\<close> returns the inode and the offset stored through \<open>poff\<close>.\<close>

definition dirlookup :: "(nat \<Rightarrow> ('a kfs_scheme) devsw) \<Rightarrow> nat \<Rightarrow> (nat \<Rightarrow> u8) \<Rightarrow> 'a kfs_scheme
    \<Rightarrow> ((nat \<times> nat) option, 'a kfs_scheme) res" where
  "dirlookup dv dp nm s = (if itype (inodes s dp) \<noteq> T_DIR then Panic ''dirlookup not DIR''
     else dirlookup_loop dv dp nm (dir_offs dp s) s)"

text \<open>The loop of \<open>dirlink\<close> that looks for an empty entry; its result is the final \<open>off\<close>.\<close>

primrec dirlink_loop :: "(nat \<Rightarrow> ('a kfs_scheme) devsw) \<Rightarrow> nat \<Rightarrow> nat \<Rightarrow> nat list \<Rightarrow> 'a kfs_scheme
    \<Rightarrow> (nat, 'a kfs_scheme) res" where
  "dirlink_loop dv dp e [] s = Ok e s"
| "dirlink_loop dv dp e (off # offs) s = bind (readi dv dp (of_nat off) 16 s) (\<lambda>(r, xs) s.
     if r \<noteq> 16 then Panic ''dirlink read''
     else if de_inum (get_dirent xs) = 0 then Ok off s
     else dirlink_loop dv dp (off + 16) offs s)"

definition dirlink :: "(nat \<Rightarrow> ('a kfs_scheme) devsw) \<Rightarrow> nat \<Rightarrow> (nat \<Rightarrow> u8) \<Rightarrow> u32 \<Rightarrow> 'a kfs_scheme
    \<Rightarrow> (int, 'a kfs_scheme) res" where
  "dirlink dv dp nm n s = bind (dirlookup dv dp nm s) (\<lambda>r s.
     case r of
       Some (i, off) \<Rightarrow> bind (iput i s) (\<lambda>_ s. Ok (-1) s)
     | None \<Rightarrow> bind (dirlink_loop dv dp 0 (dir_offs dp s) s) (\<lambda>off s.
         bind (writei dv dp (put_dirent \<lparr>de_inum = ucast n, de_name = strncpy_name nm\<rparr>) (of_nat off) 16 s) (\<lambda>r s.
         if r \<noteq> 16 then Panic ''dirlink'' else Ok 0 s)))"

section \<open>Paths\<close>

definition slash :: u8 where "slash = 47"

definition skipelem :: "u8 list \<Rightarrow> (nat \<Rightarrow> u8) \<Rightarrow> (u8 list \<times> (nat \<Rightarrow> u8)) option" where
  "skipelem pth nm =
    (let pth = dropWhile (\<lambda>c. c = slash) pth in
     if pth = [] then None
     else let s = takeWhile (\<lambda>c. c \<noteq> slash) pth; len = length s;
              nm = (if len \<ge> DIRSIZ then (\<lambda>i. if i < DIRSIZ then s ! i else nm i)
                    else (\<lambda>i. if i < len then s ! i else if i = len then 0 else nm i)) in
       Some (dropWhile (\<lambda>c. c = slash) (dropWhile (\<lambda>c. c \<noteq> slash) pth), nm))"

lemma skipelem_shorter: "skipelem pth nm = Some (pth', nm') \<Longrightarrow> length pth' < length pth"
proof -
  assume a: "skipelem pth nm = Some (pth', nm')"
  define q where "q = dropWhile (\<lambda>c. c = slash) pth"
  have q: "q \<noteq> []" and p: "pth' = dropWhile (\<lambda>c. c = slash) (dropWhile (\<lambda>c. c \<noteq> slash) q)"
    using a by (auto simp: skipelem_def Let_def q_def split: if_splits)
  have h: "hd q \<noteq> slash" using q hd_dropWhile [of "\<lambda>c. c = slash" pth] by (simp add: q_def)
  obtain c r where c: "q = c # r" using q by (cases q) auto
  have "length pth' \<le> length r" using h unfolding p c
    by (simp add: le_trans [OF length_dropWhile_le length_dropWhile_le])
  moreover have "length q \<le> length pth" unfolding q_def by (rule length_dropWhile_le)
  ultimately show ?thesis using c by simp
qed

text \<open>The loop of \<open>namex\<close>. The result is the inode, if any, and the last element copied.\<close>

function namex_loop :: "(nat \<Rightarrow> ('a kfs_scheme) devsw) \<Rightarrow> u8 list \<Rightarrow> bool \<Rightarrow> (nat \<Rightarrow> u8) \<Rightarrow> nat \<Rightarrow> 'a kfs_scheme
    \<Rightarrow> (nat option \<times> (nat \<Rightarrow> u8), 'a kfs_scheme) res" where
  "namex_loop dv pth par nm i s =
    (case skipelem pth nm of
       None \<Rightarrow> if par then bind (iput i s) (\<lambda>_ s. Ok (None, nm) s) else Ok (Some i, nm) s
     | Some (pth, nm) \<Rightarrow>
         bind (ilock (Some i) s) (\<lambda>_ s.
         if itype (inodes s i) \<noteq> T_DIR then bind (iunlockput i s) (\<lambda>_ s. Ok (None, nm) s)
         else if par \<and> pth = [] then bind (iunlock (Some i) s) (\<lambda>_ s. Ok (Some i, nm) s)
         else bind (dirlookup dv i nm s) (\<lambda>r s.
           case r of
             None \<Rightarrow> bind (iunlockput i s) (\<lambda>_ s. Ok (None, nm) s)
           | Some (nxt, _) \<Rightarrow> bind (iunlockput i s) (\<lambda>_ s. namex_loop dv pth par nm nxt s))))"
  by pat_completeness auto
termination by (relation "measure (\<lambda>(_, pth, _). length pth)") (auto dest: skipelem_shorter)

declare namex_loop.simps [simp del]

definition namex :: "(nat \<Rightarrow> ('a kfs_scheme) devsw) \<Rightarrow> u8 list \<Rightarrow> bool \<Rightarrow> (nat \<Rightarrow> u8) \<Rightarrow> 'a kfs_scheme
    \<Rightarrow> (nat option \<times> (nat \<Rightarrow> u8), 'a kfs_scheme) res" where
  "namex dv pth par nm s =
     bind (if take 1 pth = [slash] then iget ROOTDEV ROOTINO s
           else bind (curproc s) (\<lambda>p s. case cwd (procs s p) of None \<Rightarrow> Fault | Some i \<Rightarrow> idup i s)) (\<lambda>i s.
     namex_loop dv pth par nm i s)"

definition namei :: "(nat \<Rightarrow> ('a kfs_scheme) devsw) \<Rightarrow> u8 list \<Rightarrow> 'a kfs_scheme \<Rightarrow> (nat option, 'a kfs_scheme) res" where
  "namei dv pth s = bind (namex dv pth False (\<lambda>_. 0) s) (\<lambda>r s. Ok (fst r) s)"

definition nameiparent :: "(nat \<Rightarrow> ('a kfs_scheme) devsw) \<Rightarrow> u8 list \<Rightarrow> (nat \<Rightarrow> u8) \<Rightarrow> 'a kfs_scheme
    \<Rightarrow> (nat option \<times> (nat \<Rightarrow> u8), 'a kfs_scheme) res" where
  "nameiparent dv pth nm s = namex dv pth True nm s"

section \<open>Block allocation\<close>

lemma fs_frame:
  assumes "log_frame s t"
  shows "sb t = sb s" "inodes t = inodes s" "disksize t = disksize s" "kfs.more t = kfs.more s"
proof -
  have "klog.more t = klog.more s" "disksize t = disksize s" using assms by (simp_all add: log_frame_def)
  then show "sb t = sb s" "inodes t = inodes s" "disksize t = disksize s" "kfs.more t = kfs.more s"
    by (cases s, cases t, simp)+
qed

lemma block_updD:
  assumes "block_upd p k n x s t"
  shows "trans_ok p k t" "log_frame s t" "blk t = (blk s)(n := x)"
  using assms by (auto simp: block_upd_def)

lemma block_upd_trans: "block_upd p k n x s t \<Longrightarrow> block_upd p j m y t u \<Longrightarrow>
    trans_ok p j u \<and> log_frame s u \<and> blk u = (blk s)(n := x, m := y)"
  by (auto simp: block_upd_def intro: lf.trans)

lemma bzero_spec:
  assumes "trans_ok p (Suc k) s" "n < disksize s"
  shows "\<exists>t. bzero 1 n s = Ok () t \<and> block_upd p k n (\<lambda>_. 0) s t"
proof -
  obtain b t where b: "bread 1 n s = Ok b t"
    "\<And>x. \<exists>v w. log_write b (set_data b x t) = Ok () v \<and> brelse b v = Ok () w \<and> log_frame s v \<and> block_upd p k n x s w"
    using log_bread [OF assms] by metis
  obtain v w where "log_write b (set_data b (\<lambda>_. 0) t) = Ok () v" "brelse b v = Ok () w" "block_upd p k n (\<lambda>_. 0) s w"
    using b(2) by blast
  then show ?thesis using b(1) by (simp add: bzero_def)
qed

text \<open>The block is free, according to the map; and the first free block among those of some groups.\<close>

definition blk_free :: "superblock \<Rightarrow> (u32 \<Rightarrow> block) \<Rightarrow> nat \<Rightarrow> bool" where
  "blk_free x d a \<longleftrightarrow> a < unat (sb_size x) \<and> bit_free (d (BBLOCK a x)) (a mod BPB)"

definition first_free :: "superblock \<Rightarrow> (u32 \<Rightarrow> block) \<Rightarrow> nat list \<Rightarrow> nat option" where
  "first_free x d as = find (blk_free x d) as"

lemma find_append: "find P (xs @ ys) = (case find P xs of None \<Rightarrow> find P ys | Some a \<Rightarrow> Some a)"
  by (induction xs) auto

lemma find_map: "find P (map f xs) = map_option f (find (\<lambda>x. P (f x)) xs)"
  by (induction xs) auto

lemma group_facts:
  assumes "b mod BPB = 0" "bi < BPB"
  shows "BBLOCK (b + bi) x = BBLOCK b x" "(b + bi) mod BPB = bi"
proof -
  obtain q where "b = BPB * q" using assms(1) by (auto simp: mod_eq_0_iff_dvd dvd_def)
  then show "BBLOCK (b + bi) x = BBLOCK b x" "(b + bi) mod BPB = bi"
    using assms(2) by (simp_all add: BBLOCK_def)
qed

lemma find_cong: "(\<And>x. x \<in> set xs \<Longrightarrow> P x = Q x) \<Longrightarrow> find P xs = find Q xs"
  by (induction xs) auto

lemma find_group:
  assumes "b mod BPB = 0"
  shows "find (\<lambda>bi. b + bi < unat (sb_size x) \<and> bit_free (d (BBLOCK b x)) bi) [0..<BPB]
    = map_option (\<lambda>a. a - b) (first_free x d [b..<b + BPB])"
proof -
  have "[b..<BPB + b] = map (\<lambda>i. i + b) [0..<BPB]" by (simp only: map_add_upt)
  then have "[b..<b + BPB] = map ((+) b) [0..<BPB]" by (simp add: add.commute)
  then have "first_free x d [b..<b + BPB] = map_option ((+) b) (find (\<lambda>bi. blk_free x d (b + bi)) [0..<BPB])"
    by (simp add: first_free_def find_map)
  moreover have "find (\<lambda>bi. blk_free x d (b + bi)) [0..<BPB]
    = find (\<lambda>bi. b + bi < unat (sb_size x) \<and> bit_free (d (BBLOCK b x)) bi) [0..<BPB]"
    by (rule find_cong) (simp add: blk_free_def group_facts [OF assms])
  ultimately show ?thesis by (simp add: option.map_comp comp_def option.map_ident)
qed

text \<open>The blocks after the allocation of block \<open>a\<close>.\<close>

definition after_balloc :: "superblock \<Rightarrow> nat \<Rightarrow> (u32 \<Rightarrow> block) \<Rightarrow> u32 \<Rightarrow> block" where
  "after_balloc x a d = d(BBLOCK a x := set_bit_used (a mod BPB) (d (BBLOCK a x)), of_nat a := (\<lambda>_. 0))"

definition map_ok :: "'a kfs_scheme \<Rightarrow> bool" where
  "map_ok s \<longleftrightarrow> unat (sb_size (sb s)) \<le> unat (disksize s) \<and> (\<forall>b < unat (sb_size (sb s)). BBLOCK b (sb s) < disksize s)"

lemma of_nat_less_disk:
  assumes "map_ok s" "a < unat (sb_size (sb s))"
  shows "of_nat a < disksize s"
proof -
  have "unat (sb_size (sb s)) < 4294967296" using unsigned_less [of "sb_size (sb s)", where 'a = nat] by simp
  then have "a < 4294967296" using assms(2) by linarith
  then have "unat (of_nat a :: u32) = a" by (rule unat_of_nat32)
  then show ?thesis using assms by (simp add: map_ok_def word_less_nat_alt)
qed

lemma balloc_loop_spec:
  assumes "trans_ok p (Suc (Suc k)) s" "map_ok s" "\<And>b. b \<in> set bs \<Longrightarrow> b mod BPB = 0 \<and> b < unat (sb_size (sb s))"
  shows "case first_free (sb s) (blk s) (concat (map (\<lambda>b. [b..<b + BPB]) bs)) of
      None \<Rightarrow> balloc_loop 1 bs s = Panic ''balloc: out of blocks''
    | Some a \<Rightarrow> \<exists>t. balloc_loop 1 bs s = Ok (of_nat a) t \<and> trans_ok p k t \<and> log_frame s t \<and> blk t = after_balloc (sb s) a (blk s)"
  using assms
proof (induction bs arbitrary: s)
  case Nil
  then show ?case by (simp add: first_free_def)
next
  case (Cons b bs)
  have b: "b mod BPB = 0" "b < unat (sb_size (sb s))" using Cons.prems(3) by auto
  then have d: "BBLOCK b (sb s) < disksize s" using Cons.prems(2) by (simp add: map_ok_def)
  obtain bp t where t: "bread 1 (BBLOCK b (sb s)) s = Ok bp t" "bdata (bufs t bp) = blk s (BBLOCK b (sb s))" "log_frame s t"
    "\<exists>u. brelse bp t = Ok () u \<and> trans_ok p (Suc (Suc k)) u \<and> log_frame s u \<and> blk u = blk s"
    "\<And>x. \<exists>v w. log_write bp (set_data bp x t) = Ok () v \<and> brelse bp v = Ok () w \<and> log_frame s v
       \<and> block_upd p (Suc k) (BBLOCK b (sb s)) x s w"
    using log_bread [OF Cons.prems(1) d] by metis
  note ft = fs_frame [OF t(3)]
  have eq: "balloc_loop 1 (b # bs) s = (case map_option (\<lambda>a. a - b) (first_free (sb s) (blk s) [b..<b + BPB]) of
       Some bi \<Rightarrow>
         bind (log_write bp (set_data bp (set_bit_used bi (blk s (BBLOCK b (sb s)))) t)) (\<lambda>_ s.
         bind (brelse bp s) (\<lambda>_ s.
         bind (bzero 1 (of_nat (b + bi)) s) (\<lambda>_ s. Ok (of_nat (b + bi)) s)))
     | None \<Rightarrow> bind (brelse bp t) (\<lambda>_ s. balloc_loop 1 bs s))"
    using t(1,2) ft find_group [OF b(1), of "sb s" "blk s"]
    by (cases "first_free (sb s) (blk s) [b..<b + BPB]") simp_all
  show ?case
  proof (cases "first_free (sb s) (blk s) [b..<b + BPB]")
    case None
    obtain u where u: "brelse bp t = Ok () u" "trans_ok p (Suc (Suc k)) u" "log_frame s u" "blk u = blk s" using t(4) by blast
    have "map_ok u" using Cons.prems(2) fs_frame [OF u(3)] by (simp add: map_ok_def)
    from Cons.IH [OF u(2) this] show ?thesis
      using eq None u fs_frame [OF u(3)] Cons.prems(3)
      by (auto simp: first_free_def find_append split: option.splits intro: lf.trans)
  next
    case (Some a)
    then have a: "b \<le> a" "a < b + BPB" "blk_free (sb s) (blk s) a" by (auto simp: first_free_def find_Some_iff)
    then have g: "BBLOCK a (sb s) = BBLOCK b (sb s)" "a mod BPB = a - b" "b + (a - b) = a"
      using group_facts [OF b(1), of "a - b"] by auto
    obtain v w where v: "log_write bp (set_data bp (set_bit_used (a - b) (blk s (BBLOCK b (sb s)))) t) = Ok () v" "brelse bp v = Ok () w"
      "block_upd p (Suc k) (BBLOCK b (sb s)) (set_bit_used (a - b) (blk s (BBLOCK b (sb s)))) s w"
      using t(5) by blast
    have "of_nat a < disksize w"
      using of_nat_less_disk [OF Cons.prems(2)] a(3) fs_frame(3) [OF block_updD(2) [OF v(3)]] by (simp add: blk_free_def)
    then obtain z where z: "bzero 1 (of_nat a) w = Ok () z" "block_upd p k (of_nat a) (\<lambda>_. 0) w z"
      using bzero_spec [OF block_updD(1) [OF v(3)]] by blast
    show ?thesis using eq Some v(1,2) z(1) block_upd_trans [OF v(3) z(2)] g
      by (simp add: first_free_def find_append after_balloc_def)
  qed
qed

lemma bit_free_iff: "bit_free x bi \<longleftrightarrow> \<not> bit (x (bi div 8)) (bi mod 8)"
  by (simp add: bit_free_def push_bit_eq_mult and_exp_eq_0_iff_not_bit)

lemma bit_index: "i div 8 = j div 8 \<and> i mod 8 = j mod 8 \<longleftrightarrow> i = j" for i j :: nat
  by (metis div_mult_mod_eq)

lemma bit_set_used: "bit_free (set_bit_used i x) j \<longleftrightarrow> bit_free x j \<and> i \<noteq> j"
  using bit_index [of i j] by (auto simp: bit_free_iff set_bit_used_def bit_simps)

lemma bit_set_free: "bit_free (set_bit_free i x) j \<longleftrightarrow> bit_free x j \<or> i = j"
proof -
  have "j mod 8 < 8" by simp
  then show ?thesis using bit_index [of i j] by (auto simp: bit_free_iff set_bit_free_def bit_simps)
qed

lemma groups_concat: "concat (map (\<lambda>b. [b..<b + n]) (map (\<lambda>k. k * n) [0..<m])) = [0..<m * n]"
proof (induction m)
  case (Suc m)
  have "[0..<m * n + n] = [0..<m * n] @ [m * n..<m * n + n]" by (rule upt_add_eq_append) simp
  then show ?case using Suc by (simp add: add.commute)
qed simp

lemma find_beyond:
  assumes "\<And>a. P a \<Longrightarrow> a < n" "n \<le> m"
  shows "find P [0..<m] = find P [0..<n]"
proof -
  have "[0..<m] = [0..<n] @ [n..<m]" using assms(2) by (metis le_add_diff_inverse upt_add_eq_append zero_le)
  moreover have "find P [n..<m] = None" using assms(1) by (force simp: find_None_iff)
  ultimately show ?thesis by (simp add: find_append split: option.splits)
qed

lemma balloc_spec:
  assumes "trans_ok p (Suc (Suc k)) s" "map_ok s"
  shows "case first_free (sb s) (blk s) [0..<unat (sb_size (sb s))] of
      None \<Rightarrow> balloc 1 s = Panic ''balloc: out of blocks''
    | Some a \<Rightarrow> \<exists>t. balloc 1 s = Ok (of_nat a) t \<and> trans_ok p k t \<and> log_frame s t \<and> blk t = after_balloc (sb s) a (blk s)"
proof -
  let ?n = "unat (sb_size (sb s))"
  let ?m = "(?n + BPB - 1) div BPB"
  have B: "0 < BPB" by (simp add: BPB_def BSIZE_def)
  have k: "k * BPB < ?n" if "k < ?m" for k
  proof -
    have "Suc k * BPB \<le> ?n + BPB - 1" using that B by (metis Suc_leI less_eq_div_iff_mult_less_eq)
    then show ?thesis using B by simp
  qed
  have m: "?n \<le> ?m * BPB"
  proof -
    have "?n + BPB - 1 < Suc ?m * BPB" using B by (metis dividend_less_div_times mult_Suc add.commute)
    then show ?thesis using B by simp
  qed
  have "first_free (sb s) (blk s) [0..<?m * BPB] = first_free (sb s) (blk s) [0..<?n]"
    unfolding first_free_def by (rule find_beyond) (use m in \<open>auto simp: blk_free_def\<close>)
  then have f: "first_free (sb s) (blk s) (concat (map (\<lambda>b. [b..<b + BPB]) (map (\<lambda>k. k * BPB) [0..<?m])))
    = first_free (sb s) (blk s) [0..<?n]" by (simp only: groups_concat)
  show ?thesis unfolding f [symmetric] balloc_def by (rule balloc_loop_spec [OF assms]) (use k in auto)
qed

text \<open>The map itself is marked as in use.\<close>

definition map_marked :: "'a kfs_scheme \<Rightarrow> bool" where
  "map_marked s \<longleftrightarrow> (\<forall>a b. blk_free (sb s) (blk s) a \<longrightarrow> b < unat (sb_size (sb s)) \<longrightarrow> BBLOCK b (sb s) \<noteq> of_nat a)"

lemma BBLOCK_inj:
  assumes "map_ok s" "a < unat (sb_size (sb s))" "b < unat (sb_size (sb s))" "a mod BPB = b mod BPB" "BBLOCK a (sb s) = BBLOCK b (sb s)"
  shows "a = b"
proof -
  have lt: "x div BPB < 4294967296" if "x < unat (sb_size (sb s))" for x
  proof -
    have "unat (sb_size (sb s)) < 4294967296" using unsigned_less [of "sb_size (sb s)", where 'a = nat] by simp
    moreover have "x div BPB \<le> x" by (rule div_le_dividend)
    ultimately show ?thesis using that by linarith
  qed
  have "of_nat (a div BPB) = (of_nat (b div BPB) :: u32)" using assms(5) by (simp add: BBLOCK_def)
  then have "unat (of_nat (a div BPB) :: u32) = unat (of_nat (b div BPB) :: u32)" by simp
  then have "a div BPB = b div BPB" by (simp only: unat_of_nat32 lt assms(2,3))
  then show ?thesis using assms(4) by (metis div_mult_mod_eq)
qed

text \<open>How marking and unmarking a bit changes the set of free blocks.\<close>

lemma free_after_set:
  assumes "map_ok s" "a < unat (sb_size (sb s))" "b < unat (sb_size (sb s))"
  shows "bit_free (((blk s)(BBLOCK a (sb s) := set_bit_used (a mod BPB) (blk s (BBLOCK a (sb s))))) (BBLOCK b (sb s))) (b mod BPB)
      \<longleftrightarrow> bit_free (blk s (BBLOCK b (sb s))) (b mod BPB) \<and> a \<noteq> b"
    "bit_free (((blk s)(BBLOCK a (sb s) := set_bit_free (a mod BPB) (blk s (BBLOCK a (sb s))))) (BBLOCK b (sb s))) (b mod BPB)
      \<longleftrightarrow> bit_free (blk s (BBLOCK b (sb s))) (b mod BPB) \<or> a = b"
  using BBLOCK_inj [OF assms(1,2,3)] by (auto simp: bit_set_used bit_set_free)

text \<open>C20: \<open>balloc\<close> inside a transaction with room for two blocks returns the first block that the map
  shows as free, marks it, and zeroes its contents; every other block keeps its contents, the set
  of free blocks loses exactly that block, and nothing is written to the disk before the commit. It
  panics if and only if no block is free.\<close>

theorem balloc_allocates:
  assumes "trans_ok p 2 s" "map_ok s" "map_marked s"
  shows "case find (blk_free (sb s) (blk s)) [0..<unat (sb_size (sb s))] of
      None \<Rightarrow> balloc 1 s = Panic ''balloc: out of blocks''
    | Some a \<Rightarrow> \<exists>t. balloc 1 s = Ok (of_nat a) t \<and> blk t (of_nat a) = (\<lambda>_. 0) \<and> disk t = disk s \<and> inodes t = inodes s
        \<and> (\<forall>b. blk_free (sb t) (blk t) b \<longleftrightarrow> blk_free (sb s) (blk s) b \<and> b \<noteq> a)
        \<and> (\<forall>c. c \<noteq> of_nat a \<longrightarrow> c \<noteq> BBLOCK a (sb s) \<longrightarrow> blk t c = blk s c) \<and> trans_ok p 0 t"
proof (cases "find (blk_free (sb s) (blk s)) [0..<unat (sb_size (sb s))]")
  case None
  then show ?thesis using balloc_spec [of p 0 s] assms by (simp add: first_free_def numeral_2_eq_2)
next
  case (Some a)
  obtain t where t: "balloc 1 s = Ok (of_nat a) t" "trans_ok p 0 t" "log_frame s t" "blk t = after_balloc (sb s) a (blk s)"
    using balloc_spec [of p 0 s] assms Some by (auto simp: first_free_def numeral_2_eq_2)
  have a: "blk_free (sb s) (blk s) a" "a < unat (sb_size (sb s))" using Some by (auto simp: find_Some_iff)
  have "blk_free (sb s) (blk t) b \<longleftrightarrow> blk_free (sb s) (blk s) b \<and> b \<noteq> a" for b
  proof (cases "b < unat (sb_size (sb s))")
    case True
    then have "BBLOCK b (sb s) \<noteq> of_nat a" using assms(3) a(1) by (simp add: map_marked_def)
    then show ?thesis using True free_after_set(1) [OF assms(2) a(2) True]
      by (auto simp: blk_free_def t(4) after_balloc_def)
  qed (simp add: blk_free_def)
  then show ?thesis using Some t fs_frame [OF t(3)] by (simp add: after_balloc_def log_frame_def)
qed

text \<open>
  A small file system in a transaction that has logged block 7: the map is block 58 and only it is
  marked; every inode is a file of 600 bytes in blocks 100 and 101.
\<close>

definition kfs0 :: kfs where
  "kfs0 = klog.extend (klog1\<lparr>disk := (disk klog1)(58 := (\<lambda>i. if i = 7 then 4 else 0))\<rparr>)
     (kfs.fields \<lparr>sb_size = 60, nblocks = 1, ninodes = 200, nlog = 30, logstart = 2, inodestart = 32, bmapstart = 58\<rparr>
       (\<lambda>_. \<lparr>i_dev = 1, inum = 5, iref = 1, i_valid = True, itype = T_FILE, major = 0, minor = 0, nlink = 1, isize = 600,
          addrs = (\<lambda>k. if k < 2 then 100 + of_nat k else 0)\<rparr>))"

lemma kfs0_fields [simp]:
  "bufs kfs0 = bufs klog0" "disk kfs0 = (disk klog0)(58 := (\<lambda>i. if i = 7 then 4 else 0))" "sleeplocks kfs0 = sleeplocks klog0"
  "procs kfs0 = procs klog0" "lg_size kfs0 = 31" "outstanding kfs0 = 1" "lh_n kfs0 = 1" "lh_block kfs0 = (\<lambda>_. 7)"
  "disksize kfs0 = 1000" "kern_ok p kfs0 = kern_ok p klog0"
  "sb kfs0 = \<lparr>sb_size = 60, nblocks = 1, ninodes = 200, nlog = 30, logstart = 2, inodestart = 32, bmapstart = 58\<rparr>"
  "inodes kfs0 i = \<lparr>i_dev = 1, inum = 5, iref = 1, i_valid = True, itype = T_FILE, major = 0, minor = 0, nlink = 1, isize = 600,
          addrs = (\<lambda>k. if k < 2 then 100 + of_nat k else 0)\<rparr>"
  using kbuf0_ok(2) klog0_fields(10)
  by (simp_all add: kfs0_def klog1_def klog.defs kfs.defs kern_ok_def mach_ok_def curcpu_def lk_free_def)

lemma kfs0_ok: "trans_ok 0 2 kfs0" "blk kfs0 58 = (\<lambda>i. if i = 7 then 4 else 0)" "dirty_blocks kfs0 = {7}"
proof -
  note I = klog0_ready(5) and K = klog0_ready(6)
  have c: "cached kfs0 n b \<longleftrightarrow> b = 0 \<and> n = 7" for n b using K by (simp only: cached_def kfs0_fields)
  have inv: "cache_inv 0 {} (rev [0..<NBUF]) kfs0"
  proof (rule cache_invI)
    show "blist kfs0 (rev [0..<NBUF])" using cache_invD(1) [OF I] by (simp only: blist_def kfs0_fields)
    show "buf_owned 0 {} kfs0 b" if "b < NBUF" for b
      using cache_invD(4) [OF I that] by (simp only: buf_owned_def kfs0_fields)
    show "b_valid (bufs kfs0 b) \<longleftrightarrow> dev (bufs kfs0 b) = 1" if "b < NBUF" for b
      using cache_invD(5) [OF I that] by (simp only: kfs0_fields)
    show "b_valid (bufs kfs0 b)" if "b < NBUF" "b_dirty (bufs kfs0 b)" for b
      using cache_invD(6) [OF I that(1)] that(2) by (simp only: kfs0_fields)
  qed (auto simp: c)
  have "kern_ok 0 klog0" using klog0_ready(1) by (auto simp: commit_ready_def cache_def cache_ok_def)
  then have cc: "cache 0 {} kfs0" using inv by (auto simp: cache_def cache_ok_def)
  show d: "dirty_blocks kfs0 = {7}" by (auto simp: dirty_blocks_def c)
  show "blk kfs0 58 = (\<lambda>i. if i = 7 then 4 else 0)" by (rule blk_eqI [OF inv]) (auto simp: c)
  have l: "logged kfs0 = [7]" by (simp add: logged_def)
  show "trans_ok 0 2 kfs0" using cc d l by (simp add: trans_ok_def in_trans_def LOGSIZE_def MAXOPBLOCKS_def)
qed

lemma kfs0_BBLOCK: "b < 60 \<Longrightarrow> BBLOCK b (sb kfs0) = 58"
  by (simp add: BBLOCK_def BPB_def BSIZE_def)

theorem balloc_allocates_witness:
  "\<exists>t. balloc 1 kfs0 = Ok 0 t \<and> blk t 0 = (\<lambda>_. 0) \<and> \<not> blk_free (sb t) (blk t) 0 \<and> blk_free (sb t) (blk t) 1"
proof -
  have f: "blk_free (sb kfs0) (blk kfs0) b \<longleftrightarrow> b < 60 \<and> b \<noteq> 58" for b
  proof (cases "b < 60")
    case True
    have "b div 8 = 7 \<and> b mod 8 = 2 \<longleftrightarrow> b = 58" using bit_index [of b 58] by simp
    moreover have "bit (4 :: u8) k \<longleftrightarrow> k = 2" if "k < 8" for k
      using that bit_exp_iff [of 2 k, where 'a = u8] by auto
    moreover have "b mod BPB = b" using True by (simp add: BPB_def BSIZE_def)
    ultimately show ?thesis using True kfs0_BBLOCK [OF True] kfs0_ok(2) by (auto simp: blk_free_def bit_free_iff)
  qed (simp add: blk_free_def)
  have m: "map_ok kfs0" using kfs0_BBLOCK by (auto simp: map_ok_def)
  have "(58 :: u32) \<noteq> of_nat a" if "a < 60" "a \<noteq> 58" for a
  proof
    assume "(58 :: u32) = of_nat a"
    then have "unat (58 :: u32) = unat (of_nat a :: u32)" by (rule arg_cong)
    then show False using that unat_of_nat32 [of a] by simp
  qed
  then have "map_marked kfs0" using f kfs0_BBLOCK by (simp add: map_marked_def)
  moreover have "[0..<60] = 0 # [1..<60]" by (simp add: upt_conv_Cons)
  ultimately show ?thesis using balloc_allocates [OF kfs0_ok(1) m] f by auto
qed

section \<open>Reading a file\<close>

text \<open>
  The block of a file's \<open>k\<close>-th piece of contents, and a byte of the file; a file all of whose blocks are
  allocated and lie on the disk.
\<close>

definition blkaddr :: "inode \<Rightarrow> (u32 \<Rightarrow> block) \<Rightarrow> nat \<Rightarrow> u32" where
  "blkaddr ip d k = (if k < NDIRECT then addrs ip k else get32 (d (addrs ip NDIRECT)) (4 * (k - NDIRECT)))"

definition file_byte :: "inode \<Rightarrow> (u32 \<Rightarrow> block) \<Rightarrow> nat \<Rightarrow> u8" where
  "file_byte ip d q = d (blkaddr ip d (q div BSIZE)) (q mod BSIZE)"

definition file_mapped :: "u32 \<Rightarrow> inode \<Rightarrow> (u32 \<Rightarrow> block) \<Rightarrow> bool" where
  "file_mapped siz ip d \<longleftrightarrow> i_dev ip = 1 \<and> unat (isize ip) \<le> MAXFILE * BSIZE
     \<and> (\<forall>k. k * BSIZE < unat (isize ip) \<longrightarrow> blkaddr ip d k \<noteq> 0 \<and> blkaddr ip d k < siz
          \<and> (NDIRECT \<le> k \<longrightarrow> addrs ip NDIRECT \<noteq> 0 \<and> addrs ip NDIRECT < siz))"

lemma same_view_fs:
  assumes "same_view p s t"
  shows "sb t = sb s" "inodes t = inodes s" "disksize t = disksize s" "blk t = blk s" "rd_ok p t" "log_frame s t"
  using assms fs_frame [of s t] by (auto simp: same_view_def)

lemma bmap_mapped:
  assumes "rd_ok p s" "file_mapped (disksize s) (inodes s i) (blk s)" "k * BSIZE < unat (isize (inodes s i))"
  shows "\<exists>t. bmap i (of_nat k) s = Ok (blkaddr (inodes s i) (blk s) k) t \<and> same_view p s t"
proof -
  let ?ip = "inodes s i"
  have m: "blkaddr ?ip (blk s) k \<noteq> 0" "NDIRECT \<le> k \<Longrightarrow> addrs ?ip NDIRECT \<noteq> 0 \<and> addrs ?ip NDIRECT < disksize s" "i_dev ?ip = 1"
    "k < MAXFILE" using assms(2,3) by (auto simp: file_mapped_def BSIZE_def)
  then have k: "unat (of_nat k :: u32) = k"
    by (intro unat_of_nat32) (simp add: MAXFILE_def NDIRECT_def NINDIRECT_def BSIZE_def)
  show ?thesis
  proof (cases "k < NDIRECT")
    case True
    have "same_view p s s" using assms(1) by (simp add: same_view_def)
    then show ?thesis using True k m(1) by (auto simp: bmap_def Let_def blkaddr_def)
  next
    case False
    then have a: "addrs ?ip NDIRECT \<noteq> 0" "addrs ?ip NDIRECT < disksize s" using m(2) by auto
    obtain b t u where b: "bread 1 (addrs ?ip NDIRECT) s = Ok b t" "bdata (bufs t b) = blk s (addrs ?ip NDIRECT)" "log_frame s t"
      "brelse b t = Ok () u" "same_view p s u" by (rule cache_bread [OF assms(1) a(2)])
    have "k - NDIRECT < NINDIRECT" "get32 (blk s (addrs ?ip NDIRECT)) (4 * (k - NDIRECT)) \<noteq> 0"
      using False m(1,4) by (auto simp: MAXFILE_def blkaddr_def)
    then show ?thesis using False k a b m(3) by (auto simp: bmap_def Let_def blkaddr_def)
  qed
qed

lemma chunks_facts:
  "(q, m) \<in> set (chunks off n) \<Longrightarrow> q mod BSIZE + m \<le> BSIZE \<and> 0 < m \<and> off \<le> q \<and> q + m \<le> off + n"
  "concat (map (\<lambda>(q, m). [q..<q + m]) (chunks off n)) = [off..<off + n]"
proof (induction off n rule: chunks.induct)
  case (1 off n)
  let ?m = "min n (BSIZE - off mod BSIZE)"
  have B: "off mod BSIZE < BSIZE" by (simp add: BSIZE_def)
  {
    case 1
    then show ?case using "1.IH"(1) [OF _ refl] B by (subst (asm) chunks.simps) (fastforce simp: Let_def split: if_splits)
  next
    case 2
    show ?case
    proof (cases "n = 0")
      case False
      have "[off..<off + n] = [off..<off + ?m] @ [off + ?m..<off + ?m + (n - ?m)]"
        using upt_add_eq_append [of off "off + ?m" "n - ?m"] by simp
      then show ?thesis using "1.IH"(2) [OF False refl] False by (subst chunks.simps) (simp add: Let_def)
    qed (simp add: chunks.simps)
  }
qed

lemma block_offset:
  assumes "q mod BSIZE + m \<le> BSIZE" "j < m"
  shows "(q + j) div BSIZE = q div BSIZE" "(q + j) mod BSIZE = q mod BSIZE + j"
proof -
  have e: "q + j = q div BSIZE * BSIZE + (q mod BSIZE + j)" by (metis add.assoc div_mult_mod_eq)
  have "(a * BSIZE + r) div BSIZE = a" "(a * BSIZE + r) mod BSIZE = r" if "r < BSIZE" for a r using that by simp_all
  moreover have "q mod BSIZE + j < BSIZE" using assms by simp
  ultimately show "(q + j) div BSIZE = q div BSIZE" "(q + j) mod BSIZE = q mod BSIZE + j" unfolding e by blast+
qed

lemma chunk_bytes:
  assumes "q mod BSIZE + m \<le> BSIZE"
  shows "map (d (blkaddr ip d (q div BSIZE))) [q mod BSIZE..<q mod BSIZE + m] = map (file_byte ip d) [q..<q + m]"
  by (rule nth_equalityI) (simp_all add: file_byte_def block_offset [OF assms])

lemma readi_loop_mapped:
  assumes "rd_ok p s" "file_mapped (disksize s) (inodes s i) (blk s)"
    "\<And>q m. (q, m) \<in> set cs \<Longrightarrow> q mod BSIZE + m \<le> BSIZE \<and> 0 < m \<and> q + m \<le> unat (isize (inodes s i))"
  shows "\<exists>t. readi_loop i cs s = Ok (map (file_byte (inodes s i) (blk s)) (concat (map (\<lambda>(q, m). [q..<q + m]) cs))) t \<and> same_view p s t"
  using assms
proof (induction cs arbitrary: s)
  case Nil
  then show ?case by (simp add: same_view_def)
next
  case (Cons c cs)
  obtain q m where c: "c = (q, m)" by (cases c)
  have qm: "q mod BSIZE + m \<le> BSIZE" "0 < m" "q + m \<le> unat (isize (inodes s i))" using Cons.prems(3) [of q m] c by auto
  have k: "q div BSIZE * BSIZE < unat (isize (inodes s i))" using qm by (metis add_lessD1 div_times_less_eq_dividend le_less_trans less_add_same_cancel1 less_le_trans)
  obtain t where t: "bmap i (of_nat (q div BSIZE)) s = Ok (blkaddr (inodes s i) (blk s) (q div BSIZE)) t" "same_view p s t"
    using bmap_mapped [OF Cons.prems(1,2) k] by blast
  note v = same_view_fs [OF t(2)]
  have a: "blkaddr (inodes s i) (blk s) (q div BSIZE) < disksize t" "i_dev (inodes s i) = 1"
    using Cons.prems(2) k v(3) by (auto simp: file_mapped_def)
  obtain b u w where b: "bread 1 (blkaddr (inodes s i) (blk s) (q div BSIZE)) t = Ok b u"
    "bdata (bufs u b) = blk t (blkaddr (inodes s i) (blk s) (q div BSIZE))" "brelse b u = Ok () w" "same_view p t w"
    using cache_bread [OF v(5) a(1)] by metis
  note w = same_view_fs [OF same_view_trans [OF t(2) b(4)]]
  obtain z where z: "readi_loop i cs w = Ok (map (file_byte (inodes s i) (blk s)) (concat (map (\<lambda>(q, m). [q..<q + m]) cs))) z" "same_view p w z"
    using Cons.IH [OF w(5)] Cons.prems(2,3) w by auto
  show ?case using t b z a(2) v c chunk_bytes [OF qm(1), of "blk s" "inodes s i"] same_view_trans [OF t(2) same_view_trans [OF b(4) z(2)]]
    by (simp add: Let_def)
qed

text \<open>C21: Reading a regular file or directory all of whose blocks are allocated. \<open>readi\<close> returns, without
  changing any block: an offset beyond the end or an \<open>off + n\<close> that overflows gives -1 and no bytes;
  otherwise the result is the number of bytes from \<open>off\<close> to \<open>off + n\<close> or the end of the file,
  whichever comes first, and the bytes are those of the direct and indirect blocks in order.\<close>

theorem readi_returns_contents:
  fixes s :: "'a kfs_scheme"
  assumes "rd_ok p s" "file_mapped (disksize s) (inodes s i) (blk s)" "itype (inodes s i) \<noteq> T_DEV"
  defines "ip \<equiv> inodes s i"
  shows "returns (readi dv i off n s) (\<lambda>(r, xs) t. blk t = blk s \<and> disk t = disk s \<and> inodes t = inodes s \<and> rd_ok p t
    \<and> (if off > isize ip \<or> off + n < off then r = -1 \<and> xs = []
       else r = int (min (unat n) (unat (isize ip) - unat off)) \<and> xs = map (file_byte ip (blk s)) [unat off..<unat off + nat r]))"
proof (cases "off > isize ip \<or> off + n < off")
  case True
  then show ?thesis using assms by (auto simp: readi_def Let_def)
next
  case False
  define n' where "n' = (if off + n > isize ip then isize ip - off else n)"
  have le: "off \<le> isize ip" "\<not> off + n < off" using False by auto
  have nn: "unat (off + n) = unat off + unat n" using le(2)
    by (metis not_less unat_plus_simple)
  have n': "unat n' = min (unat n) (unat (isize ip) - unat off)"
    using le(1) by (auto simp: n'_def word_less_nat_alt word_le_nat_alt nn unat_sub min_def)
  have "unat n' \<le> 71680" using assms(2) n' by (auto simp: file_mapped_def ip_def MAXFILE_def NDIRECT_def NINDIRECT_def BSIZE_def)
  then have "int (unat n') \<le> 71680" by linarith
  then have "- (2 ^ 31) \<le> uint n'" "uint n' < 2 ^ 31" using uint_ge_0 [of n'] by (simp_all, linarith)
  then have s': "sint n' = int (unat n')" using signed_take_bit_int_eq_self [of 31 "uint n'"] by (simp add: sint_uint)
  have "q mod BSIZE + m \<le> BSIZE \<and> 0 < m \<and> q + m \<le> unat (isize (inodes s i))" if "(q, m) \<in> set (chunks (unat off) (unat n'))" for q m
    using chunks_facts(1) [OF that] n' le(1) by (auto simp: ip_def word_le_nat_alt)
  then obtain t where t: "readi_loop i (chunks (unat off) (unat n')) s = Ok (map (file_byte ip (blk s)) [unat off..<unat off + unat n']) t" "same_view p s t"
    using readi_loop_mapped [OF assms(1,2), of "chunks (unat off) (unat n')"] chunks_facts(2) [of "unat off" "unat n'"] by (auto simp: ip_def)
  note v = same_view_fs [OF t(2)]
  have "readi dv i off n s = Ok (sint n', map (file_byte ip (blk s)) [unat off..<unat off + unat n']) t"
    using False assms(3) t(1) unfolding readi_def Let_def ip_def [symmetric] n'_def [symmetric] by simp
  then show ?thesis using False v n' s' by (simp add: log_frame_def)
qed

lemma kfs0_blk: "n \<noteq> 7 \<Longrightarrow> n \<noteq> 58 \<Longrightarrow> blk kfs0 n = (\<lambda>i. if i = 0 then ucast n else 0)"
proof -
  assume n: "n \<noteq> 7" "n \<noteq> 58"
  have "cache 0 {} (binit kbuf0)" using kbuf0_ok(1) by (auto simp: cache_def)
  then have "disk (binit kbuf0) n = disk kbuf0 n" using cache_clean [of 0 "{}" "binit kbuf0" n] kbuf0_ok(3,4) by simp
  moreover have "blk kfs0 n = disk kfs0 n"
    using cache_clean [of 0 "{}" kfs0 n] kfs0_ok(1,3) n by (auto simp: trans_ok_def)
  ultimately show ?thesis using n by (simp add: kbuf0_def kproc.defs)
qed

theorem readi_returns_contents_witness:
  "returns (readi (\<lambda>_. \<lparr>dev_read = None, dev_write = None\<rparr>) 3 510 4 kfs0) (\<lambda>(r, xs) t. r = 4 \<and> xs = [0, 0, 101, 0])"
proof -
  have a: "blkaddr (inodes kfs0 3) (blk kfs0) 0 = 100" "blkaddr (inodes kfs0 3) (blk kfs0) 1 = 101"
    by (simp_all add: blkaddr_def NDIRECT_def)
  have "blkaddr (inodes kfs0 3) (blk kfs0) k \<noteq> 0 \<and> blkaddr (inodes kfs0 3) (blk kfs0) k < 1000 \<and> \<not> NDIRECT \<le> k"
    if "k * BSIZE < 600" for k
  proof -
    have "k = 0 \<or> k = 1" using that by (simp add: BSIZE_def) linarith
    then show ?thesis using a by (auto simp: NDIRECT_def)
  qed
  then have "file_mapped (disksize kfs0) (inodes kfs0 3) (blk kfs0)"
    by (simp add: file_mapped_def) (simp add: MAXFILE_def NDIRECT_def NINDIRECT_def BSIZE_def)
  moreover have "rd_ok 0 kfs0" using kfs0_ok(1,3) by (simp add: rd_ok_def trans_ok_def NBUF_def MAXOPBLOCKS_def)
  ultimately have r: "returns (readi (\<lambda>_. \<lparr>dev_read = None, dev_write = None\<rparr>) 3 510 4 kfs0)
    (\<lambda>(r, xs) t. r = 4 \<and> xs = map (file_byte (inodes kfs0 3) (blk kfs0)) [510..<510 + nat r])"
    using readi_returns_contents [of 0 kfs0 3 "\<lambda>_. \<lparr>dev_read = None, dev_write = None\<rparr>" 510 4]
    by (auto elim!: returns_mono simp: T_DEV_def T_FILE_def)
  have "map (file_byte (inodes kfs0 3) (blk kfs0)) [510, 511, 512, 513] = [0, 0, 101, 0]"
    using kfs0_blk [of 100] kfs0_blk [of 101] by (simp add: file_byte_def a a(2) [unfolded One_nat_def] BSIZE_def del: kfs0_fields)
  moreover have "[510..<510 + nat 4] = [510, 511, 512, 513]" by (simp add: upt_rec)
  ultimately show ?thesis using r by (auto elim!: returns_mono)
qed

section \<open>On-disk inodes\<close>

lemma put_addrs_other:
  assumes "q + 64 \<le> p \<or> p + 64 \<le> q"
  shows "j + 2 \<le> 64 \<Longrightarrow> get16 (fold (\<lambda>k x. put32 (p + 12 + 4 * k) (f k) x) [0..<n] x) (q + j) = get16 x (q + j) \<or> 13 < n"
    "j + 4 \<le> 64 \<Longrightarrow> get32 (fold (\<lambda>k x. put32 (p + 12 + 4 * k) (f k) x) [0..<n] x) (q + j) = get32 x (q + j) \<or> 13 < n"
  using assms by (induction n) (auto simp: get16_put32_other get32_put32_other)

lemma put_addrs_head:
  "j + 2 \<le> 12 \<Longrightarrow> get16 (fold (\<lambda>k x. put32 (p + 12 + 4 * k) (f k) x) [0..<n] x) (p + j) = get16 x (p + j)"
  "j + 4 \<le> 12 \<Longrightarrow> get32 (fold (\<lambda>k x. put32 (p + 12 + 4 * k) (f k) x) [0..<n] x) (p + j) = get32 x (p + j)"
  by (induction n) (auto simp: get16_put32_other get32_put32_other)

lemma put_addrs_get:
  "j < n \<Longrightarrow> get32 (fold (\<lambda>k x. put32 (p + 12 + 4 * k) (f k) x) [0..<n] x) (p + 12 + 4 * j) = f j"
proof (induction n)
  case (Suc n)
  show ?case
  proof (cases "j = n")
    case False
    then have "p + 12 + 4 * n + 4 \<le> p + 12 + 4 * j \<or> p + 12 + 4 * j + 4 \<le> p + 12 + 4 * n" using Suc.prems by linarith
    then show ?thesis using Suc False by (simp add: get32_put32_other)
  qed simp
qed simp



section \<open>Path names\<close>

text \<open>The non-empty components of a path between slashes; \<open>acc\<close> is the component read so far.\<close>

fun comps_acc :: "u8 list \<Rightarrow> u8 list \<Rightarrow> u8 list list" where
  "comps_acc acc [] = (if acc = [] then [] else [acc])"
| "comps_acc acc (c # cs) = (if c = slash then (if acc = [] then [] else [acc]) @ comps_acc [] cs else comps_acc (acc @ [c]) cs)"

definition comps :: "u8 list \<Rightarrow> u8 list list" where "comps pth = comps_acc [] pth"

text \<open>The C string in an array of \<open>DIRSIZ\<close> characters.\<close>

definition name_str :: "(nat \<Rightarrow> u8) \<Rightarrow> u8 list" where
  "name_str nm = takeWhile (\<lambda>c. c \<noteq> 0) (map nm [0..<DIRSIZ])"

lemma comps_skip: "comps_acc [] (dropWhile (\<lambda>c. c = slash) pth) = comps_acc [] pth"
  by (induction pth) auto

lemma comps_elem:
  assumes "acc \<noteq> [] \<or> takeWhile (\<lambda>c. c \<noteq> slash) pth \<noteq> []"
  shows "comps_acc acc pth = (acc @ takeWhile (\<lambda>c. c \<noteq> slash) pth)
    # comps_acc [] (dropWhile (\<lambda>c. c = slash) (dropWhile (\<lambda>c. c \<noteq> slash) pth))"
  using assms by (induction acc pth rule: comps_acc.induct) (auto simp: comps_skip)

text \<open>C23: Path elements. \<open>skipelem\<close> finds no element exactly if the path has no component; otherwise it leaves
  the first component in \<open>name\<close>, cut to 14 characters, and returns a path with exactly the remaining
  components and no leading slash.\<close>

theorem skipelem_component:
  assumes "0 \<notin> set pth"
  shows "case skipelem pth nm of None \<Rightarrow> comps pth = []
    | Some (rest, nm') \<Rightarrow> \<exists>c. comps pth = c # comps rest \<and> name_str nm' = take DIRSIZ c \<and> take 1 rest \<noteq> [slash]"
proof -
  define q where "q = dropWhile (\<lambda>c. c = slash) pth"
  define c where "c = takeWhile (\<lambda>c. c \<noteq> slash) q"
  define rest where "rest = dropWhile (\<lambda>c. c = slash) (dropWhile (\<lambda>c. c \<noteq> slash) q)"
  have p: "comps pth = comps_acc [] q" by (simp add: comps_def q_def comps_skip)
  show ?thesis
  proof (cases "q = []")
    case True
    then show ?thesis using p by (simp add: skipelem_def flip: q_def)
  next
    case False
    then have "hd q \<noteq> slash" using hd_dropWhile [of "\<lambda>c. c = slash" pth] by (simp add: q_def)
    then have "c \<noteq> []" using False by (cases q) (auto simp: c_def)
    then have cp: "comps pth = c # comps rest" using comps_elem [of "[]" q] p by (simp add: c_def rest_def comps_def)
    have r: "take 1 rest \<noteq> [slash]"
    proof (cases rest)
      case (Cons a xs)
      then have "a \<noteq> slash" using hd_dropWhile [of "\<lambda>c. c = slash" "dropWhile (\<lambda>c. c \<noteq> slash) q"]
        unfolding rest_def by (metis list.distinct(1) list.sel(1))
      then show ?thesis using Cons by simp
    qed simp
    define nm' where "nm' = (if length c \<ge> DIRSIZ then (\<lambda>i. if i < DIRSIZ then c ! i else nm i)
                    else (\<lambda>i. if i < length c then c ! i else if i = length c then 0 else nm i))"
    have sk: "skipelem pth nm = Some (rest, nm')"
      using False unfolding skipelem_def Let_def q_def [symmetric] c_def [symmetric] rest_def nm'_def by simp
    have z: "0 \<notin> set c" using assms by (auto simp: c_def q_def dest!: set_takeWhileD set_dropWhileD)
    have "name_str nm' = take DIRSIZ c"
    proof (cases "length c \<ge> DIRSIZ")
      case True
      then have "map nm' [0..<DIRSIZ] = take DIRSIZ c" by (intro nth_equalityI) (auto simp: nm'_def)
      then show ?thesis using z by (auto simp: name_str_def takeWhile_eq_all_conv dest: in_set_takeD)
    next
      case False
      then have l: "length c < DIRSIZ" by simp
      then have "[0..<DIRSIZ] = [0..<length c] @ length c # [Suc (length c)..<DIRSIZ]"
        by (metis less_imp_le_nat upt_add_eq_append upt_conv_Cons le_add_diff_inverse zero_le)
      moreover have "map nm' [0..<length c] = c" using l by (intro nth_equalityI) (auto simp: nm'_def)
      moreover have "nm' (length c) = 0" using l by (simp add: nm'_def)
      ultimately have "map nm' [0..<DIRSIZ] = c @ 0 # map nm' [Suc (length c)..<DIRSIZ]" by simp
      moreover have "takeWhile (\<lambda>c. c \<noteq> 0) (c @ 0 # ys) = c" for ys using z by (induction c) auto
      ultimately show ?thesis using l by (simp add: name_str_def)
    qed
    then show ?thesis using sk cp r by auto
  qed
qed

theorem skipelem_component_witness:
  "\<exists>rest nm. skipelem [47, 97, 98, 47, 47, 99] (\<lambda>_. 0) = Some (rest, nm) \<and> name_str nm = [97, 98] \<and> comps rest = [[99]]"
proof -
  have "comps [47, 97, 98, 47, 47, 99] = [[97, 98], [99]]" by (simp add: comps_def slash_def)
  then show ?thesis
    using skipelem_component [of "[47, 97, 98, 47, 47, 99]" "\<lambda>_. 0"] by (auto simp: DIRSIZ_def split: option.splits prod.splits)
qed

end
