(* ===== verification/File.thy ===== *)
theory File
  imports Fs
begin

text \<open>
  The table of open files and pipes: \<open>src/my-xv6-public/file.c\<close> and \<open>src/my-xv6-public/pipe.c\<close>. A pipe is a
  bounded buffer indexed by two counters that wrap around; it is shown to be a queue of bytes.
\<close>

section \<open>State\<close>

definition NFILE :: nat where "NFILE = 100"
definition PIPESIZE :: u32 where "PIPESIZE = 512"

datatype filetype = FD_NONE | FD_PIPE | FD_INODE

record file_t =
  ftype :: filetype
  fref :: int
  readable :: bool
  writable :: bool
  fpipe :: u32
  fip :: nat
  foff :: u32

record pipe =
  pdata :: "u32 \<Rightarrow> u8"
  nread :: u32
  nwrite :: u32
  readopen :: bool
  writeopen :: bool

record kfile = kfs +
  files :: "nat \<Rightarrow> file_t"
  pipes :: "u32 \<Rightarrow> pipe"

definition upd_file :: "nat \<Rightarrow> (file_t \<Rightarrow> file_t) \<Rightarrow> 'a kfile_scheme \<Rightarrow> 'a kfile_scheme" where
  "upd_file f g s = s\<lparr>files := (files s)(f := g (files s f))\<rparr>"

definition upd_pipe :: "u32 \<Rightarrow> (pipe \<Rightarrow> pipe) \<Rightarrow> 'a kfile_scheme \<Rightarrow> 'a kfile_scheme" where
  "upd_pipe p g s = s\<lparr>pipes := (pipes s)(p := g (pipes s p))\<rparr>"

section \<open>Pipes\<close>

definition pipeclose :: "u32 \<Rightarrow> bool \<Rightarrow> 'a kfile_scheme \<Rightarrow> (unit, 'a kfile_scheme) res" where
  "pipeclose p wr s = bind (acquire (LkPipe p) s) (\<lambda>_ s.
     bind (if wr then wakeup (ChPipeRead p) (upd_pipe p (\<lambda>x. x\<lparr>writeopen := False\<rparr>) s)
           else wakeup (ChPipeWrite p) (upd_pipe p (\<lambda>x. x\<lparr>readopen := False\<rparr>) s)) (\<lambda>_ s.
     if \<not> readopen (pipes s p) \<and> \<not> writeopen (pipes s p)
     then bind (release (LkPipe p) s) (\<lambda>_ s. kfree p s)
     else release (LkPipe p) s))"

text \<open>One byte into, and one byte out of, the buffer.\<close>

definition put_byte :: "u8 \<Rightarrow> pipe \<Rightarrow> pipe" where
  "put_byte b x = x\<lparr>pdata := (pdata x)(nwrite x mod PIPESIZE := b), nwrite := nwrite x + 1\<rparr>"

definition get_byte :: "pipe \<Rightarrow> u8 \<times> pipe" where
  "get_byte x = (pdata x (nread x mod PIPESIZE), x\<lparr>nread := nread x + 1\<rparr>)"

text \<open>
  The loop of \<open>pipewrite\<close> for the bytes still to write, with \<open>n\<close> its argument. When the buffer is
  full the process sleeps: \<open>sleep\<close> ends in \<open>Switch\<close> and does not return here, and
  \<open>pipewrite_resume\<close> is the loop from that point.
\<close>

primrec pipewrite_loop :: "u32 \<Rightarrow> int \<Rightarrow> u8 list \<Rightarrow> 'a kfile_scheme \<Rightarrow> (int, 'a kfile_scheme) res" where
  "pipewrite_loop p n [] s = bind (wakeup (ChPipeRead p) s) (\<lambda>_ s. bind (release (LkPipe p) s) (\<lambda>_ s. Ok n s))"
| "pipewrite_loop p n (b # bs) s =
    (if nwrite (pipes s p) = nread (pipes s p) + PIPESIZE then
       bind (if \<not> readopen (pipes s p) then Ok True s
             else bind (curproc s) (\<lambda>c s. Ok (killed (procs s c)) s)) (\<lambda>stop s.
       if stop then bind (release (LkPipe p) s) (\<lambda>_ s. Ok (-1) s)
       else bind (wakeup (ChPipeRead p) s) (\<lambda>_ s. bind (sleep (ChPipeWrite p) (LkPipe p) s) (\<lambda>_ s. Hang)))
     else pipewrite_loop p n bs (upd_pipe p (put_byte b) s))"

definition pipewrite :: "u32 \<Rightarrow> u8 list \<Rightarrow> int \<Rightarrow> 'a kfile_scheme \<Rightarrow> (int, 'a kfile_scheme) res" where
  "pipewrite p xs n s = bind (acquire (LkPipe p) s) (\<lambda>_ s. pipewrite_loop p n (take (nat n) xs) s)"

definition pipewrite_resume :: "nat \<Rightarrow> bool \<Rightarrow> u32 \<Rightarrow> int \<Rightarrow> u8 list \<Rightarrow> 'a kfile_scheme \<Rightarrow> (int, 'a kfile_scheme) res" where
  "pipewrite_resume c ie p n bs s = bind (sleep_resume c (LkPipe p) ie s) (\<lambda>_ s. pipewrite_loop p n bs s)"

text \<open>The copying loop of \<open>piperead\<close>: the bytes read.\<close>

primrec piperead_copy :: "nat \<Rightarrow> pipe \<Rightarrow> u8 list \<times> pipe" where
  "piperead_copy 0 x = ([], x)"
| "piperead_copy (Suc n) x = (if nread x = nwrite x then ([], x)
     else case get_byte x of (b, x) \<Rightarrow> case piperead_copy n x of (bs, x) \<Rightarrow> (b # bs, x))"

text \<open>\<open>piperead\<close> with the lock held, from the test of its \<open>while\<close> loop.\<close>

definition piperead_loop :: "u32 \<Rightarrow> int \<Rightarrow> 'a kfile_scheme \<Rightarrow> (int \<times> u8 list, 'a kfile_scheme) res" where
  "piperead_loop p n s =
    (if nread (pipes s p) = nwrite (pipes s p) \<and> writeopen (pipes s p) then
       bind (curproc s) (\<lambda>c s.
       if killed (procs s c) then bind (release (LkPipe p) s) (\<lambda>_ s. Ok (-1, []) s)
       else bind (sleep (ChPipeRead p) (LkPipe p) s) (\<lambda>_ s. Hang))
     else case piperead_copy (nat n) (pipes s p) of (bs, x) \<Rightarrow>
       bind (wakeup (ChPipeWrite p) (upd_pipe p (\<lambda>_. x) s)) (\<lambda>_ s.
       bind (release (LkPipe p) s) (\<lambda>_ s. Ok (int (length bs), bs) s)))"

definition piperead :: "u32 \<Rightarrow> int \<Rightarrow> 'a kfile_scheme \<Rightarrow> (int \<times> u8 list, 'a kfile_scheme) res" where
  "piperead p n s = bind (acquire (LkPipe p) s) (\<lambda>_ s. piperead_loop p n s)"

definition piperead_resume :: "nat \<Rightarrow> bool \<Rightarrow> u32 \<Rightarrow> int \<Rightarrow> 'a kfile_scheme \<Rightarrow> (int \<times> u8 list, 'a kfile_scheme) res" where
  "piperead_resume c ie p n s = bind (sleep_resume c (LkPipe p) ie s) (\<lambda>_ s. piperead_loop p n s)"

section \<open>Open files\<close>

definition fileinit :: "'a kfile_scheme \<Rightarrow> 'a kfile_scheme" where
  "fileinit s = initlock LkFtable s"

definition filealloc :: "'a kfile_scheme \<Rightarrow> (nat option, 'a kfile_scheme) res" where
  "filealloc s = bind (acquire LkFtable s) (\<lambda>_ s.
     case find (\<lambda>f. fref (files s f) = 0) [0..<NFILE] of
       Some f \<Rightarrow> bind (release LkFtable (upd_file f (\<lambda>x. x\<lparr>fref := 1\<rparr>) s)) (\<lambda>_ s. Ok (Some f) s)
     | None \<Rightarrow> bind (release LkFtable s) (\<lambda>_ s. Ok None s))"

definition filedup :: "nat \<Rightarrow> 'a kfile_scheme \<Rightarrow> (nat, 'a kfile_scheme) res" where
  "filedup f s = bind (acquire LkFtable s) (\<lambda>_ s.
     if fref (files s f) < 1 then Panic ''filedup''
     else bind (release LkFtable (upd_file f (\<lambda>x. x\<lparr>fref := fref x + 1\<rparr>) s)) (\<lambda>_ s. Ok f s))"

definition fileclose :: "nat \<Rightarrow> 'a kfile_scheme \<Rightarrow> (unit, 'a kfile_scheme) res" where
  "fileclose f s = bind (acquire LkFtable s) (\<lambda>_ s.
     if fref (files s f) < 1 then Panic ''fileclose''
     else let s = upd_file f (\<lambda>x. x\<lparr>fref := fref x - 1\<rparr>) s in
       if fref (files s f) > 0 then release LkFtable s
       else let ff = files s f; s = upd_file f (\<lambda>x. x\<lparr>fref := 0, ftype := FD_NONE\<rparr>) s in
         bind (release LkFtable s) (\<lambda>_ s.
         case ftype ff of
           FD_PIPE \<Rightarrow> pipeclose (fpipe ff) (writable ff) s
         | FD_INODE \<Rightarrow> bind (begin_op s) (\<lambda>_ s. bind (iput (fip ff) s) (\<lambda>_ s. end_op s))
         | FD_NONE \<Rightarrow> Ok () s))"

definition filestat :: "nat \<Rightarrow> 'a kfile_scheme \<Rightarrow> (stat option, 'a kfile_scheme) res" where
  "filestat f s = (if ftype (files s f) = FD_INODE then
       bind (ilock (Some (fip (files s f))) s) (\<lambda>_ s. let st = stati (fip (files s f)) s in
       bind (iunlock (Some (fip (files s f))) s) (\<lambda>_ s. Ok (Some st) s))
     else Ok None s)"

definition fileread :: "(nat \<Rightarrow> ('a kfile_scheme) devsw) \<Rightarrow> nat \<Rightarrow> int \<Rightarrow> 'a kfile_scheme
    \<Rightarrow> (int \<times> u8 list, 'a kfile_scheme) res" where
  "fileread dv f n s =
    (if \<not> readable (files s f) then Ok (-1, []) s
     else case ftype (files s f) of
       FD_PIPE \<Rightarrow> piperead (fpipe (files s f)) n s
     | FD_INODE \<Rightarrow>
         bind (ilock (Some (fip (files s f))) s) (\<lambda>_ s.
         bind (readi dv (fip (files s f)) (foff (files s f)) (of_int n) s) (\<lambda>(r, xs) s.
         let s = (if r > 0 then upd_file f (\<lambda>x. x\<lparr>foff := foff x + of_int r\<rparr>) s else s) in
         bind (iunlock (Some (fip (files s f))) s) (\<lambda>_ s. Ok (r, xs) s)))
     | FD_NONE \<Rightarrow> Panic ''fileread'')"

definition max_write :: nat where "max_write = ((MAXOPBLOCKS - 1 - 1 - 2) div 2) * 512"

text \<open>The sizes \<open>n1\<close> of the pieces \<open>filewrite\<close> writes, each in a transaction of its own.\<close>

function pieces :: "nat \<Rightarrow> nat list" where
  "pieces n = (if n = 0 then [] else let n1 = min n max_write in n1 # pieces (n - n1))"
  by pat_completeness auto
termination by (relation "measure id") (auto simp: max_write_def MAXOPBLOCKS_def Let_def min_def)

declare pieces.simps [simp del]

primrec filewrite_loop :: "(nat \<Rightarrow> ('a kfile_scheme) devsw) \<Rightarrow> nat \<Rightarrow> int \<Rightarrow> nat list \<Rightarrow> u8 list \<Rightarrow> 'a kfile_scheme
    \<Rightarrow> (int, 'a kfile_scheme) res" where
  "filewrite_loop dv f n [] xs s = Ok n s"
| "filewrite_loop dv f n (n1 # ns) xs s = bind (begin_op s) (\<lambda>_ s.
     bind (ilock (Some (fip (files s f))) s) (\<lambda>_ s.
     bind (writei dv (fip (files s f)) (take n1 xs) (foff (files s f)) (of_nat n1) s) (\<lambda>r s.
     let s = (if r > 0 then upd_file f (\<lambda>x. x\<lparr>foff := foff x + of_int r\<rparr>) s else s) in
     bind (iunlock (Some (fip (files s f))) s) (\<lambda>_ s.
     bind (end_op s) (\<lambda>_ s.
     if r < 0 then Ok (-1) s
     else if r \<noteq> int n1 then Panic ''short filewrite''
     else filewrite_loop dv f n ns (drop n1 xs) s)))))"

text \<open>\<open>filewrite\<close>: a negative \<open>n\<close> writes nothing and is not 0, the final \<open>i\<close>.\<close>

definition filewrite :: "(nat \<Rightarrow> ('a kfile_scheme) devsw) \<Rightarrow> nat \<Rightarrow> u8 list \<Rightarrow> int \<Rightarrow> 'a kfile_scheme
    \<Rightarrow> (int, 'a kfile_scheme) res" where
  "filewrite dv f xs n s =
    (if \<not> writable (files s f) then Ok (-1) s
     else case ftype (files s f) of
       FD_PIPE \<Rightarrow> pipewrite (fpipe (files s f)) xs n s
     | FD_INODE \<Rightarrow> if n < 0 then Ok (-1) s else filewrite_loop dv f n (pieces (nat n)) xs s
     | FD_NONE \<Rightarrow> Panic ''filewrite'')"

definition pipealloc :: "'a kfile_scheme \<Rightarrow> ((nat \<times> nat) option, 'a kfile_scheme) res" where
  "pipealloc s =
    (let close = (\<lambda>f s. case f of None \<Rightarrow> Ok () s | Some f \<Rightarrow> fileclose f s);
         bad = (\<lambda>p f0 f1 s. bind (if p \<noteq> 0 then kfree p s else Ok () s) (\<lambda>_ s.
           bind (close f0 s) (\<lambda>_ s. bind (close f1 s) (\<lambda>_ s. Ok None s)))) in
     bind (filealloc s) (\<lambda>f0 s. case f0 of None \<Rightarrow> bad 0 None None s | Some a \<Rightarrow>
     bind (filealloc s) (\<lambda>f1 s. case f1 of None \<Rightarrow> bad 0 f0 None s | Some b \<Rightarrow>
     bind (kalloc s) (\<lambda>p s. if p = 0 then bad 0 f0 f1 s else
       let s = upd_pipe p (\<lambda>x. x\<lparr>readopen := True, writeopen := True, nwrite := 0, nread := 0\<rparr>) s;
           s = initlock (LkPipe p) s;
           s = upd_file a (\<lambda>x. x\<lparr>ftype := FD_PIPE, readable := True, writable := False, fpipe := p\<rparr>) s;
           s = upd_file b (\<lambda>x. x\<lparr>ftype := FD_PIPE, readable := False, writable := True, fpipe := p\<rparr>) s in
       Ok (Some (a, b)) s))))"

section \<open>Lemmas\<close>

lemma kfs_lock_st [simp]:
  "sb (lock_st l s) = sb s" "inodes (lock_st l s) = inodes s"
  by (simp_all add: lock_st_def push_st_def)

lemma kfs_touch [simp]:
  "sb (touch s) = sb s" "inodes (touch s) = inodes s"
  by (simp_all add: touch_def)

lemma lock_st_kfs [simp]:
  "(lock_st l s)\<lparr>sb := x1\<rparr> = lock_st l (s\<lparr>sb := x1\<rparr>)"
  "(lock_st l s)\<lparr>inodes := x2\<rparr> = lock_st l (s\<lparr>inodes := x2\<rparr>)"
  by (simp_all add: lock_st_def push_st_def curcpu_def)

lemma touch_kfs [simp]:
  "(touch s)\<lparr>sb := x1\<rparr> = touch (s\<lparr>sb := x1\<rparr>)"
  "(touch s)\<lparr>inodes := x2\<rparr> = touch (s\<lparr>inodes := x2\<rparr>)"
  by (simp_all add: touch_def curcpu_def)

lemma mach_ok_kfs [simp]:
  "mach_ok (s\<lparr>sb := x1\<rparr>) = mach_ok s"
  "mach_ok (s\<lparr>inodes := x2\<rparr>) = mach_ok s"
  "lk_free l (s\<lparr>sb := x1\<rparr>) = lk_free l s"
  "lk_free l (s\<lparr>inodes := x2\<rparr>) = lk_free l s"
  "curcpu (s\<lparr>sb := x1\<rparr>) = curcpu s"
  "curcpu (s\<lparr>inodes := x2\<rparr>) = curcpu s"
  by (simp_all add: mach_ok_def curcpu_def lk_free_def)

lemma kfile_lock_st [simp]:
  "files (lock_st l s) = files s" "pipes (lock_st l s) = pipes s"
  by (simp_all add: lock_st_def push_st_def)

lemma kfile_touch [simp]:
  "files (touch s) = files s" "pipes (touch s) = pipes s"
  by (simp_all add: touch_def)

lemma lock_st_kfile [simp]:
  "(lock_st l s)\<lparr>files := x1\<rparr> = lock_st l (s\<lparr>files := x1\<rparr>)"
  "(lock_st l s)\<lparr>pipes := x2\<rparr> = lock_st l (s\<lparr>pipes := x2\<rparr>)"
  by (simp_all add: lock_st_def push_st_def curcpu_def)

lemma touch_kfile [simp]:
  "(touch s)\<lparr>files := x1\<rparr> = touch (s\<lparr>files := x1\<rparr>)"
  "(touch s)\<lparr>pipes := x2\<rparr> = touch (s\<lparr>pipes := x2\<rparr>)"
  by (simp_all add: touch_def curcpu_def)

lemma mach_ok_kfile [simp]:
  "mach_ok (s\<lparr>files := x1\<rparr>) = mach_ok s"
  "mach_ok (s\<lparr>pipes := x2\<rparr>) = mach_ok s"
  "lk_free l (s\<lparr>files := x1\<rparr>) = lk_free l s"
  "lk_free l (s\<lparr>pipes := x2\<rparr>) = lk_free l s"
  "curcpu (s\<lparr>files := x1\<rparr>) = curcpu s"
  "curcpu (s\<lparr>pipes := x2\<rparr>) = curcpu s"
  by (simp_all add: mach_ok_def curcpu_def lk_free_def)


lemma kern_ok_kfile [simp]:
  "kern_ok p (s\<lparr>files := x1\<rparr>) = kern_ok p s" "kern_ok p (s\<lparr>pipes := x2\<rparr>) = kern_ok p s"
  by (simp_all add: kern_ok_def)

section \<open>A pipe is a queue\<close>

text \<open>A bounded queue: what its operations do to the list of its elements.\<close>

locale bounded_queue =
  fixes ok :: "'q \<Rightarrow> bool" and elems :: "'q \<Rightarrow> 'e list" and cap :: nat
    and put :: "'e \<Rightarrow> 'q \<Rightarrow> 'q" and get :: "'q \<Rightarrow> 'e \<times> 'q"
  assumes put: "ok x \<Longrightarrow> length (elems x) < cap \<Longrightarrow> ok (put e x) \<and> elems (put e x) = elems x @ [e]"
    and get: "ok x \<Longrightarrow> elems x \<noteq> [] \<Longrightarrow> ok (snd (get x)) \<and> elems x = fst (get x) # elems (snd (get x))"
begin

lemma put_all:
  assumes "ok x" "length (elems x) + length es \<le> cap"
  shows "ok (fold put es x)" "elems (fold put es x) = elems x @ es"
  using assms by (induction es arbitrary: x) (simp_all add: put)

primrec get_n :: "nat \<Rightarrow> 'q \<Rightarrow> 'e list \<times> 'q" where
  "get_n 0 x = ([], x)"
| "get_n (Suc n) x = (if elems x = [] then ([], x)
     else (fst (get x) # fst (get_n n (snd (get x))), snd (get_n n (snd (get x)))))"

lemma get_all:
  assumes "ok x"
  shows "ok (snd (get_n n x)) \<and> fst (get_n n x) = take n (elems x) \<and> elems (snd (get_n n x)) = drop n (elems x)"
  using assms
proof (induction n arbitrary: x)
  case (Suc n)
  show ?case
  proof (cases "elems x = []")
    case False
    then show ?thesis using get [OF Suc.prems False] Suc.IH [of "snd (get x)"] by (metis (no_types) Suc.prems
        drop_Suc_Cons fst_conv get_n.simps(2) snd_conv take_Suc_Cons)
  qed (simp add: Suc.prems)
qed simp

end

definition pipe_ok :: "pipe \<Rightarrow> bool" where
  "pipe_ok x \<longleftrightarrow> unat (nwrite x - nread x) \<le> unat PIPESIZE"

definition pipe_q :: "pipe \<Rightarrow> u8 list" where
  "pipe_q x = map (\<lambda>k. pdata x ((nread x + of_nat k) mod PIPESIZE)) [0..<unat (nwrite x - nread x)]"

lemma mod_pipesize: "unat (x mod PIPESIZE) = unat x mod 512"
  by (simp add: PIPESIZE_def unat_mod)

text \<open>Two positions less than the size apart, one of them at the other's place, are equal.\<close>

lemma ring_inj:
  fixes a :: u32
  assumes "j < 512" "k < 512" "(a + of_nat j) mod PIPESIZE = (a + of_nat k) mod PIPESIZE"
  shows "j = k"
proof -
  have m: "unat (a + of_nat j) mod 512 = (unat a + j) mod 512" if "j < 512" for j :: nat
  proof -
    have "unat (of_nat j :: u32) = j" using that by (simp add: unat_of_nat take_bit_nat_eq_self)
    then have "unat (a + of_nat j) = (unat a + j) mod 2 ^ 32" by (simp add: unat_word_ariths)
    moreover have "(512 :: nat) dvd 2 ^ 32" by simp
    ultimately show ?thesis by (simp only: mod_mod_cancel)
  qed
  have "(unat a + j) mod 512 = (unat a + k) mod 512"
    using arg_cong [OF assms(3), of unat] by (simp only: mod_pipesize m assms(1,2))
  then have "int (unat a + j) mod 512 = int (unat a + k) mod 512"
    using zmod_int [of "unat a + j" 512] zmod_int [of "unat a + k" 512] by (simp only: of_nat_numeral)
  then have "512 dvd int j - int k" by (simp add: mod_eq_dvd_iff)
  then show ?thesis using assms(1,2) zdvd_imp_le [of 512 "int j - int k"] zdvd_imp_le [of 512 "int k - int j"]
    by (cases j k rule: linorder_cases) (auto simp: dvd_diff_commute)
qed

lemma pipe_q_length: "length (pipe_q x) = unat (nwrite x - nread x)"
  by (simp add: pipe_q_def)

lemma put_byte_q:
  assumes "pipe_ok x" "length (pipe_q x) < 512"
  shows "pipe_ok (put_byte b x) \<and> pipe_q (put_byte b x) = pipe_q x @ [b]"
proof -
  define n where "n = unat (nwrite x - nread x)"
  have n: "n < 512" using assms(2) by (simp add: n_def pipe_q_length)
  have l: "unat (nwrite x + 1 - nread x) = Suc n"
  proof -
    have "nwrite x + 1 - nread x = nwrite x - nread x + 1" by simp
    moreover have "unat (nwrite x - nread x + 1) = Suc n" using n unfolding n_def
      by (subst unat_word_ariths) simp
    ultimately show ?thesis by (simp only:)
  qed
  have w: "nread x + of_nat n = nwrite x" by (simp add: n_def)
  have d: "(nread x + of_nat k) mod PIPESIZE \<noteq> nwrite x mod PIPESIZE" if "k < n" for k
    using ring_inj [of k n "nread x"] that n w by fastforce
  show ?thesis using n l w d by (auto simp: pipe_ok_def pipe_q_def put_byte_def PIPESIZE_def simp flip: n_def)
qed

lemma get_byte_q:
  assumes "pipe_ok x" "pipe_q x \<noteq> []"
  shows "pipe_ok (snd (get_byte x)) \<and> pipe_q x = fst (get_byte x) # pipe_q (snd (get_byte x))"
proof -
  obtain n where n: "unat (nwrite x - nread x) = Suc n"
    using assms(2) by (cases "unat (nwrite x - nread x)") (auto simp: pipe_q_def)
  have l: "unat (nwrite x - (nread x + 1)) = n"
  proof -
    have "nwrite x - (nread x + 1) = nwrite x - nread x - 1" by simp
    moreover have "unat (nwrite x - nread x - 1) = n" using n
      by (metis Suc_pred' nat.inject unat_minus_one unat_0 zero_less_Suc nat.distinct(1))
    ultimately show ?thesis by (simp only:)
  qed
  have "nread x + 1 + of_nat k = nread x + of_nat (Suc k)" for k by simp
  moreover have "pipe_ok (snd (get_byte x))" using assms(1) n l by (simp add: pipe_ok_def get_byte_def)
  ultimately show ?thesis using n l by (simp add: pipe_q_def get_byte_def map_upt_Suc add.assoc del: upt_Suc)
qed

interpretation pq: bounded_queue pipe_ok pipe_q 512 put_byte get_byte
  by unfold_locales (use put_byte_q get_byte_q in blast)+

lemma pipe_empty_iff: "nread x = nwrite x \<longleftrightarrow> pipe_q x = []"
  using word_unat_eq_iff [of "nwrite x - nread x" 0] by (auto simp: pipe_q_def)

lemma piperead_copy_get_n: "piperead_copy n x = pq.get_n n x"
  by (induction n arbitrary: x) (simp_all add: pipe_empty_iff split_def)

lemma piperead_copy_q:
  assumes "pipe_ok x"
  shows "pipe_ok (snd (piperead_copy n x))" "fst (piperead_copy n x) = take n (pipe_q x)"
    "pipe_q (snd (piperead_copy n x)) = drop n (pipe_q x)"
  using pq.get_all [OF assms, of n] by (simp_all add: piperead_copy_get_n)

lemma pipe_full_iff: "nwrite x = nread x + PIPESIZE \<longleftrightarrow> length (pipe_q x) = 512"
proof -
  have "nwrite x = nread x + 512 \<longleftrightarrow> nwrite x - nread x = 512" by (auto simp: algebra_simps)
  then show ?thesis unfolding PIPESIZE_def pipe_q_length
    using word_unat_eq_iff [of "nwrite x - nread x" 512] by simp
qed

lemma upd_pipe_st [simp]:
  "pipes (upd_pipe p g s) p = g (pipes s p)" "kern_ok c (upd_pipe p g s) = kern_ok c s"
  "upd_pipe p g (upd_pipe p h s) = upd_pipe p (g \<circ> h) s"
  "mach_ok (upd_pipe p g s) = mach_ok s" "lk_free l (upd_pipe p g s) = lk_free l s" "procs (upd_pipe p g s) = procs s"
  "upd_pipe p g (lock_st l s) = lock_st l (upd_pipe p g s)"
  by (simp_all add: upd_pipe_def)

lemma pipewrite_loop_room:
  assumes "kern_ok c s" "pipe_ok (pipes s p)" "length (pipe_q (pipes s p)) + length bs \<le> 512"
  shows "pipewrite_loop p n bs (lock_st (LkPipe p) s) = pipewrite_loop p n [] (lock_st (LkPipe p) (upd_pipe p (fold put_byte bs) s))"
  using assms
proof (induction bs arbitrary: s)
  case (Cons b bs)
  have "nwrite (pipes s p) \<noteq> nread (pipes s p) + PIPESIZE" unfolding pipe_full_iff using Cons.prems(3) by simp
  moreover have "pipe_ok (put_byte b (pipes s p)) \<and> pipe_q (put_byte b (pipes s p)) = pipe_q (pipes s p) @ [b]"
    using put_byte_q [OF Cons.prems(2)] Cons.prems(3) by simp
  ultimately show ?case using Cons.IH [of "upd_pipe p (put_byte b) s"] Cons.prems
    by (simp add: comp_def del: pipewrite_loop.simps(1))
qed (simp add: upd_pipe_def)

lemma pipewrite_room:
  assumes "kern_ok c s" "pipe_ok (pipes s p)" "length (pipe_q (pipes s p)) + length xs \<le> 512"
  shows "pipewrite p xs (int (length xs)) s = Ok (int (length xs))
    (touch ((upd_pipe p (fold put_byte xs) s)\<lparr>procs := wake_procs (Some (ChPipeRead p)) (procs s)\<rparr>))"
  using kern_okD [OF assms(1)] pipewrite_loop_room [OF assms, of "int (length xs)"]
  by (simp add: pipewrite_def kern)

lemma piperead_some:
  assumes "kern_ok c s" "pipe_ok (pipes s p)" "pipe_q (pipes s p) \<noteq> [] \<or> \<not> writeopen (pipes s p)"
  shows "piperead p n s = Ok (int (length (take (nat n) (pipe_q (pipes s p)))), take (nat n) (pipe_q (pipes s p)))
    (touch ((upd_pipe p (\<lambda>_. snd (piperead_copy (nat n) (pipes s p))) s)
      \<lparr>procs := wake_procs (Some (ChPipeWrite p)) (procs s)\<rparr>))"
  using kern_okD [OF assms(1)] assms(3) piperead_copy_q(2) [OF assms(2), of "nat n"]
  by (simp add: piperead_def piperead_loop_def kern pipe_empty_iff split_def)

text \<open>C18: A pipe is a first-in first-out queue of bytes, also when its 32-bit counters wrap around. A
  write that finds room for all its bytes returns their number, and a read after it returns the
  oldest bytes, at most as many as asked for; what it does not take stays, in order.\<close>

theorem pipe_fifo:
  fixes s :: "'a kfile_scheme"
  assumes "kern_ok c s" "pipe_ok (pipes s p)" "length (pipe_q (pipes s p)) + length xs \<le> 512"
    "pipe_q (pipes s p) @ xs \<noteq> []"
  shows "returns (bind (pipewrite p xs (int (length xs)) s) (\<lambda>r s. bind (piperead p n s) (\<lambda>k s. Ok (r, k) s)))
    (\<lambda>(r, k, ys) t. r = int (length xs) \<and> ys = take (nat n) (pipe_q (pipes s p) @ xs) \<and> k = int (length ys)
      \<and> pipe_q (pipes t p) = drop (nat n) (pipe_q (pipes s p) @ xs) \<and> pipe_ok (pipes t p))"
proof -
  define t where "t = touch ((upd_pipe p (fold put_byte xs) s)\<lparr>procs := wake_procs (Some (ChPipeRead p)) (procs s)\<rparr>)"
  have k: "kern_ok c t" using assms(1) by (simp add: t_def)
  have q: "pipe_ok (pipes t p)" "pipe_q (pipes t p) = pipe_q (pipes s p) @ xs"
    using pq.put_all [OF assms(2,3)] by (simp_all add: t_def)
  have ne: "pipe_q (pipes t p) \<noteq> [] \<or> \<not> writeopen (pipes t p)" using assms(4) q(2) by simp
  show ?thesis unfolding pipewrite_room [OF assms(1,2,3)] t_def [symmetric] q(2) [symmetric]
    using piperead_some [OF k q(1) ne, of n] piperead_copy_q [OF q(1), of "nat n"] by simp
qed

text \<open>C19: A writer that finds the pipe full, with a reader left and not killed, wakes the readers up and
  sleeps on the pipe; the buffer keeps its bytes.\<close>

theorem pipewrite_full_sleeps:
  assumes "kern_ok c s" "length (pipe_q (pipes s p)) = 512" "readopen (pipes s p)" "\<not> killed (procs s c)"
    "0 < n" "xs \<noteq> []"
  shows "pipewrite p xs n s = Switch (lock_st LkPtable (upd_proc c (\<lambda>x. x\<lparr>pchan := Some (ChPipeWrite p), state := SLEEPING\<rparr>)
    (s\<lparr>procs := wake_procs (Some (ChPipeRead p)) (procs s)\<rparr>)))"
proof -
  obtain b bs where b: "take (nat n) xs = b # bs" using assms(5,6) by (cases xs; cases "nat n") auto
  have f: "nwrite (pipes s p) = nread (pipes s p) + PIPESIZE" using assms(2) unfolding pipe_full_iff .
  show ?thesis using kern_okD [OF assms(1)] f assms(3,4) by (simp add: pipewrite_def b kern)
qed

text \<open>A state of the system with the pipe of address 0x80400000, near the wrap-around of its counters.\<close>

definition kfile0 :: kfile where
  "kfile0 = kproc.extend kproc0 (ksleep_ext (\<lambda>_. \<lparr>sl_locked = 0, sl_pid = 0\<rparr>)
     (kbuf_ext (\<lambda>_. \<lparr>b_valid = False, b_dirty = False, dev = 0, blockno = 0, refcnt = 0, bprev = 0, bnext = 0, bdata = (\<lambda>_. 0)\<rparr>)
       (\<lambda>_ _. 0) 1000 []
     (klog_ext 2 30 0 False 1 0 (\<lambda>_. 0)
     (kfs_ext \<lparr>sb_size = 1000, nblocks = 941, ninodes = 200, nlog = 30, logstart = 2, inodestart = 32, bmapstart = 58\<rparr>
       (\<lambda>_. \<lparr>i_dev = 0, inum = 0, iref = 0, i_valid = False, itype = 0, major = 0, minor = 0, nlink = 0, isize = 0, addrs = (\<lambda>_. 0)\<rparr>)
     (kfile_ext (\<lambda>_. \<lparr>ftype = FD_NONE, fref = 0, readable = False, writable = False, fpipe = 0, fip = 0, foff = 0\<rparr>)
       (\<lambda>p. \<lparr>pdata = (\<lambda>_. 65), nread = - 1, nwrite = (if p = 0x80400000 then 0 else 511), readopen = True, writeopen = True\<rparr>) ())))))"

lemma kfile0_ok: "kern_ok 0 kfile0"
proof -
  have "mach_ok kfile0" "curcpu kfile0 = 1"
    using kproc0_ok(1,3) by (simp_all add: kfile0_def kproc.defs mach_ok_def curcpu_def kproc0_def)
  then show ?thesis
    by (simp add: kern_ok_def lk_free_def) (simp add: kfile0_def kproc.defs kproc0_def)
qed

lemma kfile0_pipes [simp]: "pipes kfile0 = (\<lambda>p. \<lparr>pdata = (\<lambda>_. 65), nread = - 1,
    nwrite = (if p = 0x80400000 then 0 else 511), readopen = True, writeopen = True\<rparr>)"
  by (simp add: kfile0_def kproc.defs)

theorem pipe_fifo_witness:
  "returns (bind (pipewrite 0x80400000 [66, 67] 2 kfile0) (\<lambda>r s. bind (piperead 0x80400000 2 s) (\<lambda>k s. Ok (r, k) s)))
    (\<lambda>(r, k, ys) t. r = 2 \<and> ys = [65, 66] \<and> k = int (length ys) \<and> pipe_q (pipes t 0x80400000) = [67] \<and> pipe_ok (pipes t 0x80400000))"
proof -
  have q: "pipe_q (pipes kfile0 0x80400000) = [65]" "pipe_ok (pipes kfile0 0x80400000)"
    by (simp_all add: pipe_q_def pipe_ok_def PIPESIZE_def)
  then show ?thesis using pipe_fifo [OF kfile0_ok q(2), of "[66, 67]" 2] by (simp add: numeral_2_eq_2)
qed

theorem pipewrite_full_sleeps_witness:
  "\<exists>t. pipewrite 0x80500000 [66] 1 kfile0 = Switch t \<and> state (procs t 0) = SLEEPING
     \<and> pchan (procs t 0) = Some (ChPipeWrite 0x80500000)"
proof -
  have "length (pipe_q (pipes kfile0 0x80500000)) = 512" by (simp add: pipe_q_def)
  then show ?thesis
    using pipewrite_full_sleeps [OF kfile0_ok, of "0x80500000" 1 "[66]"]
    by (simp add: kfile0_def kproc.defs kproc0_def NPROC_def)
qed

end
