(* ===== verification/Syscall.thy ===== *)
theory Syscall
  imports File
begin

text \<open>
  The entry to the kernel from user programs: the page-fault case of \<open>trap\<close>, which maps pages lazily,
  access to user memory through the page table, the argument routines of \<open>syscall.c\<close>, process
  creation and termination (\<open>userinit\<close>, \<open>fork\<close>, \<open>exit\<close> of \<open>proc.c\<close>) and the system calls of
  \<open>sysproc.c\<close>, all in \<open>src/my-xv6-public\<close>.
\<close>

section \<open>User memory\<close>

text \<open>
  The case \<open>T_PGFLT\<close> of \<open>trap\<close> at the faulting address \<open>cr2\<close>: whether a page was mapped. Otherwise
  control falls through to the \<open>default\<close> case, and a page that was allocated is not freed.
\<close>

definition pgflt :: "u32 \<Rightarrow> 'a kproc_scheme \<Rightarrow> (bool, 'a kproc_scheme) res" where
  "pgflt cr2 s = bind (kalloc s) (\<lambda>pg s.
     if pg \<noteq> 0 then
       let va = PGROUNDDOWN cr2; s = s\<lparr>mem := memset (mem s) pg 0 PGSIZE\<rparr> in
       bind (curproc s) (\<lambda>p s.
       bind (mappages (pgdir (procs s p)) va PGSIZE (V2P pg) (PTE_W OR PTE_U) s) (\<lambda>r s. Ok (r \<ge> 0) s))
     else Ok False s)"

text \<open>
  Loads and stores of the kernel through the current page table. An access that faults traps into
  the kernel from the kernel: it is repeated after \<open>pgflt\<close> mapped a page, or the kernel panics.
\<close>

definition kfault :: "u32 \<Rightarrow> 'a kproc_scheme \<Rightarrow> (unit, 'a kproc_scheme) res" where
  "kfault a s = bind (pgflt a s) (\<lambda>ok s. if ok then Ok () s else Panic ''trap'')"

definition cur_pgdir :: "'a kproc_scheme \<Rightarrow> u32" where
  "cur_pgdir s = P2V (cr3 s (lapicid s))"

definition vload :: "u32 \<Rightarrow> 'a kproc_scheme \<Rightarrow> (u8, 'a kproc_scheme) res" where
  "vload a s =
    (let get = (\<lambda>s. mem s (uaddr (mem s) (cur_pgdir s) a)) in
     if present (pte_of (mem s) (cur_pgdir s) a) then Ok (get s) s
     else bind (kfault a s) (\<lambda>_ s. Ok (get s) s))"

definition vstore :: "u32 \<Rightarrow> u8 \<Rightarrow> 'a kproc_scheme \<Rightarrow> (unit, 'a kproc_scheme) res" where
  "vstore a b s =
    (let put = (\<lambda>s. s\<lparr>mem := (mem s)(uaddr (mem s) (cur_pgdir s) a := b)\<rparr>) in
     if present (pte_of (mem s) (cur_pgdir s) a) \<and> pte_of (mem s) (cur_pgdir s) a AND PTE_W \<noteq> 0 then Ok () (put s)
     else bind (kfault a s) (\<lambda>_ s. Ok () (put s)))"

primrec vloads :: "nat \<Rightarrow> u32 \<Rightarrow> 'a kproc_scheme \<Rightarrow> (u8 list, 'a kproc_scheme) res" where
  "vloads 0 a s = Ok [] s"
| "vloads (Suc n) a s = bind (vload a s) (\<lambda>b s. bind (vloads n (a + 1) s) (\<lambda>bs s. Ok (b # bs) s))"

primrec vstores :: "u8 list \<Rightarrow> u32 \<Rightarrow> 'a kproc_scheme \<Rightarrow> (unit, 'a kproc_scheme) res" where
  "vstores [] a s = Ok () s"
| "vstores (b # bs) a s = bind (vstore a b s) (\<lambda>_ s. vstores bs (a + 1) s)"

text \<open>Little-endian bytes of a word.\<close>

definition bytes32 :: "u32 \<Rightarrow> u8 list" where
  "bytes32 v = [ucast v, ucast (drop_bit 8 v), ucast (drop_bit 16 v), ucast (drop_bit 24 v)]"

definition word32 :: "u8 list \<Rightarrow> u32" where
  "word32 xs = ucast (xs ! 0) OR push_bit 8 (ucast (xs ! 1)) OR push_bit 16 (ucast (xs ! 2)) OR push_bit 24 (ucast (xs ! 3))"

section \<open>Arguments\<close>

definition fetchint :: "u32 \<Rightarrow> 'a kproc_scheme \<Rightarrow> (u32 option, 'a kproc_scheme) res" where
  "fetchint addr s = bind (curproc s) (\<lambda>p s.
     if addr \<ge> sz (procs s p) \<or> addr + 4 > sz (procs s p) then Ok None s
     else bind (vloads 4 addr s) (\<lambda>bs s. Ok (Some (word32 bs)) s))"

text \<open>The loop of \<open>fetchstr\<close> over the \<open>n\<close> addresses from \<open>a\<close> to the end of the process.\<close>

primrec fetchstr_loop :: "nat \<Rightarrow> u32 \<Rightarrow> u8 list \<Rightarrow> 'a kproc_scheme \<Rightarrow> (u8 list option, 'a kproc_scheme) res" where
  "fetchstr_loop 0 a xs s = Ok None s"
| "fetchstr_loop (Suc n) a xs s = bind (vload a s) (\<lambda>b s.
     if b = 0 then Ok (Some xs) s else fetchstr_loop n (a + 1) (xs @ [b]) s)"

text \<open>\<open>fetchstr\<close> returns the bytes of the string that \<open>*pp\<close> points to; its result is their number.\<close>

definition fetchstr :: "u32 \<Rightarrow> 'a kproc_scheme \<Rightarrow> (u8 list option, 'a kproc_scheme) res" where
  "fetchstr addr s = bind (curproc s) (\<lambda>p s.
     if addr \<ge> sz (procs s p) then Ok None s
     else fetchstr_loop (unat (sz (procs s p)) - unat addr) addr [] s)"

text \<open>Offsets in \<open>struct trapframe\<close>.\<close>

definition tf_eax :: u32 where "tf_eax = 28"
definition tf_es :: u32 where "tf_es = 40"
definition tf_ds :: u32 where "tf_ds = 44"
definition tf_trapno :: u32 where "tf_trapno = 48"
definition tf_eip :: u32 where "tf_eip = 56"
definition tf_cs :: u32 where "tf_cs = 60"
definition tf_eflags :: u32 where "tf_eflags = 64"
definition tf_esp :: u32 where "tf_esp = 68"
definition tf_ss :: u32 where "tf_ss = 72"

definition argint :: "u32 \<Rightarrow> 'a kproc_scheme \<Rightarrow> (u32 option, 'a kproc_scheme) res" where
  "argint n s = bind (curproc s) (\<lambda>p s. fetchint (load32 (mem s) (tf (procs s p) + tf_esp) + 4 + 4 * n) s)"

definition argptr :: "u32 \<Rightarrow> int \<Rightarrow> 'a kproc_scheme \<Rightarrow> (u32 option, 'a kproc_scheme) res" where
  "argptr n siz s = bind (curproc s) (\<lambda>p s. bind (argint n s) (\<lambda>r s.
     case r of None \<Rightarrow> Ok None s
     | Some i \<Rightarrow> if siz < 0 \<or> i \<ge> sz (procs s p) \<or> i + of_int siz > sz (procs s p) then Ok None s
         else Ok (Some i) s))"

definition argstr :: "u32 \<Rightarrow> 'a kproc_scheme \<Rightarrow> (u8 list option, 'a kproc_scheme) res" where
  "argstr n s = bind (argint n s) (\<lambda>r s. case r of None \<Rightarrow> Ok None s | Some a \<Rightarrow> fetchstr a s)"

section \<open>Processes\<close>

definition store16 :: "mem \<Rightarrow> u32 \<Rightarrow> u16 \<Rightarrow> mem" where
  "store16 m a v = m(a := ucast v, a + 1 := ucast (drop_bit 8 v))"

text \<open>\<open>init\<close> and \<open>siz\<close> are the address and size of the embedded program \<open>initcode\<close>.\<close>

definition userinit :: "(nat \<Rightarrow> ('a kfs_scheme) devsw) \<Rightarrow> u32 \<Rightarrow> u32 \<Rightarrow> 'a kfs_scheme \<Rightarrow> (unit, 'a kfs_scheme) res" where
  "userinit dv init siz s = bind (allocproc s) (\<lambda>p s. case p of None \<Rightarrow> Fault | Some p \<Rightarrow>
     let s = s\<lparr>initproc := Some p\<rparr> in
     bind (setupkvm s) (\<lambda>pg s.
     let s = upd_proc p (\<lambda>x. x\<lparr>pgdir := pg\<rparr>) s in
     if pg = 0 then Panic ''userinit: out of memory?''
     else bind (inituvm pg init siz s) (\<lambda>_ s.
       let s = upd_proc p (\<lambda>x. x\<lparr>sz := PGSIZE\<rparr>) s; f = tf (procs s p);
           ud = push_bit 3 (of_nat SEG_UDATA) OR ucast DPL_USER;
           m = memset (mem s) f 0 sizeof_trapframe;
           m = store16 m (f + tf_cs) (push_bit 3 (of_nat SEG_UCODE) OR ucast DPL_USER);
           m = store16 m (f + tf_ds) ud;
           m = store16 m (f + tf_es) ud;
           m = store16 m (f + tf_ss) ud;
           m = store32 m (f + tf_eflags) 0x200;
           m = store32 m (f + tf_esp) PGSIZE;
           m = store32 m (f + tf_eip) 0;
           s = s\<lparr>mem := m\<rparr>;
           s = upd_proc p (\<lambda>x. x\<lparr>pname := ''initcode''\<rparr>) s in
       bind (namei dv [slash] s) (\<lambda>d s.
       make_runnable p (upd_proc p (\<lambda>x. x\<lparr>cwd := d\<rparr>) s)))))"

primrec fork_files :: "nat \<Rightarrow> nat \<Rightarrow> nat list \<Rightarrow> 'a kfile_scheme \<Rightarrow> (unit, 'a kfile_scheme) res" where
  "fork_files p np [] s = Ok () s"
| "fork_files p np (i # is) s = (case ofile (procs s p) i of
     None \<Rightarrow> fork_files p np is s
   | Some f \<Rightarrow> bind (filedup f s) (\<lambda>f s.
       fork_files p np is (upd_proc np (\<lambda>x. x\<lparr>ofile := (ofile x)(i := Some f)\<rparr>) s)))"

definition fork :: "'a kfile_scheme \<Rightarrow> (int, 'a kfile_scheme) res" where
  "fork s = bind (curproc s) (\<lambda>p s. bind (allocproc s) (\<lambda>np s.
     case np of None \<Rightarrow> Ok (-1) s
     | Some np \<Rightarrow>
         bind (copyuvm (pgdir (procs s p)) (sz (procs s p)) s) (\<lambda>pg s.
         let s = upd_proc np (\<lambda>x. x\<lparr>pgdir := pg\<rparr>) s in
         if pg = 0 then
           bind (kfree (kstack (procs s np)) s) (\<lambda>_ s.
           Ok (-1) (upd_proc np (\<lambda>x. x\<lparr>kstack := 0, state := UNUSED\<rparr>) s))
         else
           let s = upd_proc np (\<lambda>x. x\<lparr>sz := sz (procs s p), parent := Some p\<rparr>) s;
               s = s\<lparr>mem := memmove (mem s) (tf (procs s np)) (tf (procs s p)) sizeof_trapframe\<rparr>;
               s = s\<lparr>mem := store32 (mem s) (tf (procs s np) + tf_eax) 0\<rparr> in
           bind (fork_files p np [0..<NOFILE] s) (\<lambda>_ s.
           case cwd (procs s p) of None \<Rightarrow> Fault
           | Some d \<Rightarrow> bind (idup d s) (\<lambda>d s.
               let s = upd_proc np (\<lambda>x. x\<lparr>cwd := Some d, pname := take 15 (pname (procs s p))\<rparr>) s;
                   n = pid (procs s np) in
               bind (make_runnable np s) (\<lambda>_ s. Ok (sint n) s))))))"

primrec exit_close :: "nat \<Rightarrow> nat list \<Rightarrow> 'a kfile_scheme \<Rightarrow> (unit, 'a kfile_scheme) res" where
  "exit_close p [] s = Ok () s"
| "exit_close p (fd # fds) s = (case ofile (procs s p) fd of
     None \<Rightarrow> exit_close p fds s
   | Some f \<Rightarrow> bind (fileclose f s) (\<lambda>_ s.
       exit_close p fds (upd_proc p (\<lambda>x. x\<lparr>ofile := (ofile x)(fd := None)\<rparr>) s)))"

definition exit :: "'a kfile_scheme \<Rightarrow> (unit, 'a kfile_scheme) res" where
  "exit s = bind (curproc s) (\<lambda>p s.
     if Some p = initproc s then Panic ''init exiting''
     else bind (exit_close p [0..<NOFILE] s) (\<lambda>_ s.
       bind (begin_op s) (\<lambda>_ s.
       case cwd (procs s p) of None \<Rightarrow> Fault
       | Some d \<Rightarrow> bind (iput d s) (\<lambda>_ s. bind (end_op s) (\<lambda>_ s.
           exit_sched p (upd_proc p (\<lambda>x. x\<lparr>cwd := None\<rparr>) s))))))"

section \<open>System calls on processes\<close>

definition sys_kill :: "'a kproc_scheme \<Rightarrow> (int, 'a kproc_scheme) res" where
  "sys_kill s = bind (argint 0 s) (\<lambda>r s. case r of None \<Rightarrow> Ok (-1) s | Some n \<Rightarrow> kill n s)"

definition sys_getpid :: "'a kproc_scheme \<Rightarrow> (int, 'a kproc_scheme) res" where
  "sys_getpid s = bind (curproc s) (\<lambda>p s. Ok (sint (pid (procs s p))) s)"

definition sys_sbrk :: "'a kproc_scheme \<Rightarrow> (int, 'a kproc_scheme) res" where
  "sys_sbrk s = bind (argint 0 s) (\<lambda>r s. case r of None \<Rightarrow> Ok (-1) s
   | Some n \<Rightarrow> bind (curproc s) (\<lambda>p s. let addr = sz (procs s p) in
       bind (curproc s) (\<lambda>p s. Ok (sint addr) (upd_proc p (\<lambda>x. x\<lparr>sz := sz x + n\<rparr>) s))))"

definition old_sys_sbrk :: "'a kproc_scheme \<Rightarrow> (int, 'a kproc_scheme) res" where
  "old_sys_sbrk s = bind (argint 0 s) (\<lambda>r s. case r of None \<Rightarrow> Ok (-1) s
   | Some n \<Rightarrow> bind (curproc s) (\<lambda>p s. let addr = sz (procs s p) in
       bind (growproc n s) (\<lambda>r s. if r < 0 then Ok (-1) s else Ok (sint addr) s)))"

text \<open>The loop of \<open>sys_sleep\<close> with \<open>tickslock\<close> held.\<close>

definition sys_sleep_loop :: "u32 \<Rightarrow> u32 \<Rightarrow> 'a kproc_scheme \<Rightarrow> (int, 'a kproc_scheme) res" where
  "sys_sleep_loop n ticks0 s =
    (if ticks s - ticks0 < n then
       bind (curproc s) (\<lambda>p s.
       if killed (procs s p) then bind (release LkTicks s) (\<lambda>_ s. Ok (-1) s)
       else bind (sleep ChTicks LkTicks s) (\<lambda>_ s. Hang))
     else bind (release LkTicks s) (\<lambda>_ s. Ok 0 s))"

definition sys_sleep :: "'a kproc_scheme \<Rightarrow> (int, 'a kproc_scheme) res" where
  "sys_sleep s = bind (argint 0 s) (\<lambda>r s. case r of None \<Rightarrow> Ok (-1) s
   | Some n \<Rightarrow> bind (acquire LkTicks s) (\<lambda>_ s. sys_sleep_loop n (ticks s) s))"

definition sys_sleep_resume :: "nat \<Rightarrow> bool \<Rightarrow> u32 \<Rightarrow> u32 \<Rightarrow> 'a kproc_scheme \<Rightarrow> (int, 'a kproc_scheme) res" where
  "sys_sleep_resume p ie n ticks0 s = bind (sleep_resume p LkTicks ie s) (\<lambda>_ s. sys_sleep_loop n ticks0 s)"

definition sys_uptime :: "'a kproc_scheme \<Rightarrow> (int, 'a kproc_scheme) res" where
  "sys_uptime s = bind (acquire LkTicks s) (\<lambda>_ s. let x = ticks s in
     bind (release LkTicks s) (\<lambda>_ s. Ok (sint x) s))"

text \<open>\<open>date\<close> is the \<open>struct rtcdate\<close> that \<open>cmostime\<close> reads from the clock, 24 bytes.\<close>

definition sys_date :: "u8 list \<Rightarrow> 'a kproc_scheme \<Rightarrow> (int, 'a kproc_scheme) res" where
  "sys_date date s = bind (argptr 0 24 s) (\<lambda>r s. case r of None \<Rightarrow> Ok (-1) s
   | Some a \<Rightarrow> bind (vstores date a s) (\<lambda>_ s. Ok 0 s))"

definition sys_alarm :: "'a kproc_scheme \<Rightarrow> (int, 'a kproc_scheme) res" where
  "sys_alarm s = bind (argint 0 s) (\<lambda>r s. case r of None \<Rightarrow> Ok (-1) s
   | Some t \<Rightarrow> bind (argptr 1 1 s) (\<lambda>r s. case r of None \<Rightarrow> Ok (-1) s
     | Some h \<Rightarrow> bind (curproc s) (\<lambda>p s. let s = upd_proc p (\<lambda>x. x\<lparr>alarmticks := t\<rparr>) s in
         bind (curproc s) (\<lambda>p s. Ok 0 (upd_proc p (\<lambda>x. x\<lparr>alarmhandler := h\<rparr>) s)))))"

end
