(* ===== verification/Sysfile.thy ===== *)
theory Sysfile
  imports Syscall
begin

text \<open>
  The system calls on files, \<open>src/my-xv6-public/sysfile.c\<close>, and \<open>exec\<close> of \<open>src/my-xv6-public/exec.c\<close> with
  \<open>loaduvm\<close> of \<open>vm.c\<close>. Each call returns the value for \<open>%eax\<close>; user buffers are read before, and
  written after, the routine of \<open>file.c\<close> that uses them.
\<close>

section \<open>File descriptors\<close>

definition argfd :: "u32 \<Rightarrow> 'a kproc_scheme \<Rightarrow> ((nat \<times> nat) option, 'a kproc_scheme) res" where
  "argfd n s = bind (argint n s) (\<lambda>r s. case r of None \<Rightarrow> Ok None s
   | Some fd \<Rightarrow>
       if sint fd < 0 \<or> sint fd \<ge> int NOFILE then Ok None s
       else bind (curproc s) (\<lambda>p s. case ofile (procs s p) (unat fd) of
         None \<Rightarrow> Ok None s | Some f \<Rightarrow> Ok (Some (unat fd, f)) s))"

definition set_ofile :: "nat \<Rightarrow> nat \<Rightarrow> nat option \<Rightarrow> 'a kproc_scheme \<Rightarrow> 'a kproc_scheme" where
  "set_ofile p fd f s = upd_proc p (\<lambda>x. x\<lparr>ofile := (ofile x)(fd := f)\<rparr>) s"

definition fdalloc :: "nat \<Rightarrow> 'a kproc_scheme \<Rightarrow> (nat option, 'a kproc_scheme) res" where
  "fdalloc f s = bind (curproc s) (\<lambda>p s.
     case find (\<lambda>fd. ofile (procs s p) fd = None) [0..<NOFILE] of
       None \<Rightarrow> Ok None s
     | Some fd \<Rightarrow> Ok (Some fd) (set_ofile p fd (Some f) s))"

definition sys_dup :: "'a kfile_scheme \<Rightarrow> (int, 'a kfile_scheme) res" where
  "sys_dup s = bind (argfd 0 s) (\<lambda>r s. case r of None \<Rightarrow> Ok (-1) s
   | Some (_, f) \<Rightarrow> bind (fdalloc f s) (\<lambda>r s. case r of None \<Rightarrow> Ok (-1) s
     | Some fd \<Rightarrow> bind (filedup f s) (\<lambda>_ s. Ok (int fd) s)))"

definition sys_dup2 :: "'a kfile_scheme \<Rightarrow> (int, 'a kfile_scheme) res" where
  "sys_dup2 s = bind (argfd 0 s) (\<lambda>r s. case r of None \<Rightarrow> Ok (-1) s
   | Some (old_fd, f1) \<Rightarrow> bind (argint 1 s) (\<lambda>r s. case r of None \<Rightarrow> Ok (-1) s
     | Some n \<Rightarrow>
         if sint n < 0 \<or> sint n \<ge> int NOFILE then Ok (-1) s
         else let new_fd = unat n in
           if new_fd \<noteq> old_fd then
             bind (curproc s) (\<lambda>p s.
             bind (case ofile (procs s p) new_fd of None \<Rightarrow> Ok () s | Some f2 \<Rightarrow> fileclose f2 s) (\<lambda>_ s.
             bind (curproc s) (\<lambda>p s.
             bind (filedup f1 (set_ofile p new_fd (Some f1) s)) (\<lambda>_ s. Ok (int new_fd) s))))
           else Ok (int new_fd) s))"

definition sys_read :: "(nat \<Rightarrow> ('a kfile_scheme) devsw) \<Rightarrow> 'a kfile_scheme \<Rightarrow> (int, 'a kfile_scheme) res" where
  "sys_read dv s = bind (argfd 0 s) (\<lambda>r s. case r of None \<Rightarrow> Ok (-1) s
   | Some (_, f) \<Rightarrow> bind (argint 2 s) (\<lambda>r s. case r of None \<Rightarrow> Ok (-1) s
     | Some n \<Rightarrow> bind (argptr 1 (sint n) s) (\<lambda>r s. case r of None \<Rightarrow> Ok (-1) s
       | Some p \<Rightarrow> bind (fileread dv f (sint n) s) (\<lambda>(r, xs) s. bind (vstores xs p s) (\<lambda>_ s. Ok r s)))))"

definition sys_write :: "(nat \<Rightarrow> ('a kfile_scheme) devsw) \<Rightarrow> 'a kfile_scheme \<Rightarrow> (int, 'a kfile_scheme) res" where
  "sys_write dv s = bind (argfd 0 s) (\<lambda>r s. case r of None \<Rightarrow> Ok (-1) s
   | Some (_, f) \<Rightarrow> bind (argint 2 s) (\<lambda>r s. case r of None \<Rightarrow> Ok (-1) s
     | Some n \<Rightarrow> bind (argptr 1 (sint n) s) (\<lambda>r s. case r of None \<Rightarrow> Ok (-1) s
       | Some p \<Rightarrow> bind (vloads (nat (sint n)) p s) (\<lambda>xs s. filewrite dv f xs (sint n) s))))"

definition sys_close :: "'a kfile_scheme \<Rightarrow> (int, 'a kfile_scheme) res" where
  "sys_close s = bind (argfd 0 s) (\<lambda>r s. case r of None \<Rightarrow> Ok (-1) s
   | Some (fd, f) \<Rightarrow> bind (curproc s) (\<lambda>p s.
       bind (fileclose f (set_ofile p fd None s)) (\<lambda>_ s. Ok 0 s)))"

text \<open>The fields of \<open>struct stat\<close>, at their offsets; the padding after a \<open>short\<close> is not written.\<close>

definition store_stat :: "stat \<Rightarrow> u32 \<Rightarrow> 'a kproc_scheme \<Rightarrow> (unit, 'a kproc_scheme) res" where
  "store_stat st a s =
     bind (vstores (bytes32 (st_dev st)) (a + 4) s) (\<lambda>_ s.
     bind (vstores (bytes32 (st_ino st)) (a + 8) s) (\<lambda>_ s.
     bind (vstores (take 2 (bytes32 (ucast (st_type st)))) a s) (\<lambda>_ s.
     bind (vstores (take 2 (bytes32 (ucast (st_nlink st)))) (a + 12) s) (\<lambda>_ s.
     vstores (bytes32 (st_size st)) (a + 16) s))))"

definition sys_fstat :: "'a kfile_scheme \<Rightarrow> (int, 'a kfile_scheme) res" where
  "sys_fstat s = bind (argfd 0 s) (\<lambda>r s. case r of None \<Rightarrow> Ok (-1) s
   | Some (_, f) \<Rightarrow> bind (argptr 1 20 s) (\<lambda>r s. case r of None \<Rightarrow> Ok (-1) s
     | Some a \<Rightarrow> bind (filestat f s) (\<lambda>st s. case st of None \<Rightarrow> Ok (-1) s
       | Some st \<Rightarrow> bind (store_stat st a s) (\<lambda>_ s. Ok 0 s))))"

section \<open>Links and directories\<close>

text \<open>A system call that fails inside a transaction.\<close>

definition fail_op :: "'a klog_scheme \<Rightarrow> (int, 'a klog_scheme) res" where
  "fail_op s = bind (end_op s) (\<lambda>_ s. Ok (-1) s)"

definition add_nlink :: "nat \<Rightarrow> u16 \<Rightarrow> 'a kfs_scheme \<Rightarrow> (unit, 'a kfs_scheme) res" where
  "add_nlink i k s = iupdate i (upd_ip i (\<lambda>x. x\<lparr>nlink := nlink x + k\<rparr>) s)"

definition sys_link :: "(nat \<Rightarrow> ('a kfs_scheme) devsw) \<Rightarrow> 'a kfs_scheme \<Rightarrow> (int, 'a kfs_scheme) res" where
  "sys_link dv s = bind (argstr 0 s) (\<lambda>r s. case r of None \<Rightarrow> Ok (-1) s
   | Some old \<Rightarrow> bind (argstr 1 s) (\<lambda>r s. case r of None \<Rightarrow> Ok (-1) s
     | Some new \<Rightarrow> bind (begin_op s) (\<lambda>_ s. bind (namei dv old s) (\<lambda>r s. case r of None \<Rightarrow> fail_op s
       | Some ip \<Rightarrow> bind (ilock (Some ip) s) (\<lambda>_ s.
           if itype (inodes s ip) = T_DIR then bind (iunlockput ip s) (\<lambda>_ s. fail_op s)
           else bind (add_nlink ip 1 s) (\<lambda>_ s. bind (iunlock (Some ip) s) (\<lambda>_ s.
             let bad = (\<lambda>s. bind (ilock (Some ip) s) (\<lambda>_ s. bind (add_nlink ip (-1) s) (\<lambda>_ s.
                   bind (iunlockput ip s) (\<lambda>_ s. fail_op s)))) in
             bind (nameiparent dv new (\<lambda>_. 0) s) (\<lambda>(r, nm) s. case r of None \<Rightarrow> bad s
             | Some dp \<Rightarrow> bind (ilock (Some dp) s) (\<lambda>_ s.
                 bind (if i_dev (inodes s dp) \<noteq> i_dev (inodes s ip) then Ok (-1) s
                       else dirlink dv dp nm (inum (inodes s ip)) s) (\<lambda>r s.
                 if r < 0 then bind (iunlockput dp s) (\<lambda>_ s. bad s)
                 else bind (iunlockput dp s) (\<lambda>_ s. bind (iput ip s) (\<lambda>_ s.
                   bind (end_op s) (\<lambda>_ s. Ok 0 s)))))))))))))"

primrec isdirempty_loop :: "(nat \<Rightarrow> ('a kfs_scheme) devsw) \<Rightarrow> nat \<Rightarrow> nat list \<Rightarrow> 'a kfs_scheme \<Rightarrow> (bool, 'a kfs_scheme) res" where
  "isdirempty_loop dv dp [] s = Ok True s"
| "isdirempty_loop dv dp (off # offs) s = bind (readi dv dp (of_nat off) 16 s) (\<lambda>(r, xs) s.
     if r \<noteq> 16 then Panic ''isdirempty: readi''
     else if de_inum (get_dirent xs) \<noteq> 0 then Ok False s
     else isdirempty_loop dv dp offs s)"

definition isdirempty :: "(nat \<Rightarrow> ('a kfs_scheme) devsw) \<Rightarrow> nat \<Rightarrow> 'a kfs_scheme \<Rightarrow> (bool, 'a kfs_scheme) res" where
  "isdirempty dv dp s = isdirempty_loop dv dp (drop 2 (dir_offs dp s)) s"

text \<open>The names \<open>.\<close> and \<open>..\<close>\<close>

definition dot :: "nat \<Rightarrow> nat \<Rightarrow> u8" where
  "dot n = (\<lambda>i. if i < n then 46 else 0)"

definition sys_unlink :: "(nat \<Rightarrow> ('a kfs_scheme) devsw) \<Rightarrow> 'a kfs_scheme \<Rightarrow> (int, 'a kfs_scheme) res" where
  "sys_unlink dv s = bind (argstr 0 s) (\<lambda>r s. case r of None \<Rightarrow> Ok (-1) s
   | Some pth \<Rightarrow> bind (begin_op s) (\<lambda>_ s. bind (nameiparent dv pth (\<lambda>_. 0) s) (\<lambda>(r, nm) s. case r of None \<Rightarrow> fail_op s
     | Some dp \<Rightarrow> bind (ilock (Some dp) s) (\<lambda>_ s.
         let bad = (\<lambda>s. bind (iunlockput dp s) (\<lambda>_ s. fail_op s)) in
         if namecmp nm (dot 1) = 0 \<or> namecmp nm (dot 2) = 0 then bad s
         else bind (dirlookup dv dp nm s) (\<lambda>r s. case r of None \<Rightarrow> bad s
         | Some (ip, off) \<Rightarrow> bind (ilock (Some ip) s) (\<lambda>_ s.
             if sint (nlink (inodes s ip)) < 1 then Panic ''unlink: nlink < 1''
             else bind (if itype (inodes s ip) = T_DIR then isdirempty dv ip s else Ok True s) (\<lambda>e s.
               if \<not> e then bind (iunlockput ip s) (\<lambda>_ s. bad s)
               else bind (writei dv dp (replicate 16 0) (of_nat off) 16 s) (\<lambda>r s.
                 if r \<noteq> 16 then Panic ''unlink: writei''
                 else bind (if itype (inodes s ip) = T_DIR then add_nlink dp (-1) s else Ok () s) (\<lambda>_ s.
                   bind (iunlockput dp s) (\<lambda>_ s. bind (add_nlink ip (-1) s) (\<lambda>_ s.
                   bind (iunlockput ip s) (\<lambda>_ s. bind (end_op s) (\<lambda>_ s. Ok 0 s)))))))))))))"

definition create :: "(nat \<Rightarrow> ('a kfs_scheme) devsw) \<Rightarrow> u8 list \<Rightarrow> u16 \<Rightarrow> u16 \<Rightarrow> u16 \<Rightarrow> 'a kfs_scheme
    \<Rightarrow> (nat option, 'a kfs_scheme) res" where
  "create dv pth ty ma mi s = bind (nameiparent dv pth (\<lambda>_. 0) s) (\<lambda>(r, nm) s. case r of None \<Rightarrow> Ok None s
   | Some dp \<Rightarrow> bind (ilock (Some dp) s) (\<lambda>_ s. bind (dirlookup dv dp nm s) (\<lambda>r s. case r of
       Some (ip, _) \<Rightarrow> bind (iunlockput dp s) (\<lambda>_ s. bind (ilock (Some ip) s) (\<lambda>_ s.
         if ty = T_FILE \<and> itype (inodes s ip) = T_FILE then Ok (Some ip) s
         else bind (iunlockput ip s) (\<lambda>_ s. Ok None s)))
     | None \<Rightarrow> bind (ialloc (i_dev (inodes s dp)) ty s) (\<lambda>ip s.
         bind (ilock (Some ip) s) (\<lambda>_ s.
         bind (iupdate ip (upd_ip ip (\<lambda>x. x\<lparr>major := ma, minor := mi, nlink := 1\<rparr>) s)) (\<lambda>_ s.
         bind (if ty = T_DIR then
                 bind (add_nlink dp 1 s) (\<lambda>_ s.
                 bind (dirlink dv ip (dot 1) (inum (inodes s ip)) s) (\<lambda>r s.
                 if r < 0 then Panic ''create dots''
                 else bind (dirlink dv ip (dot 2) (inum (inodes s dp)) s) (\<lambda>r s.
                   if r < 0 then Panic ''create dots'' else Ok () s)))
               else Ok () s) (\<lambda>_ s.
         bind (dirlink dv dp nm (inum (inodes s ip)) s) (\<lambda>r s.
         if r < 0 then Panic ''create: dirlink''
         else bind (iunlockput dp s) (\<lambda>_ s. Ok (Some ip) s)))))))))"

definition O_WRONLY :: u32 where "O_WRONLY = 1"
definition O_RDWR :: u32 where "O_RDWR = 2"
definition O_CREATE :: u32 where "O_CREATE = 0x200"

definition sys_open :: "(nat \<Rightarrow> ('a kfile_scheme) devsw) \<Rightarrow> 'a kfile_scheme \<Rightarrow> (int, 'a kfile_scheme) res" where
  "sys_open dv s = bind (argstr 0 s) (\<lambda>r s. case r of None \<Rightarrow> Ok (-1) s
   | Some pth \<Rightarrow> bind (argint 1 s) (\<lambda>r s. case r of None \<Rightarrow> Ok (-1) s
     | Some omode \<Rightarrow> bind (begin_op s) (\<lambda>_ s.
         bind (if omode AND O_CREATE \<noteq> 0 then create dv pth T_FILE 0 0 s
               else bind (namei dv pth s) (\<lambda>r s. case r of None \<Rightarrow> Ok None s
                 | Some ip \<Rightarrow> bind (ilock (Some ip) s) (\<lambda>_ s.
                     if itype (inodes s ip) = T_DIR \<and> omode \<noteq> 0
                     then bind (iunlockput ip s) (\<lambda>_ s. Ok None s) else Ok (Some ip) s))) (\<lambda>r s.
         case r of None \<Rightarrow> fail_op s
         | Some ip \<Rightarrow> bind (filealloc s) (\<lambda>f s. case f of
             None \<Rightarrow> bind (iunlockput ip s) (\<lambda>_ s. fail_op s)
           | Some f \<Rightarrow> bind (fdalloc f s) (\<lambda>fd s. case fd of
               None \<Rightarrow> bind (fileclose f s) (\<lambda>_ s. bind (iunlockput ip s) (\<lambda>_ s. fail_op s))
             | Some fd \<Rightarrow> bind (iunlock (Some ip) s) (\<lambda>_ s. bind (end_op s) (\<lambda>_ s.
                 Ok (int fd) (upd_file f (\<lambda>x. x\<lparr>ftype := FD_INODE, fip := ip, foff := 0,
                   readable := (omode AND O_WRONLY = 0), writable := (omode AND O_WRONLY \<noteq> 0 \<or> omode AND O_RDWR \<noteq> 0)\<rparr>) s)))))))))"

definition sys_mkdir :: "(nat \<Rightarrow> ('a kfs_scheme) devsw) \<Rightarrow> 'a kfs_scheme \<Rightarrow> (int, 'a kfs_scheme) res" where
  "sys_mkdir dv s = bind (begin_op s) (\<lambda>_ s. bind (argstr 0 s) (\<lambda>r s. case r of None \<Rightarrow> fail_op s
   | Some pth \<Rightarrow> bind (create dv pth T_DIR 0 0 s) (\<lambda>r s. case r of None \<Rightarrow> fail_op s
     | Some ip \<Rightarrow> bind (iunlockput ip s) (\<lambda>_ s. bind (end_op s) (\<lambda>_ s. Ok 0 s)))))"

definition sys_mknod :: "(nat \<Rightarrow> ('a kfs_scheme) devsw) \<Rightarrow> 'a kfs_scheme \<Rightarrow> (int, 'a kfs_scheme) res" where
  "sys_mknod dv s = bind (begin_op s) (\<lambda>_ s. bind (argstr 0 s) (\<lambda>r s. case r of None \<Rightarrow> fail_op s
   | Some pth \<Rightarrow> bind (argint 1 s) (\<lambda>r s. case r of None \<Rightarrow> fail_op s
     | Some ma \<Rightarrow> bind (argint 2 s) (\<lambda>r s. case r of None \<Rightarrow> fail_op s
       | Some mi \<Rightarrow> bind (create dv pth T_DEV (ucast ma) (ucast mi) s) (\<lambda>r s. case r of None \<Rightarrow> fail_op s
         | Some ip \<Rightarrow> bind (iunlockput ip s) (\<lambda>_ s. bind (end_op s) (\<lambda>_ s. Ok 0 s)))))))"

definition sys_chdir :: "(nat \<Rightarrow> ('a kfs_scheme) devsw) \<Rightarrow> 'a kfs_scheme \<Rightarrow> (int, 'a kfs_scheme) res" where
  "sys_chdir dv s = bind (curproc s) (\<lambda>p s. bind (begin_op s) (\<lambda>_ s. bind (argstr 0 s) (\<lambda>r s. case r of None \<Rightarrow> fail_op s
   | Some pth \<Rightarrow> bind (namei dv pth s) (\<lambda>r s. case r of None \<Rightarrow> fail_op s
     | Some ip \<Rightarrow> bind (ilock (Some ip) s) (\<lambda>_ s.
         if itype (inodes s ip) \<noteq> T_DIR then bind (iunlockput ip s) (\<lambda>_ s. fail_op s)
         else bind (iunlock (Some ip) s) (\<lambda>_ s.
           case cwd (procs s p) of None \<Rightarrow> Fault
           | Some d \<Rightarrow> bind (iput d s) (\<lambda>_ s. bind (end_op s) (\<lambda>_ s.
               Ok 0 (upd_proc p (\<lambda>x. x\<lparr>cwd := Some ip\<rparr>) s)))))))))"

definition sys_pipe :: "'a kfile_scheme \<Rightarrow> (int, 'a kfile_scheme) res" where
  "sys_pipe s = bind (argptr 0 8 s) (\<lambda>r s. case r of None \<Rightarrow> Ok (-1) s
   | Some a \<Rightarrow> bind (pipealloc s) (\<lambda>r s. case r of None \<Rightarrow> Ok (-1) s
     | Some (rfile, wfile) \<Rightarrow>
         let bad = (\<lambda>s. bind (fileclose rfile s) (\<lambda>_ s. bind (fileclose wfile s) (\<lambda>_ s. Ok (-1) s))) in
         bind (fdalloc rfile s) (\<lambda>r s. case r of None \<Rightarrow> bad s
         | Some fd0 \<Rightarrow> bind (fdalloc wfile s) (\<lambda>r s. case r of
             None \<Rightarrow> bind (curproc s) (\<lambda>p s. bad (set_ofile p fd0 None s))
           | Some fd1 \<Rightarrow> bind (vstores (bytes32 (of_nat fd0)) a s) (\<lambda>_ s.
               bind (vstores (bytes32 (of_nat fd1)) (a + 4) s) (\<lambda>_ s. Ok 0 s))))))"

section \<open>Programs\<close>

text \<open>The loop of \<open>loaduvm\<close>, over the offsets of the pages to fill.\<close>

primrec loaduvm_loop :: "(nat \<Rightarrow> ('a kfs_scheme) devsw) \<Rightarrow> u32 \<Rightarrow> u32 \<Rightarrow> nat \<Rightarrow> u32 \<Rightarrow> u32 \<Rightarrow> nat list \<Rightarrow> 'a kfs_scheme
    \<Rightarrow> (int, 'a kfs_scheme) res" where
  "loaduvm_loop dv pgd addr ip offset siz [] s = Ok 0 s"
| "loaduvm_loop dv pgd addr ip offset siz (k # ks) s = (let i = of_nat k in
     bind (walkpgdir pgd (addr + i) False s) (\<lambda>pte s.
     if pte = 0 then Panic ''loaduvm: address should exist''
     else let pa = PTE_ADDR (load32 (mem s) pte); n = (if siz - i < PGSIZE then siz - i else PGSIZE) in
       bind (readi dv ip (offset + i) n s) (\<lambda>(r, xs) s.
       let s = s\<lparr>mem := (\<lambda>a. if unat (a - P2V pa) < length xs then xs ! unat (a - P2V pa) else mem s a)\<rparr> in
       if r \<noteq> sint n then Ok (-1) s else loaduvm_loop dv pgd addr ip offset siz ks s)))"

definition loaduvm :: "(nat \<Rightarrow> ('a kfs_scheme) devsw) \<Rightarrow> u32 \<Rightarrow> u32 \<Rightarrow> nat \<Rightarrow> u32 \<Rightarrow> u32 \<Rightarrow> 'a kfs_scheme
    \<Rightarrow> (int, 'a kfs_scheme) res" where
  "loaduvm dv pgd addr ip offset siz s =
    (if addr mod PGSIZE \<noteq> 0 then Panic ''loaduvm: addr must be page aligned''
     else loaduvm_loop dv pgd addr ip offset siz (map (\<lambda>k. k * 4096) [0..<(unat siz + 4095) div 4096]) s)"

definition MAXARG :: nat where "MAXARG = 32"
definition ELF_MAGIC :: u32 where "ELF_MAGIC = 0x464C457F"
definition ELF_PROG_LOAD :: u32 where "ELF_PROG_LOAD = 1"

text \<open>The fields of the ELF header and of a program header that \<open>exec\<close> reads.\<close>

record elfhdr =
  elf_magic :: u32
  elf_entry :: u32
  elf_phoff :: u32
  elf_phnum :: u16

record proghdr =
  ph_type :: u32
  ph_off :: u32
  ph_vaddr :: u32
  ph_filesz :: u32
  ph_memsz :: u32

definition get_elfhdr :: "u8 list \<Rightarrow> elfhdr" where
  "get_elfhdr xs = \<lparr>elf_magic = word32 xs, elf_entry = word32 (drop 24 xs), elf_phoff = word32 (drop 28 xs),
     elf_phnum = ucast (xs ! 44) OR push_bit 8 (ucast (xs ! 45))\<rparr>"

definition get_proghdr :: "u8 list \<Rightarrow> proghdr" where
  "get_proghdr xs = \<lparr>ph_type = word32 xs, ph_off = word32 (drop 4 xs), ph_vaddr = word32 (drop 8 xs),
     ph_filesz = word32 (drop 16 xs), ph_memsz = word32 (drop 20 xs)\<rparr>"

text \<open>The loading loop of \<open>exec\<close>: the size of the image, or None for \<open>goto bad\<close>.\<close>

primrec exec_load :: "(nat \<Rightarrow> ('a kfs_scheme) devsw) \<Rightarrow> nat \<Rightarrow> u32 \<Rightarrow> nat \<Rightarrow> u32 \<Rightarrow> u32 \<Rightarrow> 'a kfs_scheme
    \<Rightarrow> (u32 option, 'a kfs_scheme) res" where
  "exec_load dv ip pgd 0 off z s = Ok (Some z) s"
| "exec_load dv ip pgd (Suc n) off z s = bind (readi dv ip off 32 s) (\<lambda>(r, xs) s.
     let ph = get_proghdr xs in
     if r \<noteq> 32 then Ok None s
     else if ph_type ph \<noteq> ELF_PROG_LOAD then exec_load dv ip pgd n (off + 32) z s
     else if ph_memsz ph < ph_filesz ph then Ok None s
     else if ph_vaddr ph + ph_memsz ph < ph_vaddr ph then Ok None s
     else bind (allocuvm pgd z (ph_vaddr ph + ph_memsz ph) s) (\<lambda>z s.
       if z = 0 then Ok None s
       else if ph_vaddr ph mod PGSIZE \<noteq> 0 then Ok None s
       else bind (loaduvm dv pgd (ph_vaddr ph) ip (ph_off ph) (ph_filesz ph) s) (\<lambda>r s.
         if r < 0 then Ok None s else exec_load dv ip pgd n (off + 32) z s)))"

text \<open>
  \<open>copyout\<close> of bytes that are not in kernel memory at a fixed address (a string of the old image,
  the array \<open>ustack\<close>): page by page through \<open>uva2ka\<close>.
\<close>

primrec copyout_bytes :: "u32 \<Rightarrow> u32 \<Rightarrow> u8 list \<Rightarrow> 'a kmem_scheme \<Rightarrow> (int, 'a kmem_scheme) res" where
  "copyout_bytes pgd va [] s = Ok 0 s"
| "copyout_bytes pgd va (b # bs) s = bind (uva2ka pgd (PGROUNDDOWN va) s) (\<lambda>pa s.
     if pa = 0 then Ok (-1) s
     else copyout_bytes pgd (va + 1) bs (s\<lparr>mem := (mem s)(pa + (va - PGROUNDDOWN va) := b)\<rparr>))"

text \<open>The loop that pushes the argument strings: the stack pointer and the entries of \<open>ustack\<close>.\<close>

primrec exec_args :: "u32 \<Rightarrow> nat \<Rightarrow> u8 list list \<Rightarrow> u32 \<Rightarrow> u32 list \<Rightarrow> 'a kmem_scheme
    \<Rightarrow> ((u32 \<times> u32 list) option, 'a kmem_scheme) res" where
  "exec_args pgd argc [] sp us s = Ok (Some (sp, us)) s"
| "exec_args pgd argc (a # as) sp us s =
    (if argc \<ge> MAXARG then Ok None s
     else let sp = (sp - (of_nat (length a) + 1)) AND NOT 3 in
       bind (copyout_bytes pgd sp (a @ [0]) s) (\<lambda>r s.
       if r < 0 then Ok None s else exec_args pgd (Suc argc) as sp (us @ [sp]) s))"

text \<open>The part of the path after its last slash.\<close>

definition last_elem :: "u8 list \<Rightarrow> u8 list" where
  "last_elem pth = rev (takeWhile (\<lambda>c. c \<noteq> slash) (rev pth))"

text \<open>\<open>exec\<close> after the image is loaded: the stack, and the commit to the new image.\<close>

definition exec_stack :: "nat \<Rightarrow> u8 list \<Rightarrow> u8 list list \<Rightarrow> u32 \<Rightarrow> u32 \<Rightarrow> u32 \<Rightarrow> 'a kproc_scheme \<Rightarrow> (int, 'a kproc_scheme) res" where
  "exec_stack p pth argv pgd entry z s =
    (let bad = (\<lambda>s. bind (freevm pgd s) (\<lambda>_ s. Ok (-1) s)); z = PGROUNDUP z in
     bind (allocuvm pgd z (z + 2 * PGSIZE) s) (\<lambda>z s. if z = 0 then bad s else
     bind (clearpteu pgd (z - 2 * PGSIZE) s) (\<lambda>_ s.
     bind (exec_args pgd 0 argv z [] s) (\<lambda>r s. case r of None \<Rightarrow> bad s
     | Some (sp, us) \<Rightarrow>
         let argc = of_nat (length us);
             ustack = [0xffffffff, argc, sp - (argc + 1) * 4] @ us @ [0];
             sp = sp - (3 + argc + 1) * 4 in
         bind (copyout_bytes pgd sp (concat (map bytes32 ustack)) s) (\<lambda>r s.
         if r < 0 then bad s
         else let oldpgdir = pgdir (procs s p);
                  s = upd_proc p (\<lambda>x. x\<lparr>pname := map (char_of \<circ> uint) (take 15 (last_elem pth)), pgdir := pgd, sz := z\<rparr>) s;
                  s = s\<lparr>mem := store32 (mem s) (tf (procs s p) + tf_eip) entry\<rparr>;
                  s = s\<lparr>mem := store32 (mem s) (tf (procs s p) + tf_esp) sp\<rparr> in
           bind (switchuvm (kstack (procs s p)) (pgdir (procs s p)) s) (\<lambda>_ s.
           bind (freevm oldpgdir s) (\<lambda>_ s. Ok 0 s)))))))"

definition exec :: "(nat \<Rightarrow> ('a kfs_scheme) devsw) \<Rightarrow> u8 list \<Rightarrow> u8 list list \<Rightarrow> 'a kfs_scheme \<Rightarrow> (int, 'a kfs_scheme) res" where
  "exec dv pth argv s = bind (curproc s) (\<lambda>p s. bind (begin_op s) (\<lambda>_ s.
     bind (namei dv pth s) (\<lambda>r s. case r of None \<Rightarrow> fail_op s
     | Some ip \<Rightarrow> bind (ilock (Some ip) s) (\<lambda>_ s.
         let bad = (\<lambda>pgd s. bind (if pgd \<noteq> 0 then freevm pgd s else Ok () s) (\<lambda>_ s.
               bind (iunlockput ip s) (\<lambda>_ s. fail_op s))) in
         bind (readi dv ip 0 52 s) (\<lambda>(r, xs) s. let elf = get_elfhdr xs in
         if r \<noteq> 52 then bad 0 s
         else if elf_magic elf \<noteq> ELF_MAGIC then bad 0 s
         else bind (setupkvm s) (\<lambda>pgd s. if pgd = 0 then bad 0 s
           else bind (exec_load dv ip pgd (unat (elf_phnum elf)) (elf_phoff elf) 0 s) (\<lambda>r s.
             case r of None \<Rightarrow> bad pgd s
             | Some z \<Rightarrow> bind (iunlockput ip s) (\<lambda>_ s. bind (end_op s) (\<lambda>_ s.
                 exec_stack p pth argv pgd (elf_entry elf) z s)))))))))"

text \<open>The loop of \<open>sys_exec\<close> that fetches the argument strings, with \<open>k\<close> entries of \<open>argv\<close> left.\<close>

primrec sys_exec_args :: "nat \<Rightarrow> u32 \<Rightarrow> 'a kproc_scheme \<Rightarrow> (u8 list list option, 'a kproc_scheme) res" where
  "sys_exec_args 0 a s = Ok None s"
| "sys_exec_args (Suc k) a s = bind (fetchint a s) (\<lambda>r s. case r of None \<Rightarrow> Ok None s
   | Some u \<Rightarrow> if u = 0 then Ok (Some []) s
       else bind (fetchstr u s) (\<lambda>r s. case r of None \<Rightarrow> Ok None s
       | Some x \<Rightarrow> bind (sys_exec_args k (a + 4) s) (\<lambda>r s. Ok (map_option (\<lambda>xs. x # xs) r) s)))"

definition sys_exec :: "(nat \<Rightarrow> ('a kfs_scheme) devsw) \<Rightarrow> 'a kfs_scheme \<Rightarrow> (int, 'a kfs_scheme) res" where
  "sys_exec dv s = bind (argstr 0 s) (\<lambda>r s. case r of None \<Rightarrow> Ok (-1) s
   | Some pth \<Rightarrow> bind (argint 1 s) (\<lambda>r s. case r of None \<Rightarrow> Ok (-1) s
     | Some uargv \<Rightarrow> bind (sys_exec_args MAXARG uargv s) (\<lambda>r s. case r of None \<Rightarrow> Ok (-1) s
       | Some argv \<Rightarrow> exec dv pth argv s)))"

end
