(* ===== verification/JString.thy ===== *)
theory JString
  imports Strings
begin

text \<open>
  The string library of JOS, \<open>src/lab/lib/string.c\<close> as it is compiled (with \<open>ASM\<close>): the routines
  built on the string instructions copy words when everything is aligned. They are shown to
  agree with the byte-wise ones; \<open>strtol\<close> is the inverse of number printing in \<open>Printfmt\<close>.
\<close>

section \<open>Operations\<close>

partial_function (option) j_strlen_loop :: "mem \<Rightarrow> u32 \<Rightarrow> nat \<Rightarrow> nat option" where
  "j_strlen_loop m s n = (if m s \<noteq> 0 then j_strlen_loop m (s + 1) (Suc n) else Some n)"

definition j_strlen :: "mem \<Rightarrow> u32 \<Rightarrow> nat option" where
  "j_strlen m s = j_strlen_loop m s 0"

primrec strnlen :: "mem \<Rightarrow> u32 \<Rightarrow> nat \<Rightarrow> nat" where
  "strnlen m s 0 = 0"
| "strnlen m s (Suc n) = (if m s \<noteq> 0 then Suc (strnlen m (s + 1) n) else 0)"

partial_function (option) j_strcpy :: "mem \<Rightarrow> u32 \<Rightarrow> u32 \<Rightarrow> mem option" where
  "j_strcpy m dst src = (let m' = m(dst := m src) in
     if m' dst \<noteq> 0 then j_strcpy m' (dst + 1) (src + 1) else Some m')"

definition strcat :: "mem \<Rightarrow> u32 \<Rightarrow> u32 \<Rightarrow> mem option" where
  "strcat m dst src = (case j_strlen m dst of None \<Rightarrow> None
     | Some len \<Rightarrow> j_strcpy m (dst + of_nat len) src)"

primrec j_strncpy :: "mem \<Rightarrow> u32 \<Rightarrow> u32 \<Rightarrow> nat \<Rightarrow> mem" where
  "j_strncpy m dst src 0 = m"
| "j_strncpy m dst src (Suc n) = (let m' = m(dst := m src) in
     j_strncpy m' (dst + 1) (if m' src \<noteq> 0 then src + 1 else src) n)"

primrec strlcpy_loop :: "mem \<Rightarrow> u32 \<Rightarrow> u32 \<Rightarrow> nat \<Rightarrow> mem \<times> u32" where
  "strlcpy_loop m dst src 0 = (m, dst)"
| "strlcpy_loop m dst src (Suc n) = (if m src \<noteq> 0 then strlcpy_loop (m(dst := m src)) (dst + 1) (src + 1) n else (m, dst))"

definition strlcpy :: "mem \<Rightarrow> u32 \<Rightarrow> u32 \<Rightarrow> u32 \<Rightarrow> mem \<times> u32" where
  "strlcpy m dst src siz = (if siz > 0
     then case strlcpy_loop m dst src (unat siz - 1) of (m, d) \<Rightarrow> (m(d := 0), d - dst)
     else (m, 0))"

partial_function (option) j_strcmp :: "mem \<Rightarrow> u32 \<Rightarrow> u32 \<Rightarrow> int option" where
  "j_strcmp m p q = (if m p \<noteq> 0 \<and> m p = m q then j_strcmp m (p + 1) (q + 1)
     else Some (uint (m p) - uint (m q)))"

primrec j_strncmp :: "mem \<Rightarrow> u32 \<Rightarrow> u32 \<Rightarrow> nat \<Rightarrow> int" where
  "j_strncmp m p q 0 = 0"
| "j_strncmp m p q (Suc n) = (if m p \<noteq> 0 \<and> m p = m q then j_strncmp m (p + 1) (q + 1) n
     else uint (m p) - uint (m q))"

partial_function (option) j_strchr :: "mem \<Rightarrow> u32 \<Rightarrow> u8 \<Rightarrow> u32 option" where
  "j_strchr m s c = (if m s \<noteq> 0 then if m s = c then Some s else j_strchr m (s + 1) c else Some 0)"

partial_function (option) strfind :: "mem \<Rightarrow> u32 \<Rightarrow> u8 \<Rightarrow> u32 option" where
  "strfind m s c = (if m s \<noteq> 0 then if m s = c then Some s else strfind m (s + 1) c else Some s)"

definition j_memset :: "mem \<Rightarrow> u32 \<Rightarrow> u32 \<Rightarrow> u32 \<Rightarrow> mem" where
  "j_memset m v c n =
    (if n = 0 then m
     else if v mod 4 = 0 \<and> n mod 4 = 0 then
       let c = c AND 0xFF in
       stosl m v (push_bit 24 c OR push_bit 16 c OR push_bit 8 c OR c) (unat (n div 4))
     else stosb m v (ucast c) (unat n))"

text \<open>\<open>rep movsl\<close> with the direction flag clear and set.\<close>

primrec movsl_up :: "mem \<Rightarrow> u32 \<Rightarrow> u32 \<Rightarrow> nat \<Rightarrow> mem" where
  "movsl_up m d s 0 = m"
| "movsl_up m d s (Suc n) = movsl_up (store32 m d (load32 m s)) (d + 4) (s + 4) n"

primrec movsl_down :: "mem \<Rightarrow> u32 \<Rightarrow> u32 \<Rightarrow> nat \<Rightarrow> mem" where
  "movsl_down m d s 0 = m"
| "movsl_down m d s (Suc n) = movsl_down (store32 m d (load32 m s)) (d - 4) (s - 4) n"

primrec movsb_down :: "mem \<Rightarrow> u32 \<Rightarrow> u32 \<Rightarrow> nat \<Rightarrow> mem" where
  "movsb_down m d s 0 = m"
| "movsb_down m d s (Suc n) = movsb_down (m(d := m s)) (d - 1) (s - 1) n"

definition j_memmove :: "mem \<Rightarrow> u32 \<Rightarrow> u32 \<Rightarrow> u32 \<Rightarrow> mem" where
  "j_memmove m dst src n =
    (if src < dst \<and> src + n > dst then
       let s = src + n; d = dst + n in
       if s mod 4 = 0 \<and> d mod 4 = 0 \<and> n mod 4 = 0 then movsl_down m (d - 4) (s - 4) (unat (n div 4))
       else movsb_down m (d - 1) (s - 1) (unat n)
     else if src mod 4 = 0 \<and> dst mod 4 = 0 \<and> n mod 4 = 0 then movsl_up m dst src (unat (n div 4))
     else move_up m dst src (unat n))"

definition j_memcpy :: "mem \<Rightarrow> u32 \<Rightarrow> u32 \<Rightarrow> u32 \<Rightarrow> mem" where
  "j_memcpy m dst src n = j_memmove m dst src n"

primrec j_memcmp :: "mem \<Rightarrow> u32 \<Rightarrow> u32 \<Rightarrow> nat \<Rightarrow> int" where
  "j_memcmp m s1 s2 0 = 0"
| "j_memcmp m s1 s2 (Suc n) = (if m s1 \<noteq> m s2 then uint (m s1) - uint (m s2)
     else j_memcmp m (s1 + 1) (s2 + 1) n)"

primrec memfind_loop :: "mem \<Rightarrow> u32 \<Rightarrow> u8 \<Rightarrow> nat \<Rightarrow> u32" where
  "memfind_loop m s c 0 = s"
| "memfind_loop m s c (Suc n) = (if m s = c then s else memfind_loop m (s + 1) c n)"

definition memfind :: "mem \<Rightarrow> u32 \<Rightarrow> u32 \<Rightarrow> u32 \<Rightarrow> u32" where
  "memfind m s c n = (let ends = s + n in if s < ends then memfind_loop m s (ucast c) (unat (ends - s)) else s)"

subsection \<open>Number parsing\<close>

partial_function (option) skip_blank :: "mem \<Rightarrow> u32 \<Rightarrow> u32 option" where
  "skip_blank m s = (if m s = 0x20 \<or> m s = 9 then skip_blank m (s + 1) else Some s)"

definition digit_of :: "u8 \<Rightarrow> int option" where
  "digit_of c = (if 0x30 \<le> c \<and> c \<le> 0x39 then Some (uint c - 0x30)
     else if 0x61 \<le> c \<and> c \<le> 0x7a then Some (uint c - 0x61 + 10)
     else if 0x41 \<le> c \<and> c \<le> 0x5a then Some (uint c - 0x41 + 10) else None)"

partial_function (option) strtol_digits :: "mem \<Rightarrow> u32 \<Rightarrow> int \<Rightarrow> u32 \<Rightarrow> (u32 \<times> u32) option" where
  "strtol_digits m s base val = (case digit_of (m s) of None \<Rightarrow> Some (val, s)
     | Some dig \<Rightarrow> if dig \<ge> base then Some (val, s)
         else strtol_digits m (s + 1) base (val * of_int base + of_int dig))"

text \<open>\<open>strtol\<close> returns the 32-bit value and the end pointer.\<close>

definition strtol :: "mem \<Rightarrow> u32 \<Rightarrow> int \<Rightarrow> (u32 \<times> u32) option" where
  "strtol m s base = (case skip_blank m s of None \<Rightarrow> None
     | Some s \<Rightarrow>
       let (s, neg) = (if m s = 0x2b then (s + 1, False) else if m s = 0x2d then (s + 1, True) else (s, False));
           (s, base) = (if (base = 0 \<or> base = 16) \<and> m s = 0x30 \<and> m (s + 1) = 0x78 then (s + 2, 16)
                        else if base = 0 \<and> m s = 0x30 then (s + 1, 8)
                        else if base = 0 then (s, 10) else (s, base)) in
       (case strtol_digits m s base 0 of None \<Rightarrow> None
        | Some (val, e) \<Rightarrow> Some (if neg then - val else val, e)))"

section \<open>The string instructions on words\<close>

lemma u8_bit [simp]: "\<not> bit (x :: u8) (8 + n)" "\<not> bit (x :: u8) (16 + n)" "\<not> bit (x :: u8) (24 + n)"
  by (auto dest: bit_imp_le_length)

lemma load32_bytes:
  "ucast (load32 m a) = m a" "ucast (drop_bit 8 (load32 m a)) = m (a + 1)"
  "ucast (drop_bit 16 (load32 m a)) = m (a + 2)" "ucast (drop_bit 24 (load32 m a)) = m (a + 3)"
  by (auto intro!: bit_word_eqI simp: load32_def bit_simps)

lemma movsl_step: "store32 m d (load32 m s) = m(d := m s, d + 1 := m (s + 1), d + 2 := m (s + 2), d + 3 := m (s + 3))"
  by (simp add: store32_def load32_bytes)

lemma j_memset_eq: "j_memset m v c n = memset m v c n"
  by (simp add: j_memset_def memset_def Let_def)

lemma move_up_add: "move_up m d s (a + b) = move_up (move_up m d s a) (d + of_nat a) (s + of_nat a) b"
  by (induction a arbitrary: m d s) (simp_all add: ac_simps)

lemma mod4_unat: "x mod 4 = (0 :: u32) \<longleftrightarrow> unat x mod 4 = 0"
proof -
  have "unat (x mod 4) = unat x mod 4" unfolding unat_mod by simp
  then show ?thesis by (metis unat_0 unat_eq_zero)
qed

lemma mod4_add: "x mod 4 = (0 :: u32) \<Longrightarrow> (x + y) mod 4 = 0 \<longleftrightarrow> y mod 4 = 0"
proof -
  assume "x mod 4 = 0"
  then have x: "unat x mod 4 = 0" by (simp only: mod4_unat)
  have "unat (x + y) mod 4 = (unat x + unat y) mod 4"
    unfolding unat_word_ariths(1) by (rule mod_mod_cancel) simp
  also have "\<dots> = unat y mod 4" using x by presburger
  finally show ?thesis by (simp only: mod4_unat)
qed

lemma aligned_apart:
  assumes "s mod 4 = 0" "d mod 4 = (0 :: u32)" "k = 1 \<or> k = 2 \<or> k = 3"
  shows "s + k \<noteq> d"
proof
  assume "s + k = d"
  then have "k mod 4 = 0" using mod4_add [OF assms(1), of k] assms(2) by simp
  then have "unat k mod 4 = 0" by (simp only: mod4_unat)
  then show False using assms(3) by auto
qed

lemma word_add_shift: "s + a = d + b \<Longrightarrow> s = d + (b - a :: u32)"
  by (simp add: algebra_simps)

lemma four_Suc: "(4 :: nat) = Suc (Suc (Suc (Suc 0)))"
  by simp

lemma move_up_4:
  assumes "s mod 4 = 0" "d mod 4 = (0 :: u32)"
  shows "move_up m d s 4 = store32 m d (load32 m s)"
proof -
  note ap = aligned_apart [OF assms]
  have ne: "s + 1 \<noteq> d" "s + 2 \<noteq> d" "s + 3 \<noteq> d" "s + 2 \<noteq> d + 1" "s + 3 \<noteq> d + 1" "s + 3 \<noteq> d + 2"
    using word_add_shift [of d 1 s 2] word_add_shift [of d 1 s 3] word_add_shift [of d 2 s 3] ap [of 1] ap [of 2] ap [of 3]
    by auto
  have a: "x + 1 + 1 = x + 2" "x + 2 + 1 = x + 3" for x :: u32 by simp_all
  have "move_up m d s (Suc (Suc (Suc (Suc 0)))) = m(d := m s, d + 1 := m (s + 1), d + 2 := m (s + 2), d + 3 := m (s + 3))"
    by (simp only: move_up.simps a fun_upd_apply ne if_False)
  then show ?thesis by (simp only: movsl_step four_Suc)
qed

lemma movsl_up_eq:
  assumes "s mod 4 = 0" "d mod 4 = (0 :: u32)"
  shows "movsl_up m d s n = move_up m d s (4 * n)"
  using assms
proof (induction n arbitrary: m d s)
  case (Suc n)
  have "move_up m d s (4 * Suc n) = move_up (move_up m d s 4) (d + of_nat 4) (s + of_nat 4) (4 * n)"
    using move_up_add [of m d s 4 "4 * n"] by simp
  moreover have "(s + 4) mod 4 = 0" "(d + 4) mod 4 = 0"
    using Suc.prems mod4_add [of s 4] mod4_add [of d 4] by simp_all
  ultimately show ?case using Suc.IH [of "s + 4" "d + 4"] move_up_4 [OF Suc.prems] by (simp del: move_up_numeral)
qed simp

lemma move_down_add: "move_down m d s (a + b) = move_down (move_down m d s a) (d - of_nat a) (s - of_nat a) b"
  by (induction a arbitrary: m d s) (simp_all add: algebra_simps)

lemma move_down_4:
  assumes "s mod 4 = 0" "d mod 4 = (0 :: u32)"
  shows "move_down m (d + 4) (s + 4) 4 = store32 m d (load32 m s)"
proof -
  note ap = aligned_apart [OF assms(2,1)]
  have ne: "s + 2 \<noteq> d + 3" "s + 1 \<noteq> d + 3" "s \<noteq> d + 3" "s + 1 \<noteq> d + 2" "s \<noteq> d + 2" "s \<noteq> d + 1"
    using word_add_shift [of s 2 d 3] word_add_shift [of s 1 d 3] word_add_shift [of s 1 d 2] ap [of 1] ap [of 2] ap [of 3]
    by auto
  have "move_down m (d + 4) (s + 4) 4 = m(d + 3 := m (s + 3), d + 2 := m (s + 2), d + 1 := m (s + 1), d := m s)"
  proof -
    have a: "x + 4 - 1 = x + 3" "x + 3 - 1 = x + 2" "x + 2 - 1 = x + 1" "x + 1 - 1 = x" for x :: u32 by simp_all
    have "move_down m (d + 4) (s + 4) (Suc (Suc (Suc (Suc 0)))) = m(d + 3 := m (s + 3), d + 2 := m (s + 2), d + 1 := m (s + 1), d := m s)"
      by (simp only: move_down.simps a fun_upd_apply ne if_False)
    then show ?thesis by (simp only: four_Suc)
  qed
  also have "\<dots> = m(d := m s, d + 1 := m (s + 1), d + 2 := m (s + 2), d + 3 := m (s + 3))"
    by (rule ext) simp
  finally show ?thesis by (simp add: movsl_step)
qed

lemma movsb_down_eq: "movsb_down m (d - 1) (s - 1) n = move_down m d s n"
  by (induction n arbitrary: m d s) (simp_all only: movsb_down.simps move_down.simps)

lemma movsl_down_eq:
  assumes "s mod 4 = 0" "d mod 4 = (0 :: u32)"
  shows "movsl_down m (d - 4) (s - 4) n = move_down m d s (4 * n)"
  using assms
proof (induction n arbitrary: m d s)
  case (Suc n)
  have a: "(x - 4) mod 4 = 0" if "x mod 4 = 0" for x :: u32 using mod4_add [OF that, of "- 4"] by simp
  have "move_down m d s (4 * Suc n) = move_down (move_down m d s 4) (d - of_nat 4) (s - of_nat 4) (4 * n)"
    using move_down_add [of m d s 4 "4 * n"] by simp
  moreover have "move_down m d s 4 = store32 m (d - 4) (load32 m (s - 4))"
    using move_down_4 [OF a a, of s d m] Suc.prems by simp
  ultimately show ?case using Suc.IH [of "s - 4" "d - 4"] Suc.prems a by simp
qed simp

text \<open>C24: the word-wise copy loops of the JOS string library do what the byte-wise ones of xv6 do:
  \<open>memmove\<close> and \<open>memset\<close> of the two kernels agree on all arguments, alignment and
  overlap included.\<close>

theorem j_memmove_eq: "j_memmove m dst src n = memmove m dst src n \<and> j_memset m dst c n = memset m dst c n"
proof -
  have d4: "4 * unat (n div 4) = unat n" if "n mod 4 = 0"
  proof -
    have "unat (n mod 4) = 0" using that by simp
    then have "unat n mod 4 = 0" unfolding unat_mod by simp
    moreover have "4 * (unat n div 4) + unat n mod 4 = unat n" by (rule mult_div_mod_eq)
    ultimately show ?thesis by (simp add: unat_div)
  qed
  have "j_memmove m dst src n = memmove m dst src n"
    using d4 movsl_up_eq [of src dst m "unat (n div 4)"] movsl_down_eq [of "src + n" "dst + n" m "unat (n div 4)"]
      movsb_down_eq [of m "dst + n" "src + n" "unat n"]
    by (simp add: j_memmove_def memmove_def Let_def)
  then show ?thesis by (simp add: j_memset_eq)
qed

end
