(* ===== verification/Printfmt.thy ===== *)
theory Printfmt
  imports JString
begin

text \<open>
  Formatted printing: \<open>src/lab/lib/printfmt.c\<close> of JOS (kernel and user) and the user-level
  \<open>printf.c\<close> of xv6. \<open>putch\<close> only appends to the output, so a formatting routine is a function to
  the string it puts; the variable arguments are the list of values they hold. \<open>None\<close> means the
  call has no defined result: an argument of the wrong type, or none left.
\<close>

section \<open>JOS\<close>

subsection \<open>Numbers\<close>

definition hexdigits :: string where "hexdigits = ''0123456789abcdef''"

text \<open>\<open>printnum\<close> recurses on \<open>num / base\<close>; with a base below 2 it would not come back.\<close>

function printnum :: "nat \<Rightarrow> nat \<Rightarrow> int \<Rightarrow> char \<Rightarrow> string option" where
  "printnum num base width padc =
    (if num \<ge> base then
       if base < 2 then None
       else case printnum (num div base) base (width - 1) padc of None \<Rightarrow> None
         | Some out \<Rightarrow> Some (out @ [hexdigits ! (num mod base)])
     else Some (replicate (nat (width - 1)) padc @ [hexdigits ! (num mod base)]))"
  by pat_completeness auto
termination by (relation "measure fst") auto

declare printnum.simps [simp del]

subsection \<open>Arguments\<close>

datatype varg = VInt u32 | VLong "64 word" | VStr "string option"

definition getuint :: "varg list \<Rightarrow> nat \<Rightarrow> (nat \<times> varg list) option" where
  "getuint ap lflag = (case ap of
     VLong x # ap \<Rightarrow> if lflag \<ge> 2 then Some (unat x, ap) else None
   | VInt x # ap \<Rightarrow> if lflag \<ge> 2 then None else Some (unat x, ap)
   | _ \<Rightarrow> None)"

definition getint :: "varg list \<Rightarrow> nat \<Rightarrow> (int \<times> varg list) option" where
  "getint ap lflag = (case ap of
     VLong x # ap \<Rightarrow> if lflag \<ge> 2 then Some (sint x, ap) else None
   | VInt x # ap \<Rightarrow> if lflag \<ge> 2 then None else Some (sint x, ap)
   | _ \<Rightarrow> None)"

definition error_string :: "int \<Rightarrow> string option" where
  "error_string e =
    (if e = 1 then Some ''unspecified error'' else if e = 2 then Some ''bad environment''
     else if e = 3 then Some ''invalid parameter'' else if e = 4 then Some ''out of memory''
     else if e = 5 then Some ''out of environments'' else if e = 6 then Some ''segmentation fault''
     else if e = 7 then Some ''env is not recving'' else if e = 8 then Some ''unexpected end of file'' else None)"

definition MAXERROR :: int where "MAXERROR = 9"

subsection \<open>Escape sequences\<close>

text \<open>The variables of one \<open>%\<close>-escape.\<close>

record esc =
  padc :: char
  width :: int
  precision :: int
  lflag :: nat
  altflag :: bool

text \<open>\<open>case 'd'\<close>: the number is printed as 64 bits; \<open>-num\<close> wraps for the smallest one.\<close>

definition put_d :: "int \<Rightarrow> esc \<Rightarrow> string option" where
  "put_d n e = (if n < 0
     then map_option (\<lambda>out. CHR ''-'' # out) (printnum (unat (- of_int n :: 64 word)) 10 (width e) (padc e))
     else printnum (unat (of_int n :: 64 word)) 10 (width e) (padc e))"

text \<open>\<open>case 's'\<close>: padding on the left, the characters up to the precision, padding on the right.\<close>

definition put_s :: "string option \<Rightarrow> esc \<Rightarrow> string" where
  "put_s p e =
    (let p = (case p of None \<Rightarrow> ''(null)'' | Some p \<Rightarrow> p);
         shown = (if precision e < 0 then p else take (nat (precision e)) p);
         pad1 = (if width e > 0 \<and> padc e \<noteq> CHR ''-'' then nat (width e - int (length shown)) else 0);
         w = (if width e > 0 \<and> padc e \<noteq> CHR ''-'' then min (width e - int (length shown)) 0 else width e);
         w = w - int (length shown) in
     replicate pad1 (padc e)
     @ map (\<lambda>ch. if altflag e \<and> (of_char ch < (32 :: nat) \<or> of_char ch > (126 :: nat)) then CHR ''?'' else ch) shown
     @ replicate (nat w) CHR '' '')"

definition is_digit :: "char \<Rightarrow> bool" where
  "is_digit c \<longleftrightarrow> (48 :: nat) \<le> of_char c \<and> of_char c \<le> (57 :: nat)"

definition digits_val :: "string \<Rightarrow> int" where
  "digits_val ds = foldl (\<lambda>p c. p * 10 + of_char c - 48) 0 ds"

definition process_precision :: "int \<Rightarrow> esc \<Rightarrow> esc" where
  "process_precision p e = (if width e < 0 then e\<lparr>width := p, precision := - 1\<rparr> else e\<lparr>precision := p\<rparr>)"

text \<open>
  The \<open>switch\<close> at \<open>reswitch\<close>. \<open>fmt0\<close> is the format after the \<open>%\<close>, where an unknown sequence backs
  up to; \<open>fmt\<close> the format from the current character on, its end being the NUL. The result is
  what is put, the rest of the format and the arguments left.
\<close>

function reswitch :: "string \<Rightarrow> string \<Rightarrow> esc \<Rightarrow> varg list \<Rightarrow> (string \<times> string \<times> varg list) option" where
  "reswitch fmt0 fmt e ap = (case fmt of
     [] \<Rightarrow> Some (''%'', fmt0, ap)
   | ch # fmt \<Rightarrow>
     if ch = CHR ''-'' then reswitch fmt0 fmt (e\<lparr>padc := CHR ''-''\<rparr>) ap
     else if ch = CHR ''0'' then reswitch fmt0 fmt (e\<lparr>padc := CHR ''0''\<rparr>) ap
     else if is_digit ch then
       reswitch fmt0 (dropWhile is_digit fmt) (process_precision (digits_val (ch # takeWhile is_digit fmt)) e) ap
     else if ch = CHR ''*'' then
       (case ap of VInt x # ap \<Rightarrow> reswitch fmt0 fmt (process_precision (sint x) e) ap | _ \<Rightarrow> None)
     else if ch = CHR ''.'' then reswitch fmt0 fmt (if width e < 0 then e\<lparr>width := 0\<rparr> else e) ap
     else if ch = CHR ''#'' then reswitch fmt0 fmt (e\<lparr>altflag := True\<rparr>) ap
     else if ch = CHR ''l'' then reswitch fmt0 fmt (e\<lparr>lflag := lflag e + 1\<rparr>) ap
     else if ch = CHR ''c'' then
       (case ap of VInt x # ap \<Rightarrow> Some ([char_of (unat x mod 256)], fmt, ap) | _ \<Rightarrow> None)
     else if ch = CHR ''e'' then
       (case ap of VInt x # ap \<Rightarrow>
          let err = (if sint x < 0 then sint (- x) else sint x) in
          (case if err < MAXERROR then error_string err else None of
             Some p \<Rightarrow> Some (p, fmt, ap)
           | None \<Rightarrow> (case put_d err \<lparr>padc = CHR '' '', width = - 1, precision = - 1, lflag = 0, altflag = False\<rparr> of
               None \<Rightarrow> None | Some out \<Rightarrow> Some (''error '' @ out, fmt, ap)))
        | _ \<Rightarrow> None)
     else if ch = CHR ''s'' then
       (case ap of VStr p # ap \<Rightarrow> Some (put_s p e, fmt, ap) | _ \<Rightarrow> None)
     else if ch = CHR ''d'' then
       (case getint ap (lflag e) of None \<Rightarrow> None
        | Some (n, ap) \<Rightarrow> map_option (\<lambda>out. (out, fmt, ap)) (put_d n e))
     else if ch = CHR ''u'' \<or> ch = CHR ''o'' \<or> ch = CHR ''x'' then
       (case getuint ap (lflag e) of None \<Rightarrow> None
        | Some (n, ap) \<Rightarrow> map_option (\<lambda>out. (out, fmt, ap))
            (printnum n (if ch = CHR ''u'' then 10 else if ch = CHR ''o'' then 8 else 16) (width e) (padc e)))
     else if ch = CHR ''p'' then
       (case ap of VInt x # ap \<Rightarrow> map_option (\<lambda>out. (''0x'' @ out, fmt, ap)) (printnum (unat x) 16 (width e) (padc e))
        | _ \<Rightarrow> None)
     else if ch = CHR ''%'' then Some (''%'', fmt, ap)
     else Some (''%'', fmt0, ap))"
  by pat_completeness auto
termination
  by (relation "measure (\<lambda>(_, fmt, _, _). length fmt)") (auto intro: le_imp_less_Suc length_dropWhile_le)

declare reswitch.simps [simp del]

lemma reswitch_rest:
  "reswitch fmt0 fmt e ap = Some (out, rest, ap') \<Longrightarrow> length fmt \<le> length fmt0 \<Longrightarrow> length rest \<le> length fmt0"
proof (induction fmt0 fmt e ap rule: reswitch.induct)
  case (1 fmt0 fmt e ap)
  show ?case
  proof (cases fmt)
    case Nil
    then show ?thesis using "1.prems" by (simp add: reswitch.simps)
  next
    case (Cons c cs)
    have l: "length cs \<le> length fmt0" "length (dropWhile is_digit cs) \<le> length fmt0"
      using "1.prems"(2) Cons length_dropWhile_le [of is_digit cs] by simp_all
    note IH = "1.IH" [OF Cons] and r = "1.prems"(1) [unfolded Cons]
    show ?thesis
      using r [unfolded reswitch.simps [of fmt0 "c # cs"]] l IH
      by (auto simp: Let_def split: if_splits option.splits list.splits varg.splits prod.splits)
  qed
qed

subsection \<open>Formatting\<close>

function vprintfmt :: "string \<Rightarrow> varg list \<Rightarrow> string option" where
  "vprintfmt fmt ap = (case fmt of
     [] \<Rightarrow> Some []
   | ch # fmt \<Rightarrow>
     if ch \<noteq> CHR ''%'' then map_option (\<lambda>out. ch # out) (vprintfmt fmt ap)
     else case reswitch fmt fmt \<lparr>padc = CHR '' '', width = - 1, precision = - 1, lflag = 0, altflag = False\<rparr> ap of
         None \<Rightarrow> None
       | Some (out, rest, ap) \<Rightarrow> map_option (\<lambda>out'. out @ out') (vprintfmt rest ap))"
  by pat_completeness auto
termination
  by (relation "measure (\<lambda>(fmt, _). length fmt)") (auto dest: reswitch_rest)

declare vprintfmt.simps [simp del]

definition printfmt :: "string \<Rightarrow> varg list \<Rightarrow> string option" where
  "printfmt fmt ap = vprintfmt fmt ap"

record sprintbuf =
  sp_buf :: u32
  sp_ebuf :: u32
  sp_cnt :: int

definition sprintputch :: "char \<Rightarrow> mem \<times> sprintbuf \<Rightarrow> mem \<times> sprintbuf" where
  "sprintputch ch = (\<lambda>(m, b).
     let b = b\<lparr>sp_cnt := sp_cnt b + 1\<rparr> in
     if sp_buf b < sp_ebuf b then (m(sp_buf b := of_char ch), b\<lparr>sp_buf := sp_buf b + 1\<rparr>) else (m, b))"

definition E_INVAL :: int where "E_INVAL = 3"

definition vsnprintf :: "mem \<Rightarrow> u32 \<Rightarrow> int \<Rightarrow> string \<Rightarrow> varg list \<Rightarrow> (int \<times> mem) option" where
  "vsnprintf m buf n fmt ap =
    (let b = \<lparr>sp_buf = buf, sp_ebuf = buf + of_int n - 1, sp_cnt = 0\<rparr> in
     if buf = 0 \<or> n < 1 then Some (- E_INVAL, m)
     else case vprintfmt fmt ap of None \<Rightarrow> None
       | Some out \<Rightarrow> (case fold sprintputch out (m, b) of (m, b) \<Rightarrow> Some (sp_cnt b, m(sp_buf b := 0))))"

definition snprintf :: "mem \<Rightarrow> u32 \<Rightarrow> int \<Rightarrow> string \<Rightarrow> varg list \<Rightarrow> (int \<times> mem) option" where
  "snprintf m buf n fmt ap = vsnprintf m buf n fmt ap"

section \<open>xv6\<close>

text \<open>
  \<open>printint\<close> fills \<open>buf\<close> from the least significant digit and prints it backwards; \<open>x % base\<close> and
  \<open>x / base\<close> are unsigned because \<open>x\<close> is.
\<close>

function rev_digits :: "nat \<Rightarrow> nat \<Rightarrow> string" where
  "rev_digits x base = (''0123456789ABCDEF'' ! (x mod base)) #
     (if x div base \<noteq> 0 \<and> base > 1 then rev_digits (x div base) base else [])"
  by pat_completeness auto
termination by (relation "measure fst") (auto simp: div_greater_zero_iff intro: div_less_dividend)

declare rev_digits.simps [simp del]

definition printint :: "u32 \<Rightarrow> nat \<Rightarrow> bool \<Rightarrow> string" where
  "printint xx base sg =
    (let neg = (sg \<and> sint xx < 0); x = (if neg then - xx else xx);
         buf = rev_digits (unat x) base @ (if neg then ''-'' else []) in
     rev buf)"

datatype pstate = PNormal | PPercent

fun uprintf_loop :: "pstate \<Rightarrow> string \<Rightarrow> varg list \<Rightarrow> string option" where
  "uprintf_loop st [] ap = Some []"
| "uprintf_loop PNormal (c # fmt) ap =
    (if c = CHR ''%'' then uprintf_loop PPercent fmt ap
     else map_option (\<lambda>out. c # out) (uprintf_loop PNormal fmt ap))"
| "uprintf_loop PPercent (c # fmt) ap =
    (if c = CHR ''d'' then
       (case ap of VInt x # ap \<Rightarrow> map_option (\<lambda>out. printint x 10 True @ out) (uprintf_loop PNormal fmt ap) | _ \<Rightarrow> None)
     else if c = CHR ''x'' \<or> c = CHR ''p'' then
       (case ap of VInt x # ap \<Rightarrow> map_option (\<lambda>out. printint x 16 False @ out) (uprintf_loop PNormal fmt ap) | _ \<Rightarrow> None)
     else if c = CHR ''s'' then
       (case ap of VStr s # ap \<Rightarrow>
          map_option (\<lambda>out. (case s of None \<Rightarrow> ''(null)'' | Some s \<Rightarrow> s) @ out) (uprintf_loop PNormal fmt ap) | _ \<Rightarrow> None)
     else if c = CHR ''c'' then
       (case ap of VInt x # ap \<Rightarrow> map_option (\<lambda>out. char_of (unat x mod 256) # out) (uprintf_loop PNormal fmt ap) | _ \<Rightarrow> None)
     else if c = CHR ''%'' then map_option (\<lambda>out. c # out) (uprintf_loop PNormal fmt ap)
     else map_option (\<lambda>out. CHR ''%'' # c # out) (uprintf_loop PNormal fmt ap))"

definition uprintf :: "string \<Rightarrow> varg list \<Rightarrow> string option" where
  "uprintf fmt ap = uprintf_loop PNormal fmt ap"

section \<open>Printing is inverted by parsing\<close>

text \<open>The value of a string of digits in a base, most significant digit first.\<close>

definition byte :: "char \<Rightarrow> u8" where "byte c = of_char c"

fun digit_list :: "nat \<Rightarrow> nat \<Rightarrow> nat list" where
  "digit_list base n = (if base < 2 \<or> n < base then [n] else digit_list base (n div base) @ [n mod base])"

declare digit_list.simps [simp del]

lemma printnum_digits:
  "1 < base \<Longrightarrow> w \<le> 1 \<Longrightarrow> printnum n base w c = Some (map (\<lambda>d. hexdigits ! d) (digit_list base n))"
proof (induction n arbitrary: w rule: less_induct)
  case (less n)
  show ?case
  proof (cases "n < base")
    case True
    then show ?thesis using less.prems by (simp add: printnum.simps [of n] digit_list.simps [of base n])
  next
    case False
    then have "n div base < n" using less.prems by (auto intro: div_less_dividend)
    from less.IH [OF this, of "w - 1"] show ?thesis
      using False less.prems by (simp add: printnum.simps [of n] digit_list.simps [of base n])
  qed
qed

lemma digit_list_bound: "1 < base \<Longrightarrow> d \<in> set (digit_list base n) \<Longrightarrow> d < base"
proof (induction n rule: less_induct)
  case (less n)
  show ?case
  proof (cases "n < base")
    case False
    then have "n div base < n" using less.prems by (auto intro: div_less_dividend)
    from less.IH [OF this less.prems(1)] show ?thesis
      using less.prems False by (auto simp: digit_list.simps [of base n])
  qed (use less.prems in \<open>auto simp: digit_list.simps [of base n] split: if_splits\<close>)
qed

lemma digit_list_value:
  "1 < base \<Longrightarrow> foldl (\<lambda>v d. v * of_nat base + of_nat d) (0 :: u32) (digit_list base n) = of_nat n"
proof (induction n rule: less_induct)
  case (less n)
  show ?case
  proof (cases "n < base")
    case False
    then have "n div base < n" using less.prems by (auto intro: div_less_dividend)
    from less.IH [OF this less.prems] have
      "foldl (\<lambda>v d. v * of_nat base + of_nat d) (0 :: u32) (digit_list base n) = of_nat (n div base) * of_nat base + of_nat (n mod base)"
      using False less.prems by (simp add: digit_list.simps [of base n])
    also have "\<dots> = of_nat (n div base * base + n mod base)" by (simp only: of_nat_add of_nat_mult)
    finally show ?thesis by (simp only: div_mult_mod_eq)
  qed (use less.prems in \<open>simp add: digit_list.simps [of base n]\<close>)
qed

lemma hexdigit_facts:
  assumes "d < 16"
  shows "digit_of (byte (hexdigits ! d)) = Some (int d)" "byte (hexdigits ! d) \<noteq> 0" "byte (hexdigits ! d) \<noteq> 0x20"
    "byte (hexdigits ! d) \<noteq> 9" "byte (hexdigits ! d) \<noteq> 0x2b" "byte (hexdigits ! d) \<noteq> 0x2d" "byte (hexdigits ! d) \<noteq> 0x78"
proof -
  have "d = 0 \<or> d = 1 \<or> d = 2 \<or> d = 3 \<or> d = 4 \<or> d = 5 \<or> d = 6 \<or> d = 7 \<or> d = 8 \<or> d = 9
    \<or> d = 10 \<or> d = 11 \<or> d = 12 \<or> d = 13 \<or> d = 14 \<or> d = 15" using assms by arith
  then show "digit_of (byte (hexdigits ! d)) = Some (int d)" "byte (hexdigits ! d) \<noteq> 0" "byte (hexdigits ! d) \<noteq> 0x20"
    "byte (hexdigits ! d) \<noteq> 9" "byte (hexdigits ! d) \<noteq> 0x2b" "byte (hexdigits ! d) \<noteq> 0x2d" "byte (hexdigits ! d) \<noteq> 0x78"
    by (elim disjE; simp add: digit_of_def byte_def hexdigits_def)+
qed

lemma strtol_digits_eq:
  assumes "cstr m s (map (\<lambda>d. byte (hexdigits ! d)) ds)" "\<forall>d \<in> set ds. d < base" "base \<le> 16"
  shows "strtol_digits m s (int base) v
    = Some (foldl (\<lambda>v d. v * of_nat base + of_nat d) v ds, s + of_nat (length ds))"
  using assms
proof (induction ds arbitrary: s v)
  case Nil
  then show ?case by (simp add: strtol_digits.simps [of m s] digit_of_def)
next
  case (Cons d ds)
  have "d < 16" "int d < int base" using Cons.prems by auto
  then show ?case
    using Cons hexdigit_facts(1) [of d] by (simp add: strtol_digits.simps [of m s] ac_simps)
qed

lemma digit_list_ne: "digit_list base n \<noteq> []"
  by (subst digit_list.simps) simp

text \<open>C25: printing and parsing numbers. What \<open>printnum\<close> puts for a number in a base from 2 to 16
  (without padding), \<open>strtol\<close> reads back in that base: it returns the number, modulo the width of
  a \<open>long\<close>, and stops exactly at the end of the digits.\<close>

theorem strtol_printnum:
  assumes "printnum n base w c = Some out" "2 \<le> base" "base \<le> 16" "w \<le> 1" "cstr m s (map byte out)"
  shows "strtol m s (int base) = Some (of_nat n, s + of_nat (length out))"
proof -
  have out: "out = map (\<lambda>d. hexdigits ! d) (digit_list base n)"
    using assms(1,2,4) printnum_digits [of base w n c] by simp
  obtain d ds where ds: "digit_list base n = d # ds" using digit_list_ne by (cases "digit_list base n") auto
  have b: "\<forall>d \<in> set (digit_list base n). d < base" using digit_list_bound assms(2) by auto
  then have d16: "\<forall>d \<in> set (digit_list base n). d < 16" using assms(3) by auto
  have cs: "cstr m s (map (\<lambda>d. byte (hexdigits ! d)) (digit_list base n))"
    using assms(5) by (simp add: out comp_def)
  then have m: "m s = byte (hexdigits ! d)" using ds by simp
  have m1: "m (s + 1) \<noteq> 0x78"
    using cs ds d16 hexdigit_facts(7) by (cases ds) auto
  note h = hexdigit_facts [of d]
  have "skip_blank m s = Some s" using h(3,4) d16 ds by (simp add: skip_blank.simps [of m s] m)
  moreover have "strtol_digits m s (int base) 0 = Some (of_nat n, s + of_nat (length out))"
    using strtol_digits_eq [OF cs b assms(3), of 0] digit_list_value [of base n] assms(2) by (simp add: out)
  ultimately show ?thesis
    using h(5,6) m m1 d16 ds assms(2) by (simp add: strtol_def Let_def)
qed

definition num_mem :: mem where
  "num_mem = (\<lambda>_. 0)(0x100 := 0x31, 0x101 := 0x39, 0x102 := 0x66)"

theorem strtol_printnum_witness:
  "printnum 415 16 (- 1) CHR '' '' = Some ''19f'' \<and> strtol num_mem 0x100 16 = Some (415, 0x103)"
proof -
  have p: "printnum 415 16 (- 1) CHR '' '' = Some ''19f''"
    by (simp add: printnum_digits digit_list.simps [of 16 415] digit_list.simps [of 16 25] digit_list.simps [of 16 "Suc 0"] hexdigits_def)
  moreover have "cstr num_mem 0x100 (map byte ''19f'')" by (simp add: num_mem_def byte_def)
  ultimately show ?thesis using strtol_printnum [of 415 16 "- 1" "CHR '' ''" "''19f''" num_mem "0x100"] by simp
qed

section \<open>Printing into a buffer\<close>

lemma sprintputch_simps:
  "sprintputch ch (m, \<lparr>sp_buf = a, sp_ebuf = e, sp_cnt = c\<rparr>) =
    (if a < e then (m(a := of_char ch), \<lparr>sp_buf = a + 1, sp_ebuf = e, sp_cnt = c + 1\<rparr>)
     else (m, \<lparr>sp_buf = a, sp_ebuf = e, sp_cnt = c + 1\<rparr>))"
  by (simp add: sprintputch_def)

lemma sprintputch_fold:
  assumes "unat buf + k \<le> 4294967295" "fold sprintputch out (m, \<lparr>sp_buf = buf, sp_ebuf = buf + of_nat k, sp_cnt = c\<rparr>) = (m', b')"
  shows "sp_cnt b' = c + int (length out) \<and> sp_buf b' = buf + of_nat (min k (length out))
    \<and> (\<forall>i < min k (length out). m' (buf + of_nat i) = byte (out ! i))
    \<and> (\<forall>x. \<not> in_range buf k x \<longrightarrow> m' x = m x)"
  using assms
proof (induction out arbitrary: m buf k c)
  case Nil
  then show ?case by auto
next
  case (Cons ch out)
  show ?case
  proof (cases k)
    case 0
    then have "fold sprintputch out (m, \<lparr>sp_buf = buf, sp_ebuf = buf + of_nat 0, sp_cnt = c + 1\<rparr>) = (m', b')"
      using Cons.prems(2) by (simp add: sprintputch_simps)
    from Cons.IH [OF _ this] show ?thesis using Cons.prems(1) 0 by simp
  next
    case (Suc j)
    have "unat (buf + of_nat k) = unat buf + k"
      using Cons.prems(1) unat_add_less [of buf "of_nat k"] unat_of_nat32 [of k] by simp
    then have lt: "buf < buf + of_nat k" using Suc by (simp add: word_less_nat_alt)
    have u1: "unat (buf + 1) = unat buf + 1"
      using Cons.prems(1) Suc unat_add_less [of buf 1] by simp
    have e: "buf + of_nat k = (buf + 1) + of_nat j" using Suc by simp
    have "fold sprintputch out (m(buf := of_char ch), \<lparr>sp_buf = buf + 1, sp_ebuf = (buf + 1) + of_nat j, sp_cnt = c + 1\<rparr>) = (m', b')"
      using Cons.prems(2) lt unfolding e by (simp add: sprintputch_simps)
    from Cons.IH [OF _ this] have IH: "sp_cnt b' = c + 1 + int (length out)" "sp_buf b' = buf + 1 + of_nat (min j (length out))"
      "\<forall>i < min j (length out). m' (buf + 1 + of_nat i) = byte (out ! i)"
      "\<forall>x. \<not> in_range (buf + 1) j x \<longrightarrow> m' x = (m(buf := of_char ch)) x"
      using Cons.prems(1) Suc u1 by auto
    have "\<not> in_range (buf + 1) j buf"
      using Cons.prems(1) Suc by (intro not_in_range_pred) simp
    then have "m' buf = byte ch" using IH(4) by (simp add: byte_def)
    then have "m' (buf + of_nat i) = byte ((ch # out) ! i)" if "i < min k (length (ch # out))" for i
      using that IH(3) Suc by (cases i) (auto simp: ac_simps)
    moreover have "m' x = m x" if "\<not> in_range buf k x" for x
    proof -
      have "\<not> in_range (buf + 1) j x" "x \<noteq> buf" using that Suc by (auto simp: in_range_Suc)
      then show ?thesis using IH(4) by simp
    qed
    ultimately show ?thesis using IH(1,2) Suc by (simp add: ac_simps)
  qed
qed

text \<open>C26: \<open>vsnprintf\<close> never writes outside the \<open>n\<close> bytes of the buffer, always terminates what it
  wrote, and the text in the buffer is the formatted text cut to \<open>n - 1\<close> characters; the result is the
  length of the whole text, so a caller can tell that it was cut.\<close>

theorem vsnprintf_bounded:
  assumes "vprintfmt fmt ap = Some out" "buf \<noteq> 0" "0 < n" "int (unat buf) + n \<le> 4294967296"
  shows "\<exists>m'. vsnprintf m buf n fmt ap = Some (int (length out), m')
    \<and> (\<forall>i < min (nat n - 1) (length out). m' (buf + of_nat i) = byte (out ! i))
    \<and> m' (buf + of_nat (min (nat n - 1) (length out))) = 0
    \<and> (\<forall>x. \<not> in_range buf (nat n) x \<longrightarrow> m' x = m x)"
proof -
  let ?k = "nat n - 1" and ?l = "min (nat n - 1) (length out)"
  have k: "buf + of_int n - 1 = buf + of_nat ?k"
  proof -
    have "n - 1 = int ?k" using assms(3) by simp
    then have "of_int (n - 1) = (of_int (int ?k) :: u32)" by (rule arg_cong)
    then show ?thesis by (simp add: add_diff_eq [symmetric] del: add_diff_eq)
  qed
  have kb: "unat buf + ?k \<le> 4294967295" using assms(3,4) by linarith
  obtain m' b' where f: "fold sprintputch out (m, \<lparr>sp_buf = buf, sp_ebuf = buf + of_nat ?k, sp_cnt = 0\<rparr>) = (m', b')"
    by (cases "fold sprintputch out (m, \<lparr>sp_buf = buf, sp_ebuf = buf + of_nat ?k, sp_cnt = 0\<rparr>)")
  note g = sprintputch_fold [OF kb f]
  have "vsnprintf m buf n fmt ap = Some (int (length out), m'(buf + of_nat ?l := 0))"
    using assms(1-3) f g unfolding vsnprintf_def Let_def k by (simp del: of_nat_min of_nat_diff)
  moreover have "buf + of_nat i \<noteq> buf + of_nat ?l" if "i < ?l" for i
    using that kb unat_of_nat32 [of i] unat_of_nat32 [of ?l] by (auto simp del: of_nat_min)
  moreover have "in_range buf (nat n) (buf + of_nat ?l)"
  proof -
    have "unat (of_nat ?l :: u32) = ?l" by (rule unat_of_nat32) (use kb in linarith)
    moreover have "?l < nat n" using assms(3) by linarith
    ultimately show ?thesis unfolding in_range_def by (simp only: add_diff_cancel_left')
  qed
  moreover have "in_range buf (nat n) x" if "in_range buf ?k x" for x using that by (simp add: in_range_def)
  ultimately show ?thesis using g by (intro exI [of _ "m'(buf + of_nat ?l := 0)"]) auto
qed

theorem vsnprintf_bounded_witness:
  "vprintfmt ''%d'' [VInt 415] = Some ''415''
    \<and> (\<exists>m'. vsnprintf (\<lambda>_. 7) 0x100 3 ''%d'' [VInt 415] = Some (3, m') \<and> m' 0x102 = 0 \<and> m' 0x103 = 7)"
proof -
  have "printnum 415 10 (- 1) CHR '' '' = Some ''415''"
    by (simp add: printnum_digits digit_list.simps [of 10 415] digit_list.simps [of 10 41] digit_list.simps [of 10 4] hexdigits_def)
  then have v: "vprintfmt ''%d'' [VInt 415] = Some ''415''"
    by (simp add: vprintfmt.simps [of "''%d''"] vprintfmt.simps [of "[]"] reswitch.simps [of "''d''"] is_digit_def getint_def put_d_def)
  from vsnprintf_bounded [OF this, of "0x100" 3 "\<lambda>_. 7"] obtain m' where
    "vsnprintf (\<lambda>_. 7) 0x100 3 ''%d'' [VInt 415] = Some (3, m')" "m' (0x100 + of_nat 2) = 0" "\<forall>x. \<not> in_range 0x100 3 x \<longrightarrow> m' x = 7"
    by auto
  then show ?thesis using v by (auto simp: in_range_def)
qed

end
