(* ===== verification/Console.thy ===== *)
theory Console
  imports Sysfile Printfmt
begin

text \<open>
  The console: output to the screen and the serial port, the line discipline of the input, the
  keyboard (\<open>console.c\<close>, \<open>kbd.c\<close>, \<open>uart.c\<close> of \<open>src/my-xv6-public\<close>) and \<open>procdump\<close> of \<open>proc.c\<close>. The
  devices are part of the state: \<open>crt\<close> is the screen memory, \<open>cursor\<close> the register of the
  controller, \<open>serial\<close> the bytes sent.
\<close>

section \<open>State\<close>

definition BACKSPACE :: int where "BACKSPACE = 0x100"
definition INPUT_BUF :: u32 where "INPUT_BUF = 128"

record input_t =
  ibuf :: "u32 \<Rightarrow> u8"
  ri :: u32
  wi :: u32
  ei :: u32

record kcons = kfile +
  panicked :: bool
  locking :: bool
  crt :: "nat \<Rightarrow> u16"
  cursor :: u16
  uart :: bool
  serial :: "u8 list"
  inp :: input_t
  kshift :: u32

section \<open>Output\<close>

definition uartputc :: "int \<Rightarrow> 'a kcons_scheme \<Rightarrow> 'a kcons_scheme" where
  "uartputc c s = (if \<not> uart s then s else s\<lparr>serial := serial s @ [of_int c]\<rparr>)"

text \<open>\<open>cgaputc\<close>; the cursor register holds 16 bits, \<open>pos\<close> is an \<open>int\<close>.\<close>

definition cgaputc :: "int \<Rightarrow> 'a kcons_scheme \<Rightarrow> (unit, 'a kcons_scheme) res" where
  "cgaputc c s =
    (let pos = int (unat (cursor s));
         put = (\<lambda>p v s. s\<lparr>crt := (crt s)(nat p := v)\<rparr>);
         (pos, s) = (if c = 10 then (pos + (80 - pos mod 80), s)
           else if c = BACKSPACE then (if pos > 0 then pos - 1 else pos, s)
           else (pos + 1, put pos ((of_int c AND 0xff) OR 0x0700) s)) in
     if pos < 0 \<or> pos > 25 * 80 then Panic ''pos under/overflow''
     else let (pos, s) = (if pos div 80 \<ge> 24 then
                let s = s\<lparr>crt := (\<lambda>i. if i < 23 * 80 then crt s (i + 80) else crt s i)\<rparr>; pos = pos - 80 in
                (pos, s\<lparr>crt := (\<lambda>i. if nat pos \<le> i \<and> i < 24 * 80 then 0 else crt s i)\<rparr>)
              else (pos, s)) in
       Ok () (put pos (0x20 OR 0x0700) (s\<lparr>cursor := of_int pos\<rparr>)))"

definition consputc :: "int \<Rightarrow> 'a kcons_scheme \<Rightarrow> (unit, 'a kcons_scheme) res" where
  "consputc c s =
    (if panicked s then Hang
     else let s = (if c = BACKSPACE then uartputc 8 (uartputc 32 (uartputc 8 s)) else uartputc c s) in cgaputc c s)"

primrec consputs :: "int list \<Rightarrow> 'a kcons_scheme \<Rightarrow> (unit, 'a kcons_scheme) res" where
  "consputs [] s = Ok () s"
| "consputs (c # cs) s = bind (consputc c s) (\<lambda>_ s. consputs cs s)"

text \<open>\<open>printint\<close> of the kernel: its digits are in lower case.\<close>

definition kprintint :: "u32 \<Rightarrow> nat \<Rightarrow> bool \<Rightarrow> string" where
  "kprintint xx base sg =
    (let neg = (sg \<and> sint xx < 0); x = (if neg then - xx else xx) in
     (if neg then ''-'' else []) @ map (\<lambda>d. hexdigits ! d) (digit_list base (unat x)))"

text \<open>The characters \<open>cprintf\<close> puts; the variable arguments are as in the theory \<open>Printfmt\<close>.\<close>

fun cprintf_loop :: "string \<Rightarrow> varg list \<Rightarrow> string option" where
  "cprintf_loop [] ap = Some []"
| "cprintf_loop [c] ap = Some (if c \<noteq> CHR ''%'' then [c] else [])"
| "cprintf_loop (c # d # fmt) ap =
    (if c \<noteq> CHR ''%'' then map_option (\<lambda>out. c # out) (cprintf_loop (d # fmt) ap)
     else if d = CHR ''d'' then
       (case ap of VInt x # ap \<Rightarrow> map_option (\<lambda>out. kprintint x 10 True @ out) (cprintf_loop fmt ap) | _ \<Rightarrow> None)
     else if d = CHR ''x'' \<or> d = CHR ''p'' then
       (case ap of VInt x # ap \<Rightarrow> map_option (\<lambda>out. kprintint x 16 False @ out) (cprintf_loop fmt ap) | _ \<Rightarrow> None)
     else if d = CHR ''s'' then
       (case ap of VStr s # ap \<Rightarrow>
          map_option (\<lambda>out. (case s of None \<Rightarrow> ''(null)'' | Some s \<Rightarrow> s) @ out) (cprintf_loop fmt ap) | _ \<Rightarrow> None)
     else if d = CHR ''%'' then map_option (\<lambda>out. d # out) (cprintf_loop fmt ap)
     else map_option (\<lambda>out. CHR ''%'' # d # out) (cprintf_loop fmt ap))"

definition cprintf :: "string \<Rightarrow> varg list \<Rightarrow> 'a kcons_scheme \<Rightarrow> (unit, 'a kcons_scheme) res" where
  "cprintf fmt ap s = (let lk = locking s in
     bind (if lk then acquire LkCons s else Ok () s) (\<lambda>_ s.
     case cprintf_loop fmt ap of None \<Rightarrow> Fault
     | Some out \<Rightarrow> bind (consputs (map (\<lambda>c. int (of_char c)) out) s) (\<lambda>_ s.
         if lk then release LkCons s else Ok () s)))"

section \<open>Debugging\<close>

text \<open>The return addresses on the chain of frames from \<open>ebp\<close>, at most ten; the rest are 0.\<close>

primrec pcs_loop :: "nat \<Rightarrow> mem \<Rightarrow> u32 \<Rightarrow> u32 list" where
  "pcs_loop 0 m ebp = []"
| "pcs_loop (Suc n) m ebp = (if ebp = 0 \<or> ebp < KERNBASE \<or> ebp = 0xffffffff then replicate (Suc n) 0
     else load32 m (ebp + 4) # pcs_loop n m (load32 m ebp))"

definition getcallerpcs :: "mem \<Rightarrow> u32 \<Rightarrow> u32 list" where
  "getcallerpcs m v = pcs_loop 10 m (v - 8)"

definition state_name :: "procstate \<Rightarrow> string" where
  "state_name st = (case st of UNUSED \<Rightarrow> ''unused'' | EMBRYO \<Rightarrow> ''embryo'' | SLEEPING \<Rightarrow> ''sleep ''
     | RUNNABLE \<Rightarrow> ''runble'' | RUNNING \<Rightarrow> ''run   '' | ZOMBIE \<Rightarrow> ''zombie'')"

primrec dump_pcs :: "u32 list \<Rightarrow> 'a kcons_scheme \<Rightarrow> (unit, 'a kcons_scheme) res" where
  "dump_pcs [] s = Ok () s"
| "dump_pcs (a # adrs) s = (if a = 0 then Ok () s
     else bind (cprintf '' %p'' [VInt a] s) (\<lambda>_ s. dump_pcs adrs s))"

primrec procdump_loop :: "nat list \<Rightarrow> 'a kcons_scheme \<Rightarrow> (unit, 'a kcons_scheme) res" where
  "procdump_loop [] s = Ok () s"
| "procdump_loop (p # ps) s =
    (if state (procs s p) = UNUSED then procdump_loop ps s
     else bind (cprintf ''%d %s %s'' [VInt (pid (procs s p)), VStr (Some (state_name (state (procs s p)))),
             VStr (Some (pname (procs s p)))] s) (\<lambda>_ s.
       bind (if state (procs s p) = SLEEPING
             then dump_pcs (getcallerpcs (mem s) (load32 (mem s) (pcontext (procs s p) + 12) + 8)) s
             else Ok () s) (\<lambda>_ s.
       bind (cprintf [CHR 0x0A] [] s) (\<lambda>_ s. procdump_loop ps s))))"

definition procdump :: "'a kcons_scheme \<Rightarrow> (unit, 'a kcons_scheme) res" where
  "procdump s = procdump_loop [0..<NPROC] s"

section \<open>Input\<close>

definition upd_inp :: "(input_t \<Rightarrow> input_t) \<Rightarrow> 'a kcons_scheme \<Rightarrow> 'a kcons_scheme" where
  "upd_inp f s = s\<lparr>inp := f (inp s)\<rparr>"

text \<open>The loop of Control-U; \<open>n\<close> bounds its iterations by the length of the edited line.\<close>

primrec kill_line :: "nat \<Rightarrow> 'a kcons_scheme \<Rightarrow> (unit, 'a kcons_scheme) res" where
  "kill_line 0 s = Ok () s"
| "kill_line (Suc n) s =
    (if ei (inp s) \<noteq> wi (inp s) \<and> ibuf (inp s) ((ei (inp s) - 1) mod INPUT_BUF) \<noteq> 10
     then bind (consputc BACKSPACE (upd_inp (\<lambda>x. x\<lparr>ei := ei x - 1\<rparr>) s)) (\<lambda>_ s. kill_line n s)
     else Ok () s)"

text \<open>One character of the loop of \<open>consoleintr\<close>; the result tells whether to dump the processes.\<close>

definition cons_char :: "int \<Rightarrow> 'a kcons_scheme \<Rightarrow> (bool, 'a kcons_scheme) res" where
  "cons_char c s =
    (if c = 0x10 then Ok True s
     else if c = 0x15 then bind (kill_line (unat (ei (inp s) - wi (inp s))) s) (\<lambda>_ s. Ok False s)
     else if c = 8 \<or> c = 0x7f then
       if ei (inp s) \<noteq> wi (inp s)
       then bind (consputc BACKSPACE (upd_inp (\<lambda>x. x\<lparr>ei := ei x - 1\<rparr>) s)) (\<lambda>_ s. Ok False s) else Ok False s
     else if c \<noteq> 0 \<and> ei (inp s) - ri (inp s) < INPUT_BUF then
       let c = (if c = 13 then 10 else c);
           s = upd_inp (\<lambda>x. x\<lparr>ibuf := (ibuf x)(ei x mod INPUT_BUF := of_int c), ei := ei x + 1\<rparr>) s in
       bind (consputc c s) (\<lambda>_ s.
       if c = 10 \<or> c = 4 \<or> ei (inp s) = ri (inp s) + INPUT_BUF
       then bind (wakeup ChInput (upd_inp (\<lambda>x. x\<lparr>wi := ei x\<rparr>) s)) (\<lambda>_ s. Ok False s)
       else Ok False s)
     else Ok False s)"

text \<open>\<open>cs\<close> is what the calls of \<open>getc\<close> return before the first negative value.\<close>

primrec consoleintr_loop :: "int list \<Rightarrow> bool \<Rightarrow> 'a kcons_scheme \<Rightarrow> (bool, 'a kcons_scheme) res" where
  "consoleintr_loop [] d s = Ok d s"
| "consoleintr_loop (c # cs) d s = bind (cons_char c s) (\<lambda>e s. consoleintr_loop cs (d \<or> e) s)"

definition consoleintr :: "int list \<Rightarrow> 'a kcons_scheme \<Rightarrow> (unit, 'a kcons_scheme) res" where
  "consoleintr cs s = bind (acquire LkCons s) (\<lambda>_ s. bind (consoleintr_loop cs False s) (\<lambda>d s.
     bind (release LkCons s) (\<lambda>_ s. if d then procdump s else Ok () s)))"

text \<open>
  The loop of \<open>consoleread\<close> with \<open>cons.lock\<close> held, for \<open>n\<close> bytes still wanted of \<open>target\<close>, \<open>xs\<close>
  already read. It ends in \<open>Switch\<close> when the process has to wait for a line.
\<close>

primrec consoleread_loop :: "nat \<Rightarrow> nat \<Rightarrow> u32 \<Rightarrow> u8 list \<Rightarrow> 'a kcons_scheme \<Rightarrow> (int \<times> u8 list, 'a kcons_scheme) res" where
  "consoleread_loop i 0 target xs s = bind (release LkCons s) (\<lambda>_ s. bind (ilock (Some i) s) (\<lambda>_ s. Ok (sint target, xs) s))"
| "consoleread_loop i (Suc n) target xs s =
    (let fin = (\<lambda>k xs s. bind (release LkCons s) (\<lambda>_ s. bind (ilock (Some i) s) (\<lambda>_ s. Ok (sint (target - of_nat k), xs) s))) in
     if ri (inp s) = wi (inp s) then
       bind (curproc s) (\<lambda>p s.
       if killed (procs s p) then bind (release LkCons s) (\<lambda>_ s. bind (ilock (Some i) s) (\<lambda>_ s. Ok (-1, xs) s))
       else bind (sleep ChInput LkCons s) (\<lambda>_ s. Hang))
     else
       let c = ibuf (inp s) (ri (inp s) mod INPUT_BUF); s = upd_inp (\<lambda>x. x\<lparr>ri := ri x + 1\<rparr>) s in
       if c = 4 then fin (Suc n) xs (if of_nat (Suc n) < target then upd_inp (\<lambda>x. x\<lparr>ri := ri x - 1\<rparr>) s else s)
       else if c = 10 then fin n (xs @ [c]) s
       else consoleread_loop i n target (xs @ [c]) s)"

definition consoleread :: "nat \<Rightarrow> u32 \<Rightarrow> 'a kcons_scheme \<Rightarrow> (int \<times> u8 list, 'a kcons_scheme) res" where
  "consoleread i n s = bind (iunlock (Some i) s) (\<lambda>_ s. bind (acquire LkCons s) (\<lambda>_ s.
     if sint n > 0 then consoleread_loop i (unat n) n [] s
     else bind (release LkCons s) (\<lambda>_ s. bind (ilock (Some i) s) (\<lambda>_ s. Ok (0, []) s))))"

definition consoleread_resume :: "nat \<Rightarrow> bool \<Rightarrow> nat \<Rightarrow> nat \<Rightarrow> u32 \<Rightarrow> u8 list \<Rightarrow> 'a kcons_scheme
    \<Rightarrow> (int \<times> u8 list, 'a kcons_scheme) res" where
  "consoleread_resume p ie i n target xs s = bind (sleep_resume p LkCons ie s) (\<lambda>_ s. consoleread_loop i n target xs s)"

definition consolewrite :: "nat \<Rightarrow> u8 list \<Rightarrow> 'a kcons_scheme \<Rightarrow> (int, 'a kcons_scheme) res" where
  "consolewrite i xs s = bind (iunlock (Some i) s) (\<lambda>_ s. bind (acquire LkCons s) (\<lambda>_ s.
     bind (consputs (map uint xs) s) (\<lambda>_ s. bind (release LkCons s) (\<lambda>_ s. bind (ilock (Some i) s) (\<lambda>_ s.
     Ok (int (length xs)) s)))))"

definition CONSOLE :: nat where "CONSOLE = 1"

text \<open>The device switch after \<open>consoleinit\<close>: the console is its only device.\<close>

definition devsw_table :: "nat \<Rightarrow> ('a kcons_scheme) devsw" where
  "devsw_table m = (if m = CONSOLE then \<lparr>dev_read = Some consoleread, dev_write = Some consolewrite\<rparr>
     else \<lparr>dev_read = None, dev_write = None\<rparr>)"

definition consoleinit :: "'a kcons_scheme \<Rightarrow> 'a kcons_scheme" where
  "consoleinit s = (initlock LkCons s)\<lparr>locking := True\<rparr>"

section \<open>Keyboard\<close>

definition SHIFT :: u32 where "SHIFT = 1"
definition CTL :: u32 where "CTL = 2"
definition ALT :: u32 where "ALT = 4"
definition CAPSLOCK :: u32 where "CAPSLOCK = 8"
definition E0ESC :: u32 where "E0ESC = 64"

definition shiftcode :: "u32 \<Rightarrow> u32" where
  "shiftcode d = (if d = 0x1D \<or> d = 0x9D then CTL else if d = 0x2A \<or> d = 0x36 then SHIFT
     else if d = 0x38 \<or> d = 0xB8 then ALT else 0)"

definition togglecode :: "u32 \<Rightarrow> u32" where
  "togglecode d = (if d = 0x3A then CAPSLOCK else if d = 0x45 then 16 else if d = 0x46 then 32 else 0)"

text \<open>The rows of \<open>normalmap\<close>, \<open>shiftmap\<close> and \<open>ctlmap\<close> from 0, and the entries of extended keys.\<close>

definition ext_keys :: "u32 \<Rightarrow> u32" where
  "ext_keys d = (case map_of [(0xC8, 0xE2), (0xD0, 0xE3), (0xC9, 0xE6), (0xD1, 0xE7), (0xCB, 0xE4), (0xCD, 0xE5),
       (0x97, 0xE0), (0xCF, 0xE1), (0xD2, 0xE8), (0xD3, 0xE9)] d of None \<Rightarrow> 0 | Some c \<Rightarrow> c)"

definition keymap :: "u32 list \<Rightarrow> u32 \<Rightarrow> u32 \<Rightarrow> u32 \<Rightarrow> u32" where
  "keymap row enter divk d = (if unat d < length row then row ! unat d else if d = 0x9C then enter
     else if d = 0xB5 then divk else ext_keys d)"

definition chr :: "char \<Rightarrow> u32" where "chr c = of_char c"
definition ctl :: "char \<Rightarrow> u32" where "ctl c = (chr c - 0x40) AND 0xFF"

definition tail_keys :: "u32 list" where
  "tail_keys = replicate 13 0 @ map chr ''789-456+1230.'' @ replicate 4 0"

definition normalmap :: "u32 \<Rightarrow> u32" where
  "normalmap = keymap ([0, 0x1B] @ map chr ''1234567890-='' @ [8, 9] @ map chr ''qwertyuiop[]'' @ [10, 0]
     @ map chr ''asdfghjkl;'' @ [0x27] @ map chr ''`'' @ [0] @ [0x5C] @ map chr ''zxcvbnm,./'' @ [0] @ map chr ''*'' @ [0] @ [32]
     @ tail_keys) 10 (chr (CHR ''/''))"

definition shiftmap :: "u32 \<Rightarrow> u32" where
  "shiftmap = keymap ([0, 0x1B] @ map chr ''!@#$%^&*()_+'' @ [8, 9] @ map chr ''QWERTYUIOP{}'' @ [10, 0]
     @ map chr ''ASDFGHJKL:'' @ [0x22] @ map chr ''~'' @ [0] @ map chr ''|ZXCVBNM<>?'' @ [0] @ map chr ''*'' @ [0] @ [32]
     @ tail_keys) 10 (chr (CHR ''/''))"

definition ctlmap :: "u32 \<Rightarrow> u32" where
  "ctlmap = keymap (replicate 16 0 @ map ctl ''QWERTYUIOP'' @ [0, 0, 13, 0] @ map ctl ''ASDFGHJKL'' @ replicate 4 0
     @ [0x1C] @ map ctl ''ZXCVBNM'' @ [0, 0] @ map ctl ''/'' @ [0, 0]) 13 (ctl (CHR ''/''))"

text \<open>\<open>kbdgetc\<close> for a byte \<open>data\<close> in the buffer of the controller: the result, and the new \<open>shift\<close>.\<close>

definition kbdgetc :: "u32 \<Rightarrow> u32 \<Rightarrow> u32 \<times> u32" where
  "kbdgetc data shift =
    (if data = 0xE0 then (0, shift OR E0ESC)
     else if data AND 0x80 \<noteq> 0 then
       let data = (if shift AND E0ESC \<noteq> 0 then data else data AND 0x7F) in
       (0, shift AND NOT (shiftcode data OR E0ESC))
     else
       let (data, shift) = (if shift AND E0ESC \<noteq> 0 then (data OR 0x80, shift AND NOT E0ESC) else (data, shift));
           shift = shift OR shiftcode data;
           shift = shift XOR togglecode data;
           k = shift AND (CTL OR SHIFT);
           c = (if k = 0 then normalmap else if k = 1 then shiftmap else ctlmap) data;
           c = (if shift AND CAPSLOCK \<noteq> 0 then
                  if 0x61 \<le> c \<and> c \<le> 0x7a then c - 32 else if 0x41 \<le> c \<and> c \<le> 0x5a then c + 32 else c
                else c) in
       (c, shift))"

text \<open>The values of \<open>kbdgetc\<close> for the bytes waiting in the controller.\<close>

fun kbd_chars :: "u32 list \<Rightarrow> u32 \<Rightarrow> int list \<times> u32" where
  "kbd_chars [] shift = ([], shift)"
| "kbd_chars (d # ds) shift = (case kbdgetc d shift of (c, shift) \<Rightarrow>
     case kbd_chars ds shift of (cs, shift) \<Rightarrow> (uint c # cs, shift))"

definition kbdintr :: "u32 list \<Rightarrow> 'a kcons_scheme \<Rightarrow> (unit, 'a kcons_scheme) res" where
  "kbdintr ds s = (case kbd_chars ds (kshift s) of (cs, shift) \<Rightarrow> consoleintr cs (s\<lparr>kshift := shift\<rparr>))"

definition uartintr :: "u8 list \<Rightarrow> 'a kcons_scheme \<Rightarrow> (unit, 'a kcons_scheme) res" where
  "uartintr bs s = consoleintr (if uart s then map uint bs else []) s"

end
