(* ===== verification/Trap.thy ===== *)
theory Trap
  imports Console
begin

text \<open>
  Traps: the interrupt descriptor table, the dispatch of system calls (\<open>syscall\<close> of
  \<open>src/my-xv6-public/syscall.c\<close>) and \<open>trap\<close> of \<open>src/my-xv6-public/trap.c\<close>. What the devices deliver is
  an argument: the scan codes of the keyboard, the bytes of the serial port, the date of the clock.
\<close>

section \<open>The descriptor table\<close>

record gatedesc =
  gd_off :: u32
  gd_cs :: u16
  gd_type :: nat
  gd_dpl :: u32
  gd_p :: bool

definition STS_IG32 :: nat where "STS_IG32 = 0xE"
definition STS_TG32 :: nat where "STS_TG32 = 0xF"
definition T_PGFLT :: u32 where "T_PGFLT = 14"
definition T_SYSCALL :: u32 where "T_SYSCALL = 64"
definition T_IRQ0 :: u32 where "T_IRQ0 = 32"
definition IRQ_TIMER :: u32 where "IRQ_TIMER = 0"
definition IRQ_KBD :: u32 where "IRQ_KBD = 1"
definition IRQ_COM1 :: u32 where "IRQ_COM1 = 4"
definition IRQ_IDE :: u32 where "IRQ_IDE = 14"
definition IRQ_SPURIOUS :: u32 where "IRQ_SPURIOUS = 31"

definition SETGATE :: "bool \<Rightarrow> u16 \<Rightarrow> u32 \<Rightarrow> u32 \<Rightarrow> gatedesc" where
  "SETGATE istrap sel off d = \<lparr>gd_off = off, gd_cs = sel, gd_type = (if istrap then STS_TG32 else STS_IG32), gd_dpl = d, gd_p = True\<rparr>"

text \<open>The table \<open>idt\<close> after \<open>tvinit\<close>; \<open>vectors\<close> are the entry points.\<close>

definition tvinit :: "(nat \<Rightarrow> u32) \<Rightarrow> 'a mach_scheme \<Rightarrow> (nat \<Rightarrow> gatedesc) \<times> 'a mach_scheme" where
  "tvinit vectors s =
    (let sel = push_bit 3 (of_nat SEG_KCODE);
         idt = (\<lambda>i. SETGATE False sel (vectors i) 0);
         n = unat T_SYSCALL in
     (idt(n := SETGATE True sel (vectors n) DPL_USER), initlock LkTicks s))"

section \<open>System calls\<close>

definition load16 :: "mem \<Rightarrow> u32 \<Rightarrow> u16" where
  "load16 m a = ucast (m a) OR push_bit 8 (ucast (m (a + 1)))"

definition syscalls :: "u8 list \<Rightarrow> nat \<Rightarrow> ('a kcons_scheme \<Rightarrow> (int, 'a kcons_scheme) res) option" where
  "syscalls date n =
    (if n = 1 then Some fork
     else if n = 2 then Some (\<lambda>s. bind (exit s) (\<lambda>_ s. Ok 0 s))
     else if n = 3 then Some wait
     else if n = 4 then Some sys_pipe
     else if n = 5 then Some (sys_read devsw_table)
     else if n = 6 then Some sys_kill
     else if n = 7 then Some (sys_exec devsw_table)
     else if n = 8 then Some sys_fstat
     else if n = 9 then Some (sys_chdir devsw_table)
     else if n = 10 then Some sys_dup
     else if n = 11 then Some sys_getpid
     else if n = 12 then Some sys_sbrk
     else if n = 13 then Some sys_sleep
     else if n = 14 then Some sys_uptime
     else if n = 15 then Some (sys_open devsw_table)
     else if n = 16 then Some (sys_write devsw_table)
     else if n = 17 then Some (sys_mknod devsw_table)
     else if n = 18 then Some (sys_unlink devsw_table)
     else if n = 19 then Some (sys_link devsw_table)
     else if n = 20 then Some (sys_mkdir devsw_table)
     else if n = 21 then Some sys_close
     else if n = 22 then Some (sys_date date)
     else if n = 23 then Some sys_dup2
     else if n = 24 then Some sys_alarm
     else None)"

definition set_eax :: "nat \<Rightarrow> int \<Rightarrow> 'a kproc_scheme \<Rightarrow> 'a kproc_scheme" where
  "set_eax p v s = s\<lparr>mem := store32 (mem s) (tf (procs s p) + tf_eax) (of_int v)\<rparr>"

definition syscall :: "u8 list \<Rightarrow> 'a kcons_scheme \<Rightarrow> (unit, 'a kcons_scheme) res" where
  "syscall date s = bind (curproc s) (\<lambda>p s.
     let num = load32 (mem s) (tf (procs s p) + tf_eax) in
     case (if sint num > 0 then syscalls date (unat num) else None) of
       Some f \<Rightarrow> bind (f s) (\<lambda>r s. Ok () (set_eax p r s))
     | None \<Rightarrow> bind (cprintf (''%d %s: unknown sys call %d'' @ [CHR 0x0A])
           [VInt (pid (procs s p)), VStr (Some (pname (procs s p))), VInt num] s) (\<lambda>_ s.
         Ok () (set_eax p (-1) s)))"

section \<open>Traps\<close>

text \<open>\<open>myproc() && P\<close>, for a test \<open>P\<close> of the process.\<close>

definition when_proc :: "(proc \<Rightarrow> bool) \<Rightarrow> 'a kproc_scheme \<Rightarrow> (bool, 'a kproc_scheme) res" where
  "when_proc P s = bind (myproc s) (\<lambda>p s. Ok (case p of None \<Rightarrow> False | Some p \<Rightarrow> P (procs s p)) s)"

text \<open>The alarm of a process interrupted in user mode.\<close>

definition alarm_tick :: "u32 \<Rightarrow> nat \<Rightarrow> 'a kproc_scheme \<Rightarrow> (unit, 'a kproc_scheme) res" where
  "alarm_tick f p s =
    (let s = upd_proc p (\<lambda>x. x\<lparr>curalarmticks := curalarmticks x + 1\<rparr>) s in
     if alarmticks (procs s p) = curalarmticks (procs s p) then
       let s = upd_proc p (\<lambda>x. x\<lparr>curalarmticks := 0\<rparr>) s;
           s = s\<lparr>mem := store32 (mem s) (f + tf_esp) (load32 (mem s) (f + tf_esp) - 4)\<rparr> in
       bind (vstores (bytes32 (load32 (mem s) (f + tf_eip))) (load32 (mem s) (f + tf_esp)) s) (\<lambda>_ s.
       Ok () (s\<lparr>mem := store32 (mem s) (f + tf_eip) (alarmhandler (procs s p))\<rparr>))
     else Ok () s)"

definition timer_intr :: "u32 \<Rightarrow> 'a kproc_scheme \<Rightarrow> (unit, 'a kproc_scheme) res" where
  "timer_intr f s = bind (cpuid s) (\<lambda>c s.
     bind (if c = 0 then
             bind (acquire LkTicks s) (\<lambda>_ s.
             bind (wakeup ChTicks (s\<lparr>ticks := ticks s + 1\<rparr>)) (\<lambda>_ s. release LkTicks s))
           else Ok () s) (\<lambda>_ s.
     bind (myproc s) (\<lambda>p s. case p of None \<Rightarrow> Ok () s
     | Some p \<Rightarrow> if load16 (mem s) (f + tf_cs) AND 3 = 3 then alarm_tick f p s else Ok () s)))"

text \<open>The \<open>default\<close> case: a trap nobody expects.\<close>

definition bad_trap :: "u32 \<Rightarrow> u32 \<Rightarrow> 'a kcons_scheme \<Rightarrow> (unit, 'a kcons_scheme) res" where
  "bad_trap f cr2 s = bind (myproc s) (\<lambda>p s. bind (cpuid s) (\<lambda>c s.
     case (if load16 (mem s) (f + tf_cs) AND 3 = 0 then None else p) of
       None \<Rightarrow> Panic ''trap''
     | Some p \<Rightarrow>
         bind (cprintf (''pid %d %s: trap %d err %d on cpu %d eip 0x%x addr 0x%x--kill proc'' @ [CHR 0x0A])
           [VInt (pid (procs s p)), VStr (Some (pname (procs s p))), VInt (load32 (mem s) (f + tf_trapno)),
            VInt (load32 (mem s) (f + tf_trapno + 4)), VInt (of_nat c), VInt (load32 (mem s) (f + tf_eip)), VInt cr2] s) (\<lambda>_ s.
         Ok () (upd_proc p (\<lambda>x. x\<lparr>killed := True\<rparr>) s))))"

text \<open>The \<open>switch\<close> of \<open>trap\<close>; \<open>ds\<close> and \<open>bs\<close> are what keyboard and serial port hold.\<close>

definition trap_switch :: "u32 \<Rightarrow> u32 \<Rightarrow> u32 list \<Rightarrow> u8 list \<Rightarrow> 'a kcons_scheme \<Rightarrow> (unit, 'a kcons_scheme) res" where
  "trap_switch f cr2 ds bs s =
    (let n = load32 (mem s) (f + tf_trapno) in
     if n = T_IRQ0 + IRQ_TIMER then timer_intr f s
     else if n = T_IRQ0 + IRQ_IDE then Ok () s
     else if n = T_IRQ0 + IRQ_IDE + 1 then Ok () s
     else if n = T_IRQ0 + IRQ_KBD then kbdintr ds s
     else if n = T_IRQ0 + IRQ_COM1 then uartintr bs s
     else if n = T_IRQ0 + 7 \<or> n = T_IRQ0 + IRQ_SPURIOUS then
       bind (cpuid s) (\<lambda>c s. cprintf (''cpu%d: spurious interrupt at %x:%x'' @ [CHR 0x0A])
         [VInt (of_nat c), VInt (ucast (load16 (mem s) (f + tf_cs))), VInt (load32 (mem s) (f + tf_eip))] s)
     else if n = T_PGFLT then bind (pgflt cr2 s) (\<lambda>ok s. if ok then Ok () s else bad_trap f cr2 s)
     else bad_trap f cr2 s)"

text \<open>\<open>exit()\<close> of a killed process that was in user mode.\<close>

definition exit_if_killed :: "u32 \<Rightarrow> 'a kfile_scheme \<Rightarrow> (unit, 'a kfile_scheme) res" where
  "exit_if_killed f s = bind (when_proc killed s) (\<lambda>k s.
     if k \<and> ucast (load16 (mem s) (f + tf_cs) AND 3) = DPL_USER then exit s else Ok () s)"

definition trap :: "u32 \<Rightarrow> u32 \<Rightarrow> u8 list \<Rightarrow> u32 list \<Rightarrow> u8 list \<Rightarrow> 'a kcons_scheme \<Rightarrow> (unit, 'a kcons_scheme) res" where
  "trap f cr2 date ds bs s =
    (if load32 (mem s) (f + tf_trapno) = T_SYSCALL then
       bind (curproc s) (\<lambda>p s. bind (if killed (procs s p) then exit s else Ok () s) (\<lambda>_ s.
       bind (curproc s) (\<lambda>p s. bind (syscall date (upd_proc p (\<lambda>x. x\<lparr>tf := f\<rparr>) s)) (\<lambda>_ s.
       bind (curproc s) (\<lambda>p s. if killed (procs s p) then exit s else Ok () s)))))
     else
       bind (trap_switch f cr2 ds bs s) (\<lambda>_ s.
       bind (exit_if_killed f s) (\<lambda>_ s.
       bind (when_proc (\<lambda>p. state p = RUNNING) s) (\<lambda>r s.
       bind (if r \<and> load32 (mem s) (f + tf_trapno) = T_IRQ0 + IRQ_TIMER then yield s else Ok () s) (\<lambda>_ s.
       exit_if_killed f s)))))"

text \<open>\<open>trap\<close> after the \<open>yield\<close>, when the process runs again.\<close>

definition trap_resume :: "bool \<Rightarrow> u32 \<Rightarrow> 'a kfile_scheme \<Rightarrow> (unit, 'a kfile_scheme) res" where
  "trap_resume ie f s = bind (yield_resume ie s) (\<lambda>_ s. exit_if_killed f s)"

end
