(* ===== verification/JPmap.thy ===== *)
theory JPmap
  imports Mmu
begin

text \<open>
  Physical pages and page tables of JOS: \<open>src/lab/kern/pmap.c\<close> and \<open>pmap.h\<close>, with the layout
  constants of \<open>inc/memlayout.h\<close> and the records of \<open>inc/env.h\<close>, \<open>inc/trap.h\<close> and \<open>kern/cpu.h\<close> that
  the kernel state is made of. Physical memory is an array of pages of 1024 words. All of it is
  mapped at \<open>KERNBASE\<close>, so that a kernel pointer to the start of a physical page is the number of
  the page, a pointer into a page table is a page and an index, and a \<open>struct PageInfo *\<close> is the
  index in \<open>pages\<close>, which is the number of its page. The macros on linear addresses that \<open>inc/mmu.h\<close>
  has in common with the one of xv6 are those of Mmu.
\<close>

section \<open>Layout\<close>

definition PTSIZE :: u32 where "PTSIZE = PGSIZE * of_nat NPTENTRIES"
definition J_KERNBASE :: u32 where "J_KERNBASE = 0xF0000000"
definition IOPHYSMEM :: u32 where "IOPHYSMEM = 0x0A0000"
definition EXTPHYSMEM :: u32 where "EXTPHYSMEM = 0x100000"
definition KSTACKTOP :: u32 where "KSTACKTOP = J_KERNBASE"
definition KSTKSIZE :: u32 where "KSTKSIZE = 8 * PGSIZE"
definition KSTKGAP :: u32 where "KSTKGAP = 8 * PGSIZE"
definition MMIOLIM :: u32 where "MMIOLIM = KSTACKTOP - PTSIZE"
definition MMIOBASE :: u32 where "MMIOBASE = MMIOLIM - PTSIZE"
definition ULIM :: u32 where "ULIM = MMIOBASE"
definition UVPT :: u32 where "UVPT = ULIM - PTSIZE"
definition UPAGES :: u32 where "UPAGES = UVPT - PTSIZE"
definition UENVS :: u32 where "UENVS = UPAGES - PTSIZE"
definition UTOP :: u32 where "UTOP = UENVS"
definition UXSTACKTOP :: u32 where "UXSTACKTOP = UTOP"
definition USTACKTOP :: u32 where "USTACKTOP = UTOP - 2 * PGSIZE"
definition MPENTRY_PADDR :: u32 where "MPENTRY_PADDR = 0x7000"
definition PTE_PWT :: u32 where "PTE_PWT = 0x008"
definition PTE_PCD :: u32 where "PTE_PCD = 0x010"
definition PTE_AVAIL :: u32 where "PTE_AVAIL = 0xE00"
definition PTE_SYSCALL :: u32 where "PTE_SYSCALL = PTE_AVAIL OR PTE_P OR PTE_W OR PTE_U"
definition PGNUM :: "u32 \<Rightarrow> u32" where "PGNUM la = drop_bit PTXSHIFT la"
definition PGOFF :: "u32 \<Rightarrow> u32" where "PGOFF la = la AND 0xFFF"
definition ROUNDDOWN :: "u32 \<Rightarrow> u32 \<Rightarrow> u32" where "ROUNDDOWN a n = a - a mod n"
definition ROUNDUP :: "u32 \<Rightarrow> u32 \<Rightarrow> u32" where "ROUNDUP a n = ROUNDDOWN (a + n - 1) n"
definition NCPU :: nat where "NCPU = 8"
definition E_BAD_ENV :: int where "E_BAD_ENV = 2"
definition E_NO_MEM :: int where "E_NO_MEM = 4"
definition E_NO_FREE_ENV :: int where "E_NO_FREE_ENV = 5"
definition E_FAULT :: int where "E_FAULT = 6"
definition ALLOC_ZERO :: u32 where "ALLOC_ZERO = 1"

lemmas jos_layout = PTSIZE_def J_KERNBASE_def KSTACKTOP_def MMIOLIM_def MMIOBASE_def ULIM_def
  UVPT_def UPAGES_def UENVS_def UTOP_def UXSTACKTOP_def USTACKTOP_def PGSIZE_def NPTENTRIES_def

section \<open>State\<close>

record PageInfo =
  pp_link :: "nat option"
  pp_ref :: u16

record PushRegs =
  reg_edi :: u32
  reg_esi :: u32
  reg_ebp :: u32
  reg_oesp :: u32
  reg_ebx :: u32
  reg_edx :: u32
  reg_ecx :: u32
  reg_eax :: u32

record Trapframe =
  tf_regs :: PushRegs
  tf_es :: u16
  tf_ds :: u16
  tf_trapno :: u32
  tf_err :: u32
  tf_eip :: u32
  tf_cs :: u16
  tf_eflags :: u32
  tf_esp :: u32
  tf_ss :: u16

datatype envstatus = ENV_FREE | ENV_DYING | ENV_RUNNABLE | ENV_RUNNING | ENV_NOT_RUNNABLE

text \<open>\<open>struct Env\<close>; the fields of the IPC calls that are not implemented are never used.\<close>

record Env =
  env_tf :: Trapframe
  env_link :: "nat option"
  env_id :: u32
  env_parent_id :: u32
  env_type :: nat
  env_status :: envstatus
  env_runs :: u32
  env_cpunum :: nat
  env_pgdir :: "nat option"
  env_pgfault_upcall :: u32
  env_ipc_recving :: bool

datatype cpustatus = CPU_UNUSED | CPU_STARTED | CPU_HALTED

record CpuInfo =
  cpu_status :: cpustatus
  cpu_env :: "nat option"
  ts_esp0 :: u32

text \<open>
  The kernel: the variables of \<open>pmap.c\<close> and \<open>env.c\<close>, the CPU table with the number of the executing
  CPU, the holder of the big kernel lock, the console output, and of the executing CPU the page
  directory in \<open>cr3\<close>, the fault address \<open>cr2\<close> and the page numbers its TLB has cached entries for.
  \<open>kend\<close> is the linker symbol \<open>end\<close>.
\<close>

record jos =
  kend :: u32
  nextfree :: u32
  npages :: nat
  npages_basemem :: nat
  pages :: "nat \<Rightarrow> PageInfo"
  page_free_list :: "nat option"
  kern_pgdir :: nat
  frames :: "nat \<Rightarrow> nat \<Rightarrow> u32"
  mmio_base :: u32
  user_mem_check_addr :: u32
  envs :: "nat \<Rightarrow> Env"
  env_free_list :: "nat option"
  jcpus :: "nat \<Rightarrow> CpuInfo"
  cpunum :: nat
  kernel_lock :: "nat option"
  cr3 :: nat
  cr2 :: u32
  tlb :: "u32 set"
  cons_out :: "u8 list"

definition curenv :: "'a jos_scheme \<Rightarrow> nat option" where
  "curenv s = cpu_env (jcpus s (cpunum s))"

definition upd_page :: "nat \<Rightarrow> (PageInfo \<Rightarrow> PageInfo) \<Rightarrow> 'a jos_scheme \<Rightarrow> 'a jos_scheme" where
  "upd_page p f s = s\<lparr>pages := (pages s)(p := f (pages s p))\<rparr>"

definition rd_ent :: "nat \<times> nat \<Rightarrow> 'a jos_scheme \<Rightarrow> u32" where
  "rd_ent e s = frames s (fst e) (snd e)"

definition wr_ent :: "nat \<times> nat \<Rightarrow> u32 \<Rightarrow> 'a jos_scheme \<Rightarrow> 'a jos_scheme" where
  "wr_ent e v s = s\<lparr>frames := (frames s)(fst e := (frames s (fst e))(snd e := v))\<rparr>"

definition page2pa :: "nat \<Rightarrow> u32" where
  "page2pa pp = push_bit 12 (of_nat pp)"

definition pa2page :: "u32 \<Rightarrow> 'a jos_scheme \<Rightarrow> (nat, 'a jos_scheme) res" where
  "pa2page pa s = (if unat (PGNUM pa) \<ge> npages s then Panic ''pa2page called with invalid pa''
     else Ok (unat (PGNUM pa)) s)"

definition KADDR :: "u32 \<Rightarrow> 'a jos_scheme \<Rightarrow> (nat, 'a jos_scheme) res" where
  "KADDR pa s = (if unat (PGNUM pa) \<ge> npages s then Panic ''KADDR called with invalid pa''
     else Ok (unat (PGNUM pa)) s)"

definition page2kva :: "nat \<Rightarrow> 'a jos_scheme \<Rightarrow> (nat, 'a jos_scheme) res" where
  "page2kva pp s = KADDR (page2pa pp) s"

definition PADDR :: "u32 \<Rightarrow> 'a jos_scheme \<Rightarrow> (u32, 'a jos_scheme) res" where
  "PADDR kva s = (if kva < J_KERNBASE then Panic ''PADDR called with invalid kva'' else Ok (kva - J_KERNBASE) s)"

section \<open>Physical memory\<close>

text \<open>\<open>mc146818_read\<close> reads a register of the clock chip: the argument \<open>nvram\<close>.\<close>

definition nvram_read :: "(nat \<Rightarrow> u8) \<Rightarrow> nat \<Rightarrow> u32" where
  "nvram_read nvram r = ucast (nvram r) OR push_bit 8 (ucast (nvram (r + 1)))"

definition NVRAM_BASELO :: nat where "NVRAM_BASELO = 0x15"
definition NVRAM_EXTLO :: nat where "NVRAM_EXTLO = 0x17"
definition NVRAM_EXT16LO :: nat where "NVRAM_EXT16LO = 0x34"

definition i386_detect_memory :: "(nat \<Rightarrow> u8) \<Rightarrow> 'a jos_scheme \<Rightarrow> 'a jos_scheme" where
  "i386_detect_memory nvram s =
    (let basemem = nvram_read nvram NVRAM_BASELO;
         extmem = nvram_read nvram NVRAM_EXTLO;
         ext16mem = nvram_read nvram NVRAM_EXT16LO * 64;
         totalmem = (if ext16mem \<noteq> 0 then 16 * 1024 + ext16mem
           else if extmem \<noteq> 0 then 1 * 1024 + extmem else basemem) in
     s\<lparr>npages := unat (totalmem div (PGSIZE div 1024)), npages_basemem := unat (basemem div (PGSIZE div 1024))\<rparr>)"

definition boot_alloc :: "u32 \<Rightarrow> 'a jos_scheme \<Rightarrow> (u32, 'a jos_scheme) res" where
  "boot_alloc n s =
    (let s = (if nextfree s = 0 then s\<lparr>nextfree := ROUNDUP (kend s) PGSIZE\<rparr> else s);
         result = nextfree s;
         s = s\<lparr>nextfree := ROUNDUP (nextfree s + n) PGSIZE\<rparr> in
     if nextfree s - J_KERNBASE > of_nat (npages s) * PGSIZE then Panic ''Out of memory!''
     else Ok result s)"

text \<open>The body of the loop of \<open>page_init\<close> for page \<open>i\<close>; \<open>lim\<close> is the first page after the kernel's.\<close>

definition page_init_one :: "nat \<Rightarrow> nat \<Rightarrow> 'a jos_scheme \<Rightarrow> 'a jos_scheme" where
  "page_init_one lim i s =
    (if i = 0 then upd_page i (\<lambda>p. p\<lparr>pp_link := None, pp_ref := 1\<rparr>) s
     else if i = unat (MPENTRY_PADDR div PGSIZE) then s
     else if npages_basemem s \<le> i \<and> i < lim then upd_page i (\<lambda>p. p\<lparr>pp_link := None, pp_ref := 1\<rparr>) s
     else (upd_page i (\<lambda>p. p\<lparr>pp_link := page_free_list s, pp_ref := 0\<rparr>) s)\<lparr>page_free_list := Some i\<rparr>)"

definition page_init :: "'a jos_scheme \<Rightarrow> (unit, 'a jos_scheme) res" where
  "page_init s = bind (boot_alloc 0 (s\<lparr>page_free_list := None\<rparr>)) (\<lambda>b s.
     let num_extmem_alloc = unat ((b - J_KERNBASE) div PGSIZE);
         num_iohole = unat ((EXTPHYSMEM - IOPHYSMEM) div PGSIZE) in
     Ok () (fold (page_init_one (npages_basemem s + num_iohole + num_extmem_alloc)) [0..<npages s] s))"

definition page_alloc :: "u32 \<Rightarrow> 'a jos_scheme \<Rightarrow> (nat option, 'a jos_scheme) res" where
  "page_alloc alloc_flags s =
    (case page_free_list s of None \<Rightarrow> Ok None s
     | Some result \<Rightarrow>
         let s = s\<lparr>page_free_list := pp_link (pages s result)\<rparr>;
             s = upd_page result (\<lambda>p. p\<lparr>pp_link := None\<rparr>) s in
         if alloc_flags AND ALLOC_ZERO \<noteq> 0
         then bind (page2kva result s) (\<lambda>kva s. Ok (Some result) (s\<lparr>frames := (frames s)(kva := (\<lambda>_. 0))\<rparr>))
         else Ok (Some result) s)"

definition page_free :: "nat \<Rightarrow> 'a jos_scheme \<Rightarrow> (unit, 'a jos_scheme) res" where
  "page_free pp s =
    (if pp_ref (pages s pp) \<noteq> 0 then Panic ''assertion failed: pp->pp_ref == 0''
     else if pp_link (pages s pp) \<noteq> None then Panic ''assertion failed: pp->pp_link == NULL''
     else Ok () ((upd_page pp (\<lambda>p. p\<lparr>pp_link := page_free_list s\<rparr>) s)\<lparr>page_free_list := Some pp\<rparr>))"

definition incref :: "nat \<Rightarrow> 'a jos_scheme \<Rightarrow> 'a jos_scheme" where
  "incref pp = upd_page pp (\<lambda>p. p\<lparr>pp_ref := pp_ref p + 1\<rparr>)"

definition page_decref :: "nat \<Rightarrow> 'a jos_scheme \<Rightarrow> (unit, 'a jos_scheme) res" where
  "page_decref pp s =
    (let s = upd_page pp (\<lambda>p. p\<lparr>pp_ref := pp_ref p - 1\<rparr>) s in
     if pp_ref (pages s pp) = 0 then page_free pp s else Ok () s)"

section \<open>Page tables\<close>

definition pgdir_walk :: "nat option \<Rightarrow> u32 \<Rightarrow> bool \<Rightarrow> 'a jos_scheme \<Rightarrow> ((nat \<times> nat) option, 'a jos_scheme) res" where
  "pgdir_walk pgdir va create s =
    (case pgdir of None \<Rightarrow> Panic ''assertion failed: pgdir!=NULL''
     | Some pd \<Rightarrow>
         let pde = (pd, unat (PDX va));
             entry = (\<lambda>s. bind (KADDR (PTE_ADDR (rd_ent pde s)) s) (\<lambda>page_table s.
               Ok (Some (page_table, unat (PTX va))) s)) in
         if rd_ent pde s AND PTE_P = 0 then
           if create then bind (page_alloc ALLOC_ZERO s) (\<lambda>new_page s. case new_page of None \<Rightarrow> Ok None s
             | Some p \<Rightarrow> entry (wr_ent pde (page2pa p OR PTE_P OR PTE_W OR PTE_U) (incref p s)))
           else Ok None s
         else entry s)"

primrec boot_map_loop :: "nat option \<Rightarrow> u32 \<Rightarrow> nat \<Rightarrow> u32 \<Rightarrow> u32 \<Rightarrow> 'a jos_scheme \<Rightarrow> (unit, 'a jos_scheme) res" where
  "boot_map_loop pgdir va 0 pa perm s = Ok () s"
| "boot_map_loop pgdir va (Suc n) pa perm s = bind (pgdir_walk pgdir va True s) (\<lambda>pte s. case pte of
     None \<Rightarrow> Panic ''assertion failed: pg_table_entry!=NULL''
   | Some e \<Rightarrow> boot_map_loop pgdir (va + PGSIZE) n (pa + PGSIZE) perm (wr_ent e (pa OR perm OR PTE_P) s))"

definition boot_map_region :: "nat option \<Rightarrow> u32 \<Rightarrow> u32 \<Rightarrow> u32 \<Rightarrow> u32 \<Rightarrow> 'a jos_scheme \<Rightarrow> (unit, 'a jos_scheme) res" where
  "boot_map_region pgdir va sz pa perm s = boot_map_loop pgdir va (unat (sz div PGSIZE)) pa perm s"

text \<open>\<open>stacks i\<close> is the address of \<open>percpu_kstacks[i]\<close>.\<close>

primrec mem_init_mp_loop :: "(nat \<Rightarrow> u32) \<Rightarrow> nat \<Rightarrow> nat \<Rightarrow> 'a jos_scheme \<Rightarrow> (unit, 'a jos_scheme) res" where
  "mem_init_mp_loop stacks i 0 s = Ok () s"
| "mem_init_mp_loop stacks i (Suc k) s =
    (let kstacktop_i = KSTACKTOP - of_nat i * (KSTKGAP + KSTKSIZE) in
     bind (PADDR (stacks i) s) (\<lambda>pa s.
     bind (boot_map_region (Some (kern_pgdir s)) (kstacktop_i - KSTKSIZE) KSTKSIZE pa (PTE_W OR PTE_P) s) (\<lambda>_ s.
     mem_init_mp_loop stacks (Suc i) k s)))"

definition mem_init_mp :: "(nat \<Rightarrow> u32) \<Rightarrow> 'a jos_scheme \<Rightarrow> (unit, 'a jos_scheme) res" where
  "mem_init_mp stacks s = mem_init_mp_loop stacks 0 NCPU s"

definition page_lookup :: "nat option \<Rightarrow> u32 \<Rightarrow> 'a jos_scheme \<Rightarrow> ((nat \<times> (nat \<times> nat)) option, 'a jos_scheme) res" where
  "page_lookup pgdir va s = bind (pgdir_walk pgdir va False s) (\<lambda>entry s. case entry of None \<Rightarrow> Ok None s
     | Some e \<Rightarrow> if rd_ent e s AND PTE_P = 0 then Ok None s
         else bind (pa2page (PTE_ADDR (rd_ent e s)) s) (\<lambda>p s. Ok (Some (p, e)) s))"

definition tlb_invalidate :: "nat option \<Rightarrow> u32 \<Rightarrow> 'a jos_scheme \<Rightarrow> 'a jos_scheme" where
  "tlb_invalidate pgdir va s =
    (if curenv s = None \<or> env_pgdir (envs s (the (curenv s))) = pgdir
     then s\<lparr>tlb := tlb s - {PGNUM va}\<rparr> else s)"

definition page_remove :: "nat option \<Rightarrow> u32 \<Rightarrow> 'a jos_scheme \<Rightarrow> (unit, 'a jos_scheme) res" where
  "page_remove pgdir va s = bind (page_lookup pgdir va s) (\<lambda>r s. case r of None \<Rightarrow> Ok () s
     | Some (page, entry) \<Rightarrow> bind (page_decref page s) (\<lambda>_ s.
         Ok () (wr_ent entry 0 (tlb_invalidate pgdir va s))))"

definition page_insert :: "nat option \<Rightarrow> nat \<Rightarrow> u32 \<Rightarrow> u32 \<Rightarrow> 'a jos_scheme \<Rightarrow> (int, 'a jos_scheme) res" where
  "page_insert pgdir pp va perm s = bind (pgdir_walk pgdir va True s) (\<lambda>pte s. case pte of
     None \<Rightarrow> Ok (- E_NO_MEM) s
   | Some e \<Rightarrow>
       let s = incref pp s in
       bind (if rd_ent e s AND PTE_P \<noteq> 0 then page_remove pgdir va (tlb_invalidate pgdir va s) else Ok () s) (\<lambda>_ s.
       let s = wr_ent e (page2pa pp OR perm OR PTE_P) s;
           pde = (the pgdir, unat (PDX va)) in
       Ok 0 (wr_ent pde (rd_ent pde s OR perm) s)))"

definition mmio_map_region :: "u32 \<Rightarrow> u32 \<Rightarrow> 'a jos_scheme \<Rightarrow> (u32, 'a jos_scheme) res" where
  "mmio_map_region pa sz s =
    (let base = mmio_base s; sz = ROUNDUP sz PGSIZE in
     if base + sz > MMIOLIM \<or> base + sz < base then Panic ''mmio_map_region reservation overflow''
     else bind (boot_map_region (Some (kern_pgdir s)) base sz pa (PTE_W OR PTE_PCD OR PTE_PWT) s) (\<lambda>_ s.
       Ok base (s\<lparr>mmio_base := base + sz\<rparr>)))"

text \<open>
  The loop of \<open>user_mem_check\<close> runs over the pages of \<open>[start, end)\<close>, both multiples of the page size;
  \<open>n\<close> is their number.
\<close>

primrec user_mem_check_loop :: "nat option \<Rightarrow> u32 \<Rightarrow> u32 \<Rightarrow> nat \<Rightarrow> u32 \<Rightarrow> 'a jos_scheme \<Rightarrow> (int, 'a jos_scheme) res" where
  "user_mem_check_loop pgdir va start 0 perm s = Ok 0 s"
| "user_mem_check_loop pgdir va start (Suc n) perm s = bind (pgdir_walk pgdir start False s) (\<lambda>cur s.
     if start > ULIM \<or> cur = None \<or> rd_ent (the cur) s AND perm \<noteq> perm
     then Ok (- E_FAULT) (s\<lparr>user_mem_check_addr := (if start = ROUNDDOWN va PGSIZE then va else start)\<rparr>)
     else user_mem_check_loop pgdir va (start + PGSIZE) n perm s)"

definition user_mem_check :: "nat \<Rightarrow> u32 \<Rightarrow> u32 \<Rightarrow> u32 \<Rightarrow> 'a jos_scheme \<Rightarrow> (int, 'a jos_scheme) res" where
  "user_mem_check env va len perm s =
    (let start = ROUNDDOWN va PGSIZE; fin = ROUNDUP (va + len) PGSIZE in
     user_mem_check_loop (env_pgdir (envs s env)) va start
       (if start < fin then unat ((fin - start) div PGSIZE) else 0) perm s)"

section \<open>Free pages\<close>

primrec page_list :: "(nat \<Rightarrow> PageInfo) \<Rightarrow> nat option \<Rightarrow> nat list \<Rightarrow> bool" where
  "page_list ps p [] \<longleftrightarrow> p = None"
| "page_list ps p (x # xs) \<longleftrightarrow> p = Some x \<and> page_list ps (pp_link (ps x)) xs"

text \<open>The free list holds the pages \<open>xs\<close>; every other page has a null link.\<close>

definition free_pages :: "nat list \<Rightarrow> 'a jos_scheme \<Rightarrow> bool" where
  "free_pages xs s \<longleftrightarrow> npages s \<le> 2 ^ 20 \<and> distinct xs \<and> page_list (pages s) (page_free_list s) xs
     \<and> (\<forall>p\<in>set xs. p < npages s \<and> pp_ref (pages s p) = 0)
     \<and> (\<forall>p<npages s. p \<notin> set xs \<longrightarrow> pp_link (pages s p) = None)"

lemma page_list_cong: "(\<And>x. x \<in> set xs \<Longrightarrow> pp_link (ps x) = pp_link (ps' x)) \<Longrightarrow> page_list ps p xs = page_list ps' p xs"
  by (induction xs arbitrary: p) auto

lemma upd_page_simps [simp]:
  "pages (upd_page p f s) = (pages s)(p := f (pages s p))"
  "page_free_list (upd_page p f s) = page_free_list s" "npages (upd_page p f s) = npages s"
  "frames (upd_page p f s) = frames s" "envs (upd_page p f s) = envs s" "jcpus (upd_page p f s) = jcpus s"
  "cpunum (upd_page p f s) = cpunum s" "tlb (upd_page p f s) = tlb s" "curenv (upd_page p f s) = curenv s"
  by (simp_all add: upd_page_def curenv_def)

lemma wr_ent_simps [simp]:
  "frames (wr_ent e v s) = (frames s)(fst e := (frames s (fst e))(snd e := v))"
  "pages (wr_ent e v s) = pages s"
  "page_free_list (wr_ent e v s) = page_free_list s" "npages (wr_ent e v s) = npages s"
  "envs (wr_ent e v s) = envs s" "jcpus (wr_ent e v s) = jcpus s"
  "cpunum (wr_ent e v s) = cpunum s" "tlb (wr_ent e v s) = tlb s" "curenv (wr_ent e v s) = curenv s"
  by (simp_all add: wr_ent_def curenv_def)

lemma tlb_invalidate_simps [simp]:
  "frames (tlb_invalidate d va s) = frames s" "pages (tlb_invalidate d va s) = pages s"
  "page_free_list (tlb_invalidate d va s) = page_free_list s" "npages (tlb_invalidate d va s) = npages s"
  "envs (tlb_invalidate d va s) = envs s" "jcpus (tlb_invalidate d va s) = jcpus s"
  "cpunum (tlb_invalidate d va s) = cpunum s" "curenv (tlb_invalidate d va s) = curenv s"
  by (simp_all add: tlb_invalidate_def curenv_def)

lemma free_pages_cong:
  "pages t = pages s \<Longrightarrow> page_free_list t = page_free_list s \<Longrightarrow> npages t = npages s
    \<Longrightarrow> free_pages xs t = free_pages xs s"
  by (simp add: free_pages_def)

lemma free_pages_wr_ent [simp]: "free_pages xs (wr_ent e v s) = free_pages xs s"
  by (rule free_pages_cong) simp_all

lemma free_pages_tlb [simp]: "free_pages xs (tlb_invalidate d va s) = free_pages xs s"
  by (rule free_pages_cong) simp_all

definition pg :: "u32 \<Rightarrow> nat" where "pg v = unat (PGNUM v)"
definition pr :: "u32 \<Rightarrow> bool" where "pr v \<longleftrightarrow> v AND PTE_P \<noteq> 0"

lemma PGNUM_PTE_ADDR [simp]: "PGNUM (PTE_ADDR v) = PGNUM v"
  by (simp add: word_unat_eq_iff PGNUM_def PTXSHIFT_def drop_bit_eq_div unat_div unat_PTE_ADDR)

lemma drop_flags: "(f::u32) < 4096 \<Longrightarrow> drop_bit 12 f = 0"
  by (simp add: word_unat_eq_iff drop_bit_eq_div unat_div word_less_nat_alt)

lemma pg_or: "f < 4096 \<Longrightarrow> pg (v OR f) = pg v"
  by (simp add: pg_def PGNUM_def PTXSHIFT_def drop_bit_or drop_flags)

lemma pg_page2pa:
  assumes "p < 2 ^ 20" shows "pg (page2pa p) = p"
proof -
  have "drop_bit 12 (push_bit 12 (of_nat p :: u32)) = of_nat p"
    using assms
    by (intro word_unat_eq_iff [THEN iffD2])
      (simp add: unat_drop_bit_eq push_bit_eq_mult unat_word_ariths unat_of_nat drop_bit_eq_div)
  then show ?thesis using assms by (simp add: pg_def PGNUM_def PTXSHIFT_def page2pa_def unat_of_nat)
qed

lemma pr_bit: "pr v \<longleftrightarrow> bit v 0"
  by (simp add: pr_def PTE_P_def and_one_eq bit_0 odd_iff_mod_2_eq_one)

lemma pr_or [simp]: "pr (v OR w) \<longleftrightarrow> pr v \<or> pr w"
  by (simp add: pr_bit bit_or_iff)

lemma pr_PTE_P [simp]: "pr PTE_P" "\<not> pr 0"
  by (simp_all add: pr_def PTE_P_def)

lemma page_alloc_none: "free_pages [] s \<Longrightarrow> page_alloc f s = Ok None s"
  by (simp add: page_alloc_def free_pages_def)

lemma page_alloc_some:
  assumes "free_pages (x # xs) s"
  shows "returns (page_alloc f s) (\<lambda>r t. r = Some x \<and> free_pages xs t
    \<and> t = s\<lparr>pages := (pages s)(x := (pages s x)\<lparr>pp_link := None\<rparr>), page_free_list := pp_link (pages s x),
        frames := (if f AND ALLOC_ZERO \<noteq> 0 then (frames s)(x := (\<lambda>_. 0)) else frames s)\<rparr>)"
proof -
  have x: "x < npages s" "npages s \<le> 1048576" and h: "page_free_list s = Some x"
    using assms by (simp_all add: free_pages_def)
  have k: "unat (PGNUM (page2pa x)) = x"
    using pg_page2pa [of x] x by (simp add: pg_def)
  have "page_list ((pages s)(x := (pages s x)\<lparr>pp_link := None\<rparr>)) (pp_link (pages s x)) xs"
    using assms by (subst page_list_cong [of _ _ "pages s"]) (auto simp: free_pages_def)
  then have "free_pages xs t" if "pages t = (pages s)(x := (pages s x)\<lparr>pp_link := None\<rparr>)"
      "page_free_list t = pp_link (pages s x)" "npages t = npages s" for t :: "'a jos_scheme"
    using assms that by (auto simp: free_pages_def)
  then show ?thesis using x h by (simp add: page_alloc_def page2kva_def KADDR_def k upd_page_def Let_def)
qed

lemma page_free_some:
  assumes "free_pages xs s" "pp < npages s" "pp \<notin> set xs" "pp_ref (pages s pp) = 0"
  shows "page_free pp s = Ok () ((upd_page pp (\<lambda>p. p\<lparr>pp_link := page_free_list s\<rparr>) s)\<lparr>page_free_list := Some pp\<rparr>)"
    and "free_pages (pp # xs) ((upd_page pp (\<lambda>p. p\<lparr>pp_link := page_free_list s\<rparr>) s)\<lparr>page_free_list := Some pp\<rparr>)"
proof -
  show "page_free pp s = Ok () ((upd_page pp (\<lambda>p. p\<lparr>pp_link := page_free_list s\<rparr>) s)\<lparr>page_free_list := Some pp\<rparr>)"
    using assms by (simp add: page_free_def free_pages_def)
  have "page_list ((pages s)(pp := (pages s pp)\<lparr>pp_link := page_free_list s\<rparr>)) (page_free_list s) xs"
    using assms by (subst page_list_cong [of _ _ "pages s"]) (auto simp: free_pages_def)
  then show "free_pages (pp # xs) ((upd_page pp (\<lambda>p. p\<lparr>pp_link := page_free_list s\<rparr>) s)\<lparr>page_free_list := Some pp\<rparr>)"
    using assms by (auto simp: free_pages_def)
qed

section \<open>Reference counts\<close>

text \<open>
  The user part of an address space: \<open>tab\<close> gives the page table a directory entry points to, \<open>ent\<close>
  the page an entry of a page table maps, by directory and indices.
\<close>

definition tab :: "'a jos_scheme \<Rightarrow> nat \<times> nat \<Rightarrow> nat option" where
  "tab s = (\<lambda>(d, i). if pr (frames s d i) then Some (pg (frames s d i)) else None)"

definition ent :: "'a jos_scheme \<Rightarrow> nat \<times> nat \<times> nat \<Rightarrow> nat option" where
  "ent s = (\<lambda>(d, i, k). case tab s (d, i) of None \<Rightarrow> None
     | Some p \<Rightarrow> if pr (frames s p k) then Some (pg (frames s p k)) else None)"

definition slot :: "nat \<Rightarrow> u32 \<Rightarrow> nat \<times> nat \<times> nat" where
  "slot d va = (d, unat (PDX va), unat (PTX va))"

definition dirs :: "nat set \<Rightarrow> (nat \<times> nat) set" where "dirs D = D \<times> {..<955}"
definition slots :: "nat set \<Rightarrow> (nat \<times> nat \<times> nat) set" where "slots D = D \<times> {..<955} \<times> {..<1024}"

definition holders :: "'b set \<Rightarrow> ('b \<Rightarrow> nat option) \<Rightarrow> nat \<Rightarrow> nat" where
  "holders S f p = card {x\<in>S. f x = Some p}"

text \<open>
  The page directories \<open>D\<close> share no page table, tables and directories are not mapped for users, and
  the reference count of a page is the number of entries that map it, of directory entries that
  point to it, and of the references \<open>ext\<close> from outside (a directory has one from its environment).
\<close>

definition vm_inv :: "nat set \<Rightarrow> (nat \<Rightarrow> nat) \<Rightarrow> nat list \<Rightarrow> 'a jos_scheme \<Rightarrow> bool" where
  "vm_inv D ext xs s \<longleftrightarrow> free_pages xs s \<and> finite D \<and> (\<forall>d\<in>D. d < npages s \<and> 0 < ext d)
     \<and> (\<forall>x\<in>dirs D. \<forall>p. tab s x = Some p \<longrightarrow> p < npages s \<and> p \<notin> D)
     \<and> inj_on (tab s) {x\<in>dirs D. tab s x \<noteq> None}
     \<and> (\<forall>x\<in>slots D. \<forall>p. ent s x = Some p \<longrightarrow> p < npages s \<and> p \<notin> D \<and> holders (dirs D) (tab s) p = 0)
     \<and> (\<forall>p<npages s. unat (pp_ref (pages s p))
          = holders (slots D) (ent s) p + holders (dirs D) (tab s) p + ext p)"

lemma holders_cong: "(\<And>x. x \<in> S \<Longrightarrow> f x = g x) \<Longrightarrow> holders S f p = holders S g p"
  unfolding holders_def by (rule arg_cong [of _ _ card]) auto

lemma holders_0: "finite S \<Longrightarrow> holders S f p = 0 \<longleftrightarrow> (\<forall>x\<in>S. f x \<noteq> Some p)"
  by (auto simp: holders_def)

lemma holders_upd:
  assumes "finite S" "x \<in> S"
  shows "holders S (f(x := v)) p + (if f x = Some p then 1 else 0) = holders S f p + (if v = Some p then 1 else 0)"
proof -
  let ?R = "{y \<in> S - {x}. f y = Some p}"
  have "{y \<in> S. f y = Some p} = (if f x = Some p then insert x ?R else ?R)"
    "{y \<in> S. (f(x := v)) y = Some p} = (if v = Some p then insert x ?R else ?R)"
    using assms(2) by auto
  moreover have "finite ?R" "x \<notin> ?R" using assms by auto
  ultimately show ?thesis by (simp add: holders_def)
qed

lemma finite_dirs [simp]: "finite D \<Longrightarrow> finite (dirs D)" "finite D \<Longrightarrow> finite (slots D)"
  by (simp_all add: dirs_def slots_def)

lemma PDX_user: "va < UTOP \<Longrightarrow> unat (PDX va) < 955"
  unfolding unat_PDX by (rule less_mult_imp_div_less) (simp add: jos_layout word_less_nat_alt)

lemma slot_in [intro]: "d \<in> D \<Longrightarrow> va < UTOP \<Longrightarrow> slot d va \<in> slots D"
  using PDX_user PTX_less by (auto simp: slot_def slots_def)

lemma dir_in: "d \<in> D \<Longrightarrow> va < UTOP \<Longrightarrow> (d, unat (PDX va)) \<in> dirs D"
  using PDX_user by (auto simp: dirs_def)

lemma vm_invD:
  assumes "vm_inv D ext xs s"
  shows "free_pages xs s" "finite D" "d \<in> D \<Longrightarrow> d < npages s" "d \<in> D \<Longrightarrow> 0 < ext d"
    "x \<in> dirs D \<Longrightarrow> tab s x = Some p \<Longrightarrow> p < npages s"
    "x \<in> dirs D \<Longrightarrow> tab s x = Some p \<Longrightarrow> p \<notin> D"
    "x \<in> dirs D \<Longrightarrow> y \<in> dirs D \<Longrightarrow> tab s x = Some p \<Longrightarrow> tab s y = Some p \<Longrightarrow> x = y"
    "z \<in> slots D \<Longrightarrow> ent s z = Some p \<Longrightarrow> p < npages s"
    "z \<in> slots D \<Longrightarrow> ent s z = Some p \<Longrightarrow> p \<notin> D"
    "z \<in> slots D \<Longrightarrow> ent s z = Some p \<Longrightarrow> holders (dirs D) (tab s) p = 0"
    "p < npages s \<Longrightarrow> unat (pp_ref (pages s p)) = holders (slots D) (ent s) p + holders (dirs D) (tab s) p + ext p"
  using assms by (simp_all add: vm_inv_def) (metis (mono_tags, lifting) inj_onD mem_Collect_eq option.distinct(1))

text \<open>A free page is no directory, no page table, and mapped nowhere.\<close>

lemma vm_inv_free:
  assumes "vm_inv D ext xs s" "p \<in> set xs"
  shows "p < npages s" "p \<notin> D" "x \<in> dirs D \<Longrightarrow> tab s x \<noteq> Some p" "z \<in> slots D \<Longrightarrow> ent s z \<noteq> Some p"
    "holders (slots D) (ent s) p = 0" "holders (dirs D) (tab s) p = 0" "ext p = 0"
proof -
  note i = vm_invD [OF assms(1)]
  show n: "p < npages s" using i(1) assms(2) by (auto simp: free_pages_def)
  have "pp_ref (pages s p) = 0" using i(1) assms(2) by (auto simp: free_pages_def)
  then have z: "holders (slots D) (ent s) p = 0" "holders (dirs D) (tab s) p = 0" "ext p = 0"
    using i(11) [OF n] by simp_all
  then show "holders (slots D) (ent s) p = 0" "holders (dirs D) (tab s) p = 0" "ext p = 0" by auto
  show "p \<notin> D" using i(4) [of p] z(3) by auto
  show "x \<in> dirs D \<Longrightarrow> tab s x \<noteq> Some p" "z \<in> slots D \<Longrightarrow> ent s z \<noteq> Some p" for x
    using z i(2) by (auto simp: holders_0)
qed

text \<open>What the operations on page tables leave alone.\<close>

definition pm_frame :: "'a jos_scheme \<Rightarrow> 'a jos_scheme \<Rightarrow> bool" where
  "pm_frame s t \<longleftrightarrow> npages t = npages s \<and> envs t = envs s \<and> jcpus t = jcpus s \<and> cpunum t = cpunum s
     \<and> env_free_list t = env_free_list s \<and> kern_pgdir t = kern_pgdir s \<and> kernel_lock t = kernel_lock s
     \<and> cons_out t = cons_out s"

interpretation pm: state_frame pm_frame
  by unfold_locales (auto simp: pm_frame_def)

lemma incref_simps [simp]:
  "pages (incref p s) = (pages s)(p := (pages s p)\<lparr>pp_ref := pp_ref (pages s p) + 1\<rparr>)"
  "page_free_list (incref p s) = page_free_list s" "npages (incref p s) = npages s"
  "frames (incref p s) = frames s" "envs (incref p s) = envs s" "jcpus (incref p s) = jcpus s"
  "cpunum (incref p s) = cpunum s" "tlb (incref p s) = tlb s" "curenv (incref p s) = curenv s"
  by (simp_all add: incref_def)

lemma tab_frames: "frames t d = frames s d \<Longrightarrow> tab t (d, i) = tab s (d, i)"
  by (simp add: tab_def)

lemma free_pages_incref: "p \<notin> set xs \<Longrightarrow> free_pages xs (incref p s) = free_pages xs s"
  using page_list_cong [of xs "(pages s)(p := (pages s p)\<lparr>pp_ref := pp_ref (pages s p) + 1\<rparr>)" "pages s" "page_free_list s"]
  by (auto simp: free_pages_def)

lemma pde_absent: "rd_ent (d, i) s AND PTE_P = 0 \<longleftrightarrow> tab s (d, i) = None"
  by (simp add: tab_def rd_ent_def pr_def)

lemma pgdir_walk_absent:
  "tab s (d, unat (PDX va)) = None \<Longrightarrow> pgdir_walk (Some d) va False s = Ok None s"
  by (simp add: pgdir_walk_def pde_absent)

lemma pgdir_walk_full:
  "tab s (d, unat (PDX va)) = None \<Longrightarrow> free_pages [] s \<Longrightarrow> pgdir_walk (Some d) va True s = Ok None s"
  by (simp add: pgdir_walk_def pde_absent page_alloc_none)

lemma pgdir_walk_present:
  assumes "tab s (d, unat (PDX va)) = Some p" "p < npages s"
  shows "pgdir_walk (Some d) va c s = Ok (Some (p, unat (PTX va))) s"
proof -
  have "unat (PGNUM (rd_ent (d, unat (PDX va)) s)) = p"
    using assms(1) by (auto simp: tab_def pg_def rd_ent_def split: if_splits)
  then show ?thesis using assms by (simp add: pgdir_walk_def pde_absent KADDR_def)
qed

text \<open>A change of one entry of a page table, seen through \<open>ent\<close> and \<open>tab\<close>.\<close>

lemma ent_wr:
  assumes "vm_inv D ext xs s" "(d, i) \<in> dirs D" "tab s (d, i) = Some p"
  shows "x \<in> dirs D \<Longrightarrow> tab (wr_ent (p, k) v s) x = tab s x"
    and "y \<in> slots D \<Longrightarrow> ent (wr_ent (p, k) v s) y = ((ent s)((d, i, k) := if pr v then Some (pg v) else None)) y"
proof -
  have tb: "tab (wr_ent (p, k) v s) x = tab s x" if "x \<in> dirs D" for x
  proof -
    obtain e j where x: "x = (e, j)" by (cases x)
    then have "e \<noteq> p" using that vm_invD(6) [OF assms] by (auto simp: dirs_def)
    then show ?thesis unfolding x by (intro tab_frames) simp
  qed
  then show "x \<in> dirs D \<Longrightarrow> tab (wr_ent (p, k) v s) x = tab s x" .
  assume y: "y \<in> slots D"
  obtain e j l where ye: "y = (e, j, l)" by (cases y)
  have ej: "(e, j) \<in> dirs D" using y ye by (auto simp: slots_def dirs_def)
  show "ent (wr_ent (p, k) v s) y = ((ent s)((d, i, k) := if pr v then Some (pg v) else None)) y"
  proof (cases "tab s (e, j) = Some p")
    case True
    then have "e = d \<and> j = i" using vm_invD(7) [OF assms(1) ej assms(2) True assms(3)] by simp
    then show ?thesis using True ye assms(3) tb [OF assms(2)] by (auto simp: ent_def)
  next
    case False
    then have "(e, j) \<noteq> (d, i)" using assms(3) by auto
    then show ?thesis using False ye tb [OF ej] by (auto simp: ent_def split: option.split)
  qed
qed

text \<open>The invariant after one entry changed, and with it the counts.\<close>

lemma vm_inv_upd:
  assumes inv: "vm_inv D ext xs s" and z: "z \<in> slots D"
    and e: "\<And>y. y \<in> slots D \<Longrightarrow> ent t y = ((ent s)(z := v)) y"
    and tb: "\<And>x. x \<in> dirs D \<Longrightarrow> tab t x = tab s x"
    and np: "npages t = npages s" and fp: "free_pages ys t"
    and v: "\<And>p. v = Some p \<Longrightarrow> p < npages s \<and> p \<notin> D \<and> holders (dirs D) (tab s) p = 0"
    and c: "\<And>p. p < npages s \<Longrightarrow> unat (pp_ref (pages t p)) + (if ent s z = Some p then 1 else 0) + ext p
      = unat (pp_ref (pages s p)) + (if v = Some p then 1 else 0) + ext' p"
    and x: "\<And>d. d \<in> D \<Longrightarrow> 0 < ext' d"
  shows "vm_inv D ext' ys t"
proof -
  note i = vm_invD [OF inv]
  have ht: "holders (dirs D) (tab t) p = holders (dirs D) (tab s) p" for p
    by (rule holders_cong) (rule tb)
  have he: "holders (slots D) (ent t) p + (if ent s z = Some p then 1 else 0)
      = holders (slots D) (ent s) p + (if v = Some p then 1 else 0)" for p
  proof -
    have "holders (slots D) (ent t) p = holders (slots D) ((ent s)(z := v)) p" by (rule holders_cong) (rule e)
    then show ?thesis using holders_upd [OF finite_dirs(2) [OF i(2)] z, of "ent s" v p] by simp
  qed
  have "inj_on (tab t) {x \<in> dirs D. tab t x \<noteq> None}"
    using i(7) tb by (auto simp: inj_on_def)
  moreover have "p < npages s \<and> p \<notin> D \<and> holders (dirs D) (tab s) p = 0" if "y \<in> slots D" "ent t y = Some p" for y p
    using that e [OF that(1)] v [of p] i(8,9,10) [of y p] by (auto split: if_splits)
  moreover have "unat (pp_ref (pages t p)) = holders (slots D) (ent t) p + holders (dirs D) (tab s) p + ext' p"
    if "p < npages s" for p
    using c [OF that] he [of p] i(11) [OF that] by linarith
  ultimately show ?thesis using i(2,3,5,6) tb fp x np by (auto simp: vm_inv_def ht)
qed

lemma unat_incr16: "unat (r :: u16) < 65535 \<Longrightarrow> unat (r + 1) = unat r + 1"
  by (simp add: unat_word_ariths)

lemma vm_inv_incref:
  assumes "vm_inv D ext xs s" "p \<notin> set xs" "unat (pp_ref (pages s p)) < 65535"
  shows "vm_inv D (ext(p := Suc (ext p))) xs (incref p s)"
proof -
  have "tab (incref p s) = tab s" by (simp add: tab_def fun_eq_iff)
  moreover have "ent (incref p s) = ent s" using calculation by (auto simp: ent_def fun_eq_iff split: option.split)
  ultimately show ?thesis
    using assms unat_incr16 [OF assms(3)] free_pages_incref [OF assms(2)] by (auto simp: vm_inv_def)
qed

lemma pgdir_walk_new:
  assumes inv: "vm_inv D ext (x # xs) s" and d: "d \<in> D" "va < UTOP" and no: "tab s (d, unat (PDX va)) = None"
  shows "returns (pgdir_walk (Some d) va True s) (\<lambda>r t. r = Some (x, unat (PTX va)) \<and> vm_inv D ext xs t
    \<and> (\<forall>z\<in>slots D. ent t z = ent s z) \<and> tab t (d, unat (PDX va)) = Some x
    \<and> (\<forall>y. y \<noteq> (d, unat (PDX va)) \<and> y \<in> dirs D \<longrightarrow> tab t y = tab s y)
    \<and> (\<forall>p. pp_ref (pages t p) = (if p = x then 1 else pp_ref (pages s p))))"
proof -
  note i = vm_invD [OF inv]
  note f = vm_inv_free [OF inv, of x, simplified]
  define i0 where "i0 = unat (PDX va)"
  define w where "w = page2pa x OR PTE_P OR PTE_W OR PTE_U"
  have np: "npages s \<le> 1048576" using i(1) by (simp add: free_pages_def)
  have w: "pr w" "pg w = x"
    using pg_page2pa [of x] f(1) np pg_or [of "PTE_P OR PTE_W OR PTE_U" "page2pa x"]
    by (simp_all add: w_def) (simp add: or.assoc PTE_P_def PTE_W_def PTE_U_def)
  obtain t0 where t0: "page_alloc ALLOC_ZERO s = Ok (Some x) t0" "free_pages xs t0"
      "t0 = s\<lparr>pages := (pages s)(x := (pages s x)\<lparr>pp_link := None\<rparr>), page_free_list := pp_link (pages s x),
        frames := (frames s)(x := (\<lambda>_. 0))\<rparr>"
    using page_alloc_some [OF i(1), of ALLOC_ZERO] by (auto simp: returns_iff ALLOC_ZERO_def)
  define t where "t = wr_ent (d, i0) w (incref x t0)"
  have xd: "x \<noteq> d" "x \<notin> D" "x \<notin> set xs" "pp_ref (pages s x) = 0"
    using f(2) d i(1) by (auto simp: free_pages_def)
  have fr: "frames t = (frames s)(x := (\<lambda>_. 0), d := (frames s d)(i0 := w))" "npages t = npages s"
    using xd by (simp_all add: t_def t0(3) fun_upd_twist)
  have tb: "tab t y = (if y = (d, i0) then Some x else tab s y)" if "y \<in> dirs D" for y
    using that xd(2) w by (cases y) (auto simp: tab_def fr dirs_def)
  have rt: "rd_ent (d, i0) t = w" by (simp add: rd_ent_def fr)
  have i0: "(d, i0) \<in> dirs D" using dir_in [OF d] by (simp add: i0_def)
  have ent: "ent t z = ent s z" if "z \<in> slots D" for z
  proof -
    obtain e j k where z: "z = (e, j, k)" by (cases z)
    have ej: "(e, j) \<in> dirs D" using that z by (auto simp: slots_def dirs_def)
    have "frames t p = frames s p" if "tab s (e, j) = Some p" for p
      using f(3) [OF ej] i(6) [OF ej that] that d by (auto simp: fr)
    then show ?thesis using z tb [OF ej] no xd by (auto simp: ent_def fr i0_def split: option.split)
  qed
  have rf: "pp_ref (pages t p) = (if p = x then 1 else pp_ref (pages s p))" for p
    using xd by (simp add: t_def t0(3))
  have ht: "holders (dirs D) (tab t) p = holders (dirs D) (tab s) p + (if p = x then 1 else 0)" for p
  proof -
    have "holders (dirs D) (tab t) p = holders (dirs D) ((tab s)((d, i0) := Some x)) p"
      by (rule holders_cong) (simp add: tb)
    then show ?thesis using holders_upd [OF finite_dirs(1) [OF i(2)] i0, of "tab s" "Some x" p] no by (auto simp: i0_def)
  qed
  have he: "holders (slots D) (ent t) p = holders (slots D) (ent s) p" for p by (rule holders_cong) (rule ent)
  have "free_pages xs t" using t0(2) xd by (simp add: t_def free_pages_incref)
  moreover have "inj_on (tab t) {y \<in> dirs D. tab t y \<noteq> None}"
    using i(7) f(3) by (auto simp: inj_on_def tb)
  moreover have "unat (pp_ref (pages t p)) = holders (slots D) (ent t) p + holders (dirs D) (tab t) p + ext p"
    if "p < npages s" for p
    using i(11) [OF that] f(5,6,7) by (simp add: rf he ht)
  ultimately have "vm_inv D ext xs t"
    using i(2,3,4,5,6,8,9,10) xd f(1,4) by (auto simp: vm_inv_def fr(2) tb ent ht)
  moreover have "pgdir_walk (Some d) va True s = Ok (Some (x, unat (PTX va))) t"
    using no t0(1) f(1) w(2) rt fr(2) unfolding w_def t_def i0_def
    by (simp add: pgdir_walk_def pde_absent KADDR_def pg_def Let_def)
  ultimately show ?thesis using ent tb i0 rf by (simp add: i0_def)
qed

lemma ent_tab: "ent s (d, i, k) = Some q \<Longrightarrow> \<exists>p. tab s (d, i) = Some p \<and> pr (frames s p k) \<and> pg (frames s p k) = q"
  by (auto simp: ent_def split: option.splits if_splits)

lemma page_lookup_none:
  assumes "vm_inv D ext xs s" "d \<in> D" "va < UTOP" "ent s (slot d va) = None"
  shows "page_lookup (Some d) va s = Ok None s"
proof (cases "tab s (d, unat (PDX va))")
  case None
  then show ?thesis by (simp add: page_lookup_def pgdir_walk_absent)
next
  case (Some p)
  then show ?thesis
    using assms vm_invD(5) [OF assms(1) dir_in [OF assms(2,3)] Some]
    by (auto simp: page_lookup_def pgdir_walk_present slot_def ent_def rd_ent_def pr_def split: if_splits)
qed

lemma page_lookup_some:
  assumes "vm_inv D ext xs s" "d \<in> D" "va < UTOP" "ent s (slot d va) = Some q" "tab s (d, unat (PDX va)) = Some p"
  shows "page_lookup (Some d) va s = Ok (Some (q, (p, unat (PTX va)))) s"
  using assms vm_invD(5) [OF assms(1) dir_in [OF assms(2,3)] assms(5)] vm_invD(8) [OF assms(1) slot_in [OF assms(2,3)] assms(4)]
  by (auto simp: page_lookup_def pgdir_walk_present slot_def ent_def rd_ent_def pr_def pa2page_def pg_def split: if_splits)

lemma unat_decr16: "r \<noteq> 0 \<Longrightarrow> unat (r - 1 :: u16) = unat r - 1"
  by (rule unat_minus_one)

text \<open>Dropping a reference frees the page with the last one.\<close>

lemma page_decref_spec:
  assumes "free_pages xs s" "q < npages s" "q \<notin> set xs" "pp_ref (pages s q) \<noteq> 0"
  shows "returns (page_decref q s) (\<lambda>_ t. free_pages (if pp_ref (pages s q) = 1 then q # xs else xs) t
    \<and> (\<forall>p. pp_ref (pages t p) = (if p = q then pp_ref (pages s q) - 1 else pp_ref (pages s p)))
    \<and> frames t = frames s \<and> npages t = npages s \<and> pm_frame s t \<and> tlb t = tlb s)"
proof -
  define s1 where "s1 = upd_page q (\<lambda>p. p\<lparr>pp_ref := pp_ref p - 1\<rparr>) s"
  have fp: "free_pages xs s1"
    using assms(1,3) page_list_cong [of xs "pages s1" "pages s" "page_free_list s"]
    by (auto simp: free_pages_def s1_def)
  have fr: "pm_frame s s1" by (simp add: pm_frame_def s1_def upd_page_def)
  show ?thesis
  proof (cases "pp_ref (pages s q) = 1")
    case True
    then have "page_decref q s = page_free q s1" by (simp add: page_decref_def s1_def)
    with page_free_some [OF fp, of q] True assms fr show ?thesis
      by (auto simp: s1_def pm_frame_def upd_page_def)
  next
    case False
    then have "page_decref q s = Ok () s1" by (simp add: page_decref_def s1_def Let_def)
    with False fp fr show ?thesis by (simp add: s1_def)
  qed
qed

lemma page_remove_none:
  "vm_inv D ext xs s \<Longrightarrow> d \<in> D \<Longrightarrow> va < UTOP \<Longrightarrow> ent s (slot d va) = None \<Longrightarrow> page_remove (Some d) va s = Ok () s"
  by (simp add: page_remove_def page_lookup_none)

lemma page_remove_some:
  assumes inv: "vm_inv D ext xs s" and d: "d \<in> D" "va < UTOP" and q: "ent s (slot d va) = Some q"
  shows "returns (page_remove (Some d) va s) (\<lambda>_ t. vm_inv D ext (if pp_ref (pages s q) = 1 then q # xs else xs) t
    \<and> (\<forall>z\<in>slots D. ent t z = ((ent s)(slot d va := None)) z) \<and> (\<forall>x\<in>dirs D. tab t x = tab s x)
    \<and> (\<forall>p. pp_ref (pages t p) = (if p = q then pp_ref (pages s q) - 1 else pp_ref (pages s p)))
    \<and> pm_frame s t \<and> tlb t = tlb (tlb_invalidate (Some d) va s))"
proof -
  note i = vm_invD [OF inv]
  obtain p where p: "tab s (d, unat (PDX va)) = Some p" using q ent_tab by (metis slot_def)
  have qn: "q < npages s" and qx: "q \<notin> set xs"
    using i(8) [OF slot_in [OF d] q] vm_inv_free(4) [OF inv _ slot_in [OF d]] q by auto
  have "holders (slots D) (ent s) q \<noteq> 0" using holders_0 [of "slots D" "ent s" q] i(2) slot_in [OF d] q by auto
  then have r: "pp_ref (pages s q) \<noteq> 0" using i(11) [OF qn] by auto
  obtain t0 where t0: "page_decref q s = Ok () t0" "free_pages (if pp_ref (pages s q) = 1 then q # xs else xs) t0"
      "\<forall>p. pp_ref (pages t0 p) = (if p = q then pp_ref (pages s q) - 1 else pp_ref (pages s p))"
      "frames t0 = frames s" "npages t0 = npages s" "pm_frame s t0" "tlb t0 = tlb s"
    using page_decref_spec [OF i(1) qn qx r] by (auto simp: returns_iff)
  define t where "t = wr_ent (p, unat (PTX va)) 0 (tlb_invalidate (Some d) va t0)"
  have rm: "page_remove (Some d) va s = Ok () t"
    by (simp add: page_remove_def page_lookup_some [OF inv d q p] t0(1) t_def)
  have fr: "frames t = frames (wr_ent (p, unat (PTX va)) 0 s)" by (simp add: t_def t0(4))
  have tt: "tab t = tab (wr_ent (p, unat (PTX va)) 0 s)" "ent t = ent (wr_ent (p, unat (PTX va)) 0 s)"
    by (simp_all only: tab_def ent_def fr)
  have en: "ent t z = ((ent s)(slot d va := None)) z" if "z \<in> slots D" for z
    using ent_wr(2) [OF inv dir_in [OF d] p that, of "unat (PTX va)" 0] by (simp add: tt slot_def)
  have tb: "tab t x = tab s x" if "x \<in> dirs D" for x
    using ent_wr(1) [OF inv dir_in [OF d] p that] by (simp add: tt)
  have rf: "pp_ref (pages t p) = (if p = q then pp_ref (pages s q) - 1 else pp_ref (pages s p))" for p
    by (simp add: t_def t0(3))
  have "vm_inv D ext (if pp_ref (pages s q) = 1 then q # xs else xs) t"
    by (rule vm_inv_upd [OF inv slot_in [OF d] en tb])
      (use t0(2,5) q r i(4) unat_decr16 [OF r] unat_gt_0 [of "pp_ref (pages s q)"] in \<open>auto simp: t_def t0(3)\<close>)
  moreover have "pm_frame s t" "tlb t = tlb (tlb_invalidate (Some d) va s)"
    using t0(6,7) by (auto simp: t_def pm_frame_def wr_ent_def tlb_invalidate_def curenv_def)
  ultimately show ?thesis using rm en tb rf by simp
qed

lemma pde_flags:
  assumes "vm_inv D ext xs s" "d \<in> D" "(d, i) \<in> dirs D" "tab s (d, i) \<noteq> None" "f < 4096"
  shows "tab (wr_ent (d, i) (rd_ent (d, i) s OR f) s) x = tab s x"
    and "y \<in> slots D \<Longrightarrow> ent (wr_ent (d, i) (rd_ent (d, i) s OR f) s) y = ent s y"
proof -
  show tb: "tab (wr_ent (d, i) (rd_ent (d, i) s OR f) s) x = tab s x" for x
    using assms(4,5) by (cases x) (auto simp: tab_def rd_ent_def pg_or split: if_splits)
  assume y: "y \<in> slots D"
  obtain e j l where ye: "y = (e, j, l)" by (cases y)
  then have "(e, j) \<in> dirs D" using y by (auto simp: slots_def dirs_def)
  then have "p \<noteq> d" if "tab s (e, j) = Some p" for p
    using vm_invD(6) [OF assms(1) _ that] assms(2) by auto
  then show "ent (wr_ent (d, i) (rd_ent (d, i) s OR f) s) y = ent s y"
    using ye tb by (auto simp: ent_def split: option.split)
qed

text \<open>The last step of \<open>page_insert\<close>, when the slot is empty and the reference already counted.\<close>

lemma page_insert_store:
  assumes inv: "vm_inv D (ext(pp := Suc (ext pp))) xs s" and d: "d \<in> D" "va < UTOP"
    and p: "tab s (d, unat (PDX va)) = Some p" and none: "ent s (slot d va) = None"
    and pp: "pp < npages s" "pp \<notin> D" "holders (dirs D) (tab s) pp = 0" and f: "perm < 4096"
    and ext: "\<And>d. d \<in> D \<Longrightarrow> 0 < ext d"
  defines "u \<equiv> wr_ent (p, unat (PTX va)) (page2pa pp OR perm OR PTE_P) s"
  defines "t \<equiv> wr_ent (d, unat (PDX va)) (rd_ent (d, unat (PDX va)) u OR perm) u"
  shows "vm_inv D ext xs t" "z \<in> slots D \<Longrightarrow> ent t z = ((ent s)(slot d va := Some pp)) z"
    "x \<in> dirs D \<Longrightarrow> tab t x = tab s x"
proof -
  note i = vm_invD [OF inv]
  have pd: "p \<noteq> d" using i(6) [OF dir_in [OF d] p] d by auto
  have "npages s \<le> 1048576" using i(1) by (simp add: free_pages_def)
  then have v: "pr (page2pa pp OR perm OR PTE_P)" "pg (page2pa pp OR perm OR PTE_P) = pp"
    using pg_page2pa [of pp] pp(1) pg_or [OF f, of "page2pa pp"] pg_or [of PTE_P "page2pa pp OR perm"]
    by (simp_all add: or.assoc) (simp add: PTE_P_def)
  have ue: "ent u z = ((ent s)(slot d va := Some pp)) z" if "z \<in> slots D" for z
    using ent_wr(2) [OF inv dir_in [OF d] p that] v by (simp add: u_def slot_def)
  have ut: "tab u x = tab s x" if "x \<in> dirs D" for x
    using ent_wr(1) [OF inv dir_in [OF d] p that] by (simp add: u_def)
  have uinv: "vm_inv D ext xs u"
    by (rule vm_inv_upd [OF inv slot_in [OF d] ue ut]) (use none pp i(1) ext in \<open>auto simp: u_def\<close>)
  have tab: "tab u (d, unat (PDX va)) \<noteq> None" using ut [OF dir_in [OF d]] p by simp
  note fl = pde_flags [OF uinv d(1) dir_in [OF d] tab f]
  show te: "z \<in> slots D \<Longrightarrow> ent t z = ((ent s)(slot d va := Some pp)) z" for z
    using fl(2) ue by (simp add: t_def)
  show "x \<in> dirs D \<Longrightarrow> tab t x = tab s x" for x using fl(1) ut by (simp add: t_def)
  have hu: "holders (dirs D) (tab u) pp = 0" using pp(3) holders_cong [of "dirs D" "tab u" "tab s"] ut by simp
  have nu: "npages u = npages s" by (simp add: u_def)
  show "vm_inv D ext xs t"
    by (rule vm_inv_upd [OF uinv slot_in [OF d], of t "Some pp"])
      (use fl ue slot_in [OF d] pp hu nu vm_invD(1,4) [OF uinv] in \<open>auto simp: t_def\<close>)
qed

text \<open>From the entry \<open>e\<close> found or made for \<open>va\<close> on, \<open>page_insert\<close> succeeds.\<close>

definition insert_at :: "nat option \<Rightarrow> nat \<Rightarrow> u32 \<Rightarrow> u32 \<Rightarrow> nat \<times> nat \<Rightarrow> 'a jos_scheme \<Rightarrow> (int, 'a jos_scheme) res" where
  "insert_at pgdir pp va perm e s =
    (let s = incref pp s in
     bind (if rd_ent e s AND PTE_P \<noteq> 0 then page_remove pgdir va (tlb_invalidate pgdir va s) else Ok () s) (\<lambda>_ s.
     let s = wr_ent e (page2pa pp OR perm OR PTE_P) s;
         pde = (the pgdir, unat (PDX va)) in
     Ok 0 (wr_ent pde (rd_ent pde s OR perm) s)))"

lemma page_insert_alt:
  "page_insert pgdir pp va perm s = bind (pgdir_walk pgdir va True s) (\<lambda>pte s. case pte of
     None \<Rightarrow> Ok (- E_NO_MEM) s | Some e \<Rightarrow> insert_at pgdir pp va perm e s)"
  by (simp only: page_insert_def insert_at_def)

lemma vm_inv_tlb [simp]:
  "tab (tlb_invalidate d va s) = tab s" "ent (tlb_invalidate d va s) = ent s"
  "vm_inv D ext xs (tlb_invalidate d va s) = vm_inv D ext xs s"
proof -
  show a: "tab (tlb_invalidate d va s) = tab s" by (simp only: tab_def tlb_invalidate_simps)
  show b: "ent (tlb_invalidate d va s) = ent s" by (simp only: ent_def a tlb_invalidate_simps)
  show "vm_inv D ext xs (tlb_invalidate d va s) = vm_inv D ext xs s" by (simp add: vm_inv_def a b)
qed

lemma insert_at_spec:
  assumes inv: "vm_inv D ext xs s" and d: "d \<in> D" "va < UTOP"
    and p: "tab s (d, unat (PDX va)) = Some p"
    and pp: "pp < npages s" "pp \<notin> D" "pp \<notin> set xs" "holders (dirs D) (tab s) pp = 0"
    and r: "unat (pp_ref (pages s pp)) < 65535" and f: "perm < 4096"
  shows "returns (insert_at (Some d) pp va perm (p, unat (PTX va)) s) (\<lambda>r t. r = 0
    \<and> (\<exists>ys. vm_inv D ext ys t) \<and> (\<forall>z\<in>slots D. ent t z = ((ent s)(slot d va := Some pp)) z)
    \<and> (\<forall>x\<in>dirs D. tab t x = tab s x))"
proof -
  define s1 where "s1 = incref pp s"
  have inv1: "vm_inv D (ext(pp := Suc (ext pp))) xs s1" unfolding s1_def by (rule vm_inv_incref [OF inv pp(3) r])
  have fr: "frames s1 = frames s" by (simp add: s1_def)
  have tb1: "tab s1 = tab s" by (simp only: tab_def fr)
  have e1: "ent s1 = ent s" by (simp only: ent_def tb1 fr)
  have n1: "npages s1 = npages s" by (simp add: s1_def)
  note st = page_insert_store [OF _ d]
  show ?thesis
  proof (cases "ent s (slot d va)")
    case None
    then have "rd_ent (p, unat (PTX va)) s1 AND PTE_P = 0"
      using p by (auto simp: ent_def slot_def rd_ent_def fr pr_def split: if_splits)
    then show ?thesis
      using st [OF inv1 p [folded tb1] None [folded e1] pp(1) [folded n1] pp(2) pp(4) [folded tb1] f vm_invD(4) [OF inv]]
      by (auto simp: insert_at_def s1_def [symmetric] tb1 e1 Let_def)
  next
    case (Some q)
    then have pe: "rd_ent (p, unat (PTX va)) s1 AND PTE_P \<noteq> 0"
      using p by (auto simp: ent_def slot_def rd_ent_def fr pr_def split: if_splits)
    define s2 where "s2 = tlb_invalidate (Some d) va s1"
    have inv2: "vm_inv D (ext(pp := Suc (ext pp))) xs s2" using inv1 by (simp add: s2_def)
    have "ent s2 (slot d va) = Some q" using Some by (simp add: s2_def e1)
    then obtain s3 ys where s3: "page_remove (Some d) va s2 = Ok () s3" "vm_inv D (ext(pp := Suc (ext pp))) ys s3"
        "\<And>z. z \<in> slots D \<Longrightarrow> ent s3 z = ((ent s)(slot d va := None)) z" "\<And>x. x \<in> dirs D \<Longrightarrow> tab s3 x = tab s x"
        "npages s3 = npages s"
      using page_remove_some [OF inv2 d] unfolding returns_iff
      by (simp add: s2_def e1 tb1 pm_frame_def) (use s1_def incref_simps(3) in metis)
    have "holders (dirs D) (tab s3) pp = 0" using pp(4) holders_cong [of "dirs D" "tab s3" "tab s"] s3(4) by simp
    note t = st [OF s3(2) _ _ _ pp(2) this f vm_invD(4) [OF inv], of p, unfolded s3(5)]
    show ?thesis
      using pe t [OF _ _ pp(1)] s3(3) [OF slot_in [OF d]] s3(4) [OF dir_in [OF d]] p s3(3,4)
      by (auto simp: insert_at_def s1_def [symmetric] s2_def [symmetric] s3(1) Let_def)
  qed
qed

lemma pm_frame_upd [simp]:
  "pm_frame s (incref p t) = pm_frame s t" "pm_frame s (wr_ent e v t) = pm_frame s t"
  "pm_frame s (tlb_invalidate d va t) = pm_frame s t"
  by (simp_all add: pm_frame_def incref_def upd_page_def wr_ent_def tlb_invalidate_def)

lemma page_alloc_keeps: "keeps pm_frame s (page_alloc f s)"
  by (auto simp: page_alloc_def page2kva_def KADDR_def pm_frame_def upd_page_def Let_def split: option.split)

lemma page_free_keeps: "keeps pm_frame s (page_free p s)"
  by (auto simp: page_free_def pm_frame_def upd_page_def)

lemma page_decref_keeps: "keeps pm_frame s (page_decref p s)"
  unfolding page_decref_def Let_def
  by (auto intro!: pm.weaken [OF _ page_free_keeps]) (auto simp: pm_frame_def upd_page_def)

lemma KADDR_keeps: "keeps pm_frame s (KADDR pa s)" "keeps pm_frame s (pa2page pa s)"
  by (simp_all add: KADDR_def pa2page_def)

lemma pgdir_walk_keeps: "keeps pm_frame s (pgdir_walk d va c s)"
proof -
  have e: "keeps pm_frame s (bind (KADDR pa t) (\<lambda>p t. Ok (f p) t))" if "pm_frame s t" for pa t f
    using that by (simp add: KADDR_def)
  show ?thesis unfolding pgdir_walk_def Let_def
    by (auto intro!: e pm.keeps_bind [OF page_alloc_keeps] split: option.split)
      (auto simp: KADDR_def)
qed

lemma page_lookup_keeps: "keeps pm_frame s (page_lookup d va s)"
  unfolding page_lookup_def
  by (auto intro!: pm.keeps_bind [OF pgdir_walk_keeps] pm.keeps_bind [OF KADDR_keeps(2)] split: option.split)

lemma page_remove_keeps: "keeps pm_frame s (page_remove d va s)"
  unfolding page_remove_def
  by (auto intro!: pm.keeps_bind [OF page_lookup_keeps] pm.keeps_bind [OF page_decref_keeps] split: option.split)

lemma page_insert_keeps: "keeps pm_frame s (page_insert d pp va perm s)"
proof -
  have "keeps pm_frame t (insert_at d pp va perm e t)" for e and t :: "'a jos_scheme"
  proof -
    have "keeps pm_frame t (page_remove d va u)" if "pm_frame t u" for u
      using that page_remove_keeps by (rule pm.weaken)
    then show ?thesis unfolding insert_at_def Let_def
      by (auto intro!: pm.keeps_bind)
  qed
  then show ?thesis unfolding page_insert_alt
    by (auto intro!: pm.keeps_bind [OF pgdir_walk_keeps] split: option.split)
qed

lemma page_insert_spec:
  assumes inv: "vm_inv D ext xs s" and d: "d \<in> D" "va < UTOP"
    and pp: "pp < npages s" "pp \<notin> D" "pp \<notin> set xs" "holders (dirs D) (tab s) pp = 0"
    and r: "unat (pp_ref (pages s pp)) < 65535" and f: "perm < 4096"
  shows "returns (page_insert (Some d) pp va perm s) (\<lambda>r t. (\<exists>ys. vm_inv D ext ys t) \<and>
    (if tab s (d, unat (PDX va)) = None \<and> xs = [] then r = - E_NO_MEM \<and> t = s
     else r = 0 \<and> (\<forall>z\<in>slots D. ent t z = ((ent s)(slot d va := Some pp)) z)))"
proof (cases "tab s (d, unat (PDX va))")
  case (Some p)
  note w = pgdir_walk_present [OF Some vm_invD(5) [OF inv dir_in [OF d] Some], of True]
  show ?thesis
    using insert_at_spec [OF inv d Some pp r f] Some
    by (auto simp: page_insert_alt w elim!: returns_mono)
next
  case None
  show ?thesis
  proof (cases xs)
    case Nil
    then show ?thesis
      using None inv vm_invD(1) [OF inv] by (auto simp: page_insert_alt pgdir_walk_full)
  next
    case (Cons x ys)
    obtain t where t: "pgdir_walk (Some d) va True s = Ok (Some (x, unat (PTX va))) t" "vm_inv D ext ys t"
        "\<forall>z\<in>slots D. ent t z = ent s z" "tab t (d, unat (PDX va)) = Some x"
        "\<forall>y. y \<noteq> (d, unat (PDX va)) \<and> y \<in> dirs D \<longrightarrow> tab t y = tab s y"
        "\<forall>p. pp_ref (pages t p) = (if p = x then 1 else pp_ref (pages s p))"
      using pgdir_walk_new [OF inv [unfolded Cons] d None] by (auto simp: returns_iff)
    have np: "npages t = npages s"
      using keeps_Ok [OF pgdir_walk_keeps t(1)] by (simp add: pm_frame_def)
    have "tab t y \<noteq> Some pp" if "y \<in> dirs D" for y
    proof (cases "y = (d, unat (PDX va))")
      case True
      then show ?thesis using t(4) pp(3) Cons by auto
    next
      case False
      then have "tab t y = tab s y" using t(5) that by blast
      then show ?thesis using pp(4) that vm_invD(2) [OF inv] by (simp add: holders_0)
    qed
    then have h: "holders (dirs D) (tab t) pp = 0" using vm_invD(2) [OF inv] by (simp add: holders_0)
    have "pp < npages t" "pp \<notin> set ys" "unat (pp_ref (pages t pp)) < 65535" using pp r Cons t(6) np by auto
    from insert_at_spec [OF t(2) d t(4) this(1) pp(2) this(2) h this(3) f] show ?thesis
      using Cons slot_in [OF d] t(3) by (auto simp: page_insert_alt t(1) elim!: returns_mono)
  qed
qed

lemma page_remove_spec:
  assumes inv: "vm_inv D ext xs s" and d: "d \<in> D" "va < UTOP"
  shows "returns (page_remove (Some d) va s) (\<lambda>_ t. (\<exists>ys. vm_inv D ext ys t)
    \<and> (\<forall>z\<in>slots D. ent t z = ((ent s)(slot d va := None)) z))"
proof (cases "ent s (slot d va)")
  case None
  then have "(ent s)(slot d va := None) = ent s" by (simp add: fun_upd_idem_iff)
  then show ?thesis using inv page_remove_none [OF inv d None] by auto
next
  case (Some q)
  from page_remove_some [OF inv d Some] show ?thesis by (auto elim!: returns_mono)
qed

lemma vm_inv_cong:
  assumes inv: "vm_inv D ext xs s" and e: "\<And>y. y \<in> slots D \<Longrightarrow> ent t y = ent s y"
    and tb: "\<And>x. x \<in> dirs D \<Longrightarrow> tab t x = tab s x" and np: "npages t = npages s" and fp: "free_pages ys t"
    and r: "\<And>p. pp_ref (pages t p) = pp_ref (pages s p)"
  shows "vm_inv D ext ys t"
proof -
  note i = vm_invD [OF inv]
  have h: "holders (dirs D) (tab t) p = holders (dirs D) (tab s) p" "holders (slots D) (ent t) p = holders (slots D) (ent s) p" for p
    by (rule holders_cong, rule tb, assumption, rule holders_cong, rule e, assumption)
  have "inj_on (tab t) {x \<in> dirs D. tab t x \<noteq> None}" using i(7) tb by (auto simp: inj_on_def)
  then show ?thesis using i(2-6,8-11) e tb fp np r by (auto simp: vm_inv_def h)
qed

lemma page_alloc_vm:
  assumes "vm_inv D ext (x # xs) s"
  shows "returns (page_alloc f s) (\<lambda>r t. r = Some x \<and> vm_inv D ext xs t \<and> (\<forall>z\<in>slots D. ent t z = ent s z)
    \<and> (\<forall>y\<in>dirs D. tab t y = tab s y) \<and> (\<forall>p. pp_ref (pages t p) = pp_ref (pages s p)) \<and> pm_frame s t)"
proof -
  note i = vm_invD [OF assms]
  note fx = vm_inv_free [OF assms, of x, simplified]
  obtain t where t: "page_alloc f s = Ok (Some x) t" "free_pages xs t"
      "t = s\<lparr>pages := (pages s)(x := (pages s x)\<lparr>pp_link := None\<rparr>), page_free_list := pp_link (pages s x),
        frames := (if f AND ALLOC_ZERO \<noteq> 0 then (frames s)(x := (\<lambda>_. 0)) else frames s)\<rparr>"
    using page_alloc_some [OF i(1), of f] unfolding returns_iff by blast
  have fr: "frames t p = frames s p" if "p \<noteq> x" for p using that by (simp add: t(3))
  have tb: "tab t y = tab s y" if "y \<in> dirs D" for y
    using that fx(2) by (cases y) (auto simp: dirs_def intro!: tab_frames fr)
  have en: "ent t z = ent s z" if "z \<in> slots D" for z
  proof -
    obtain d j k where z: "z = (d, j, k)" by (cases z)
    then have dj: "(d, j) \<in> dirs D" using that by (auto simp: slots_def dirs_def)
    have "p \<noteq> x" if "tab s (d, j) = Some p" for p using fx(3) [OF dj] that by auto
    then show ?thesis using z tb [OF dj] fr by (auto simp: ent_def split: option.split)
  qed
  have r: "pp_ref (pages t p) = pp_ref (pages s p)" for p by (simp add: t(3))
  have "npages t = npages s" by (simp add: t(3))
  from vm_inv_cong [OF assms en tb this t(2) r] show ?thesis
    using t(1) en tb r keeps_Ok [OF page_alloc_keeps t(1)] by simp
qed

lemma page_free_vm:
  assumes "vm_inv D ext xs s" "p < npages s" "p \<notin> set xs" "pp_ref (pages s p) = 0"
  shows "returns (page_free p s) (\<lambda>_ t. vm_inv D ext (p # xs) t)"
proof -
  define t where "t = (upd_page p (\<lambda>x. x\<lparr>pp_link := page_free_list s\<rparr>) s)\<lparr>page_free_list := Some p\<rparr>"
  have f: "page_free p s = Ok () t" "free_pages (p # xs) t"
    using page_free_some [OF vm_invD(1) [OF assms(1)] assms(2-4)] by (simp_all add: t_def)
  have fr: "frames t = frames s" by (simp add: t_def)
  have tb: "tab t = tab s" by (simp only: tab_def fr)
  have en: "ent t = ent s" by (simp only: ent_def tb fr)
  have "vm_inv D ext (p # xs) t"
    by (rule vm_inv_cong [OF assms(1)]) (simp_all add: tb en f(2), simp_all add: t_def)
  then show ?thesis by (simp add: f)
qed

lemma ROUNDDOWN_pg: "unat (ROUNDDOWN a PGSIZE) = unat a div 4096 * 4096"
proof -
  have "unat (a mod 4096) = unat a mod 4096" by (simp add: unat_mod)
  moreover have "unat a mod 4096 \<le> unat a" by simp
  ultimately have "unat (a - a mod 4096) = unat a - unat a mod 4096" by (simp add: unat_sub_le)
  then show ?thesis by (simp add: ROUNDDOWN_def PGSIZE_def minus_mod_eq_div_mult)
qed

text \<open>
  The loop of \<open>user_mem_check\<close> returns 0 only after it has seen an entry with the permissions for each
  of its pages.
\<close>

lemma pgdir_walk_pure: "pgdir_walk pgdir va False s = Ok r t \<Longrightarrow> t = s"
  by (auto simp: pgdir_walk_def KADDR_def Let_def split: option.splits if_splits)

lemma user_mem_check_loop_ok:
  assumes "user_mem_check_loop pgdir va start n perm s = Ok 0 t"
  shows "t = s \<and> (\<forall>k<n. start + of_nat k * PGSIZE \<le> ULIM \<and>
    (\<exists>e. pgdir_walk pgdir (start + of_nat k * PGSIZE) False s = Ok (Some e) s \<and> rd_ent e s AND perm = perm))"
  using assms
proof (induction n arbitrary: start)
  case (Suc n)
  obtain r u where w: "pgdir_walk pgdir start False s = Ok r u"
    using Suc.prems by (cases "pgdir_walk pgdir start False s") auto
  then have u: "u = s" by (rule pgdir_walk_pure)
  obtain e where r: "r = Some e" using Suc.prems w by (cases r) (auto simp: E_FAULT_def)
  have e: "pgdir_walk pgdir start False s = Ok (Some e) s" "start \<le> ULIM" "rd_ent e s AND perm = perm"
      and l: "user_mem_check_loop pgdir va (start + PGSIZE) n perm s = Ok 0 t"
    using Suc.prems w u r by (auto simp: E_FAULT_def split: if_splits)
  show ?case
  proof (intro conjI allI impI)
    show "t = s" using Suc.IH [OF l] by simp
    fix k assume "k < Suc n"
    then show "start + of_nat k * PGSIZE \<le> ULIM"
      "\<exists>e. pgdir_walk pgdir (start + of_nat k * PGSIZE) False s = Ok (Some e) s \<and> rd_ent e s AND perm = perm"
      using Suc.IH [OF l] e by (cases k; simp add: algebra_simps)+
  qed
qed simp

section \<open>Properties\<close>

text \<open>
  A small machine for the witnesses: sixteen pages, environment 0 with page directory 1, page table 2
  and page 3 mapped at address 0; pages 4 and 5 are on the free list.
\<close>

definition zero_tf :: Trapframe where
  "zero_tf = \<lparr>tf_regs = \<lparr>reg_edi = 0, reg_esi = 0, reg_ebp = 0, reg_oesp = 0, reg_ebx = 0, reg_edx = 0, reg_ecx = 0, reg_eax = 0\<rparr>,
     tf_es = 0, tf_ds = 0, tf_trapno = 0, tf_err = 0, tf_eip = 0, tf_cs = 0, tf_eflags = 0, tf_esp = 0, tf_ss = 0\<rparr>"

definition zero_env :: Env where
  "zero_env = \<lparr>env_tf = zero_tf, env_link = None, env_id = 0, env_parent_id = 0, env_type = 0, env_status = ENV_FREE,
     env_runs = 0, env_cpunum = 0, env_pgdir = None, env_pgfault_upcall = 0, env_ipc_recving = False\<rparr>"

definition ex_jos :: jos where
  "ex_jos = \<lparr>kend = 0xF0100000, nextfree = 0, npages = 16, npages_basemem = 16,
     pages = (\<lambda>p. \<lparr>pp_link = if p = 4 then Some 5 else None, pp_ref = if p \<in> {1, 2, 3} then 1 else 0\<rparr>),
     page_free_list = Some 4, kern_pgdir = 6,
     frames = (\<lambda>p i. if p = 1 \<and> i = 0 then 0x2007 else if p = 2 \<and> i = 0 then 0x3007 else 0),
     mmio_base = MMIOBASE, user_mem_check_addr = 0,
     envs = (\<lambda>i. if i = 0 then zero_env\<lparr>env_id := 0x1000, env_status := ENV_RUNNING, env_pgdir := Some 1\<rparr> else zero_env),
     env_free_list = Some 1, jcpus = (\<lambda>_. \<lparr>cpu_status = CPU_STARTED, cpu_env = Some 0, ts_esp0 = KSTACKTOP\<rparr>),
     cpunum = 0, kernel_lock = Some 0, cr3 = 1, cr2 = 0, tlb = {}, cons_out = []\<rparr>"

definition ex_ext :: "nat \<Rightarrow> nat" where "ex_ext p = (if p = 1 then 1 else 0)"

lemma ex_pg: "pr 0x2007" "pr 0x3007" "pg 0x2007 = 2" "pg 0x3007 = 3"
  by (simp_all add: pr_def pg_def PTE_P_def PGNUM_def PTXSHIFT_def)

lemma ex_inv: "vm_inv {1} ex_ext [4, 5] ex_jos"
proof -
  have t: "tab ex_jos = (\<lambda>x. if x = (1, 0) then Some 2 else if x = (2, 0) then Some 3 else None)"
    by (auto simp: fun_eq_iff tab_def ex_jos_def ex_pg)
  have e: "ent ex_jos x = (if x = (1, 0, 0) then Some 3 else None)" if "x \<in> slots {1}" for x
    using that ex_pg by (cases x) (auto simp: slots_def ent_def t, auto simp: ex_jos_def split: if_splits)
  have ht: "holders (dirs {1}) (tab ex_jos) p = (if p = 2 then 1 else 0)" for p
  proof -
    have "{x \<in> dirs {1}. tab ex_jos x = Some p} = (if p = 2 then {(1, 0)} else {})"
      by (auto simp: dirs_def t split: if_splits)
    then show ?thesis by (simp add: holders_def)
  qed
  have he: "holders (slots {1}) (ent ex_jos) p = (if p = 3 then 1 else 0)" for p
  proof -
    have "{x \<in> slots {1}. ent ex_jos x = Some p} = (if p = 3 then {(1, 0, 0)} else {})"
      by (auto simp: e split: if_splits) (simp_all add: e slots_def)
    then show ?thesis by (simp add: holders_def)
  qed
  have f: "free_pages [4, 5] ex_jos" by (auto simp: free_pages_def ex_jos_def)
  have n: "npages ex_jos = 16" by (simp add: ex_jos_def)
  have "unat (pp_ref (pages ex_jos p)) = (if p \<in> {1, 2, 3} then 1 else 0)" for p by (simp add: ex_jos_def)
  moreover have "inj_on (tab ex_jos) {x \<in> dirs {1}. tab ex_jos x \<noteq> None}"
    by (auto simp: inj_on_def t dirs_def split: if_splits)
  ultimately show ?thesis
    unfolding vm_inv_def n ht he using f by (auto simp: ex_ext_def e t dirs_def split: if_splits)
qed

text \<open>C27: reference counting is exact. Mapping an allocated page with \<open>page_insert\<close> at any user address always
  returns; it keeps the invariant that the count of every page is the number of its mappings (also
  when the page replaces another one, or itself), and changes no other mapping. It fails only when a
  page table is missing and no page is free, and then leaves the state as it was.
\<close>

theorem page_insert_refcounts:
  assumes "vm_inv D ext xs s" "d \<in> D" "va < UTOP" "pp < npages s" "pp \<notin> D" "pp \<notin> set xs"
    "holders (dirs D) (tab s) pp = 0" "unat (pp_ref (pages s pp)) < 65535" "perm < 4096"
  shows "returns (page_insert (Some d) pp va perm s) (\<lambda>r t. (\<exists>ys. vm_inv D ext ys t) \<and>
    (if tab s (d, unat (PDX va)) = None \<and> xs = [] then r = - E_NO_MEM \<and> t = s
     else r = 0 \<and> (\<forall>z\<in>slots D. ent t z = ((ent s)(slot d va := Some pp)) z)))"
  by (rule page_insert_spec) (use assms in auto)

lemma ex_va: "(0x800000 :: u32) < UTOP" "(0 :: u32) < UTOP" "(0x800000 :: u32) \<noteq> 0"
  by (simp_all add: jos_layout)

lemma ex_holders: "holders (dirs {1}) (tab ex_jos) 7 = 0"
  by (subst holders_0) (auto simp: dirs_def tab_def ex_jos_def ex_pg)

theorem page_insert_refcounts_witness:
  "returns (page_insert (Some 1) 7 0x800000 6 ex_jos) (\<lambda>r t. (\<exists>ys. vm_inv {1} ex_ext ys t) \<and> r = 0)"
  using page_insert_refcounts [OF ex_inv, of 1 "0x800000" 7 6] ex_va ex_holders
  by (auto simp: ex_jos_def elim!: returns_mono)

text \<open>C28: a page inserted at a user address is the one \<open>page_lookup\<close> finds there, and after \<open>page_remove\<close>
  nothing is found; the translation is then not left in the TLB of a CPU that runs the environment.
\<close>

theorem page_insert_lookup_remove:
  assumes "vm_inv D ext xs s" "d \<in> D" "va < UTOP" "pp < npages s" "pp \<notin> D" "pp \<notin> set xs"
    "holders (dirs D) (tab s) pp = 0" "unat (pp_ref (pages s pp)) < 65535" "perm < 4096" "xs \<noteq> []"
    "curenv s = Some e" "env_pgdir (envs s e) = Some d"
  shows "returns (page_insert (Some d) pp va perm s) (\<lambda>r t. r = 0
    \<and> returns (page_lookup (Some d) va t) (\<lambda>q u. map_option fst q = Some pp \<and> u = t)
    \<and> returns (page_remove (Some d) va t) (\<lambda>_ u. page_lookup (Some d) va u = Ok None u \<and> PGNUM va \<notin> tlb u))"
proof -
  obtain t ys where t: "page_insert (Some d) pp va perm s = Ok 0 t" "vm_inv D ext ys t"
      "\<forall>z\<in>slots D. ent t z = ((ent s)(slot d va := Some pp)) z"
    using page_insert_spec [OF assms(1-9)] assms(10) by (auto simp: returns_iff)
  have en: "ent t (slot d va) = Some pp" using t(3) slot_in [OF assms(2,3)] by simp
  obtain p where p: "tab t (d, unat (PDX va)) = Some p" using en ent_tab by (metis slot_def)
  have fr: "pm_frame s t" using keeps_Ok [OF page_insert_keeps t(1)] .
  obtain u zs where u: "page_remove (Some d) va t = Ok () u" "vm_inv D ext zs u"
      "\<forall>z\<in>slots D. ent u z = ((ent t)(slot d va := None)) z" "tlb u = tlb (tlb_invalidate (Some d) va t)"
    using page_remove_some [OF t(2) assms(2,3) en] by (auto simp: returns_iff)
  have "page_lookup (Some d) va u = Ok None u"
    by (rule page_lookup_none [OF u(2) assms(2,3)]) (use u(3) slot_in [OF assms(2,3)] in simp)
  moreover have "PGNUM va \<notin> tlb u"
    using u(4) fr assms(11,12) by (auto simp: tlb_invalidate_def pm_frame_def curenv_def)
  ultimately show ?thesis
    using t(1) u(1) page_lookup_some [OF t(2) assms(2,3) en p] by simp
qed

theorem page_insert_lookup_remove_witness:
  "returns (page_insert (Some 1) 7 0x800000 6 ex_jos) (\<lambda>r t. r = 0
    \<and> returns (page_lookup (Some 1) 0x800000 t) (\<lambda>q u. map_option fst q = Some 7 \<and> u = t)
    \<and> returns (page_remove (Some 1) 0x800000 t) (\<lambda>_ u. page_lookup (Some 1) 0x800000 u = Ok None u \<and> PGNUM 0x800000 \<notin> tlb u))"
  by (rule page_insert_lookup_remove [OF ex_inv, of 1 "0x800000" 7 6 0])
    (use ex_va ex_holders in \<open>auto simp: ex_jos_def curenv_def\<close>)

text \<open>C29: a range that \<open>user_mem_check\<close> accepts, and that does not run past the top of the address space, is
  one the environment may use: every address of it is below or on the page of \<open>ULIM\<close> and has a page
  table entry with the permissions asked for.
\<close>

theorem user_mem_check_sound:
  assumes "user_mem_check env va len perm s = Ok 0 t" "unat va + unat len \<le> 4294963200" "i < unat len"
  defines "a \<equiv> ROUNDDOWN (va + of_nat i) PGSIZE"
  shows "a \<le> ULIM \<and> (\<exists>e. pgdir_walk (env_pgdir (envs s env)) a False s = Ok (Some e) s \<and> rd_ent e s AND perm = perm)"
proof -
  define A L where "A = unat va" and "L = unat len"
  have b: "A + L \<le> 4294963200" "i < L" using assms by (simp_all add: A_def L_def)
  define start fin where "start = ROUNDDOWN va PGSIZE" and "fin = ROUNDUP (va + len) PGSIZE"
  have "unat (va + len) = A + L" using b by (simp add: A_def L_def unat_add_less)
  then have "unat (va + len + 4096 - 1) = A + L + 4095"
    using b unat_add_less [of 4095 "va + len"] by simp
  then have fin: "unat fin = (A + L + 4095) div 4096 * 4096" and start: "unat start = A div 4096 * 4096"
    by (simp_all add: fin_def start_def ROUNDUP_def ROUNDDOWN_pg A_def) (simp add: PGSIZE_def ROUNDDOWN_pg [unfolded PGSIZE_def])
  define k where "k = (A + i) div 4096 - A div 4096"
  have ai: "unat (va + of_nat i) = A + i" using b by (simp add: A_def unat_word_ariths unat_of_nat)
  have k: "(A + i) div 4096 = A div 4096 + k" by (simp add: k_def div_le_mono)
  have kb: "(A + i) div 4096 < (A + L + 4095) div 4096"
    using div_le_mono [of "A + i + 4096" "A + L + 4095" 4096] b by simp
  have lt: "start < fin" unfolding word_less_nat_alt start fin using k kb by simp
  have fs: "unat (fin - start) = ((A + L + 4095) div 4096 - A div 4096) * 4096"
    using lt by (simp add: unat_sub_if' word_less_nat_alt start fin diff_mult_distrib)
  then have n: "unat ((fin - start) div PGSIZE) = (A + L + 4095) div 4096 - A div 4096"
    by (simp add: PGSIZE_def unat_div)
  have kn: "k < unat ((fin - start) div PGSIZE)" unfolding n using k kb by linarith
  have small: "(A + i) div 4096 * 4096 < 4294967296" using b div_times_less_eq_dividend [of "A + i" 4096] by linarith
  have sk: "(A + i) div 4096 * 4096 = A div 4096 * 4096 + k * 4096" unfolding k by (rule add_mult_distrib)
  have "k * 4096 < 4294967296" using small sk by linarith
  then have uk: "unat (of_nat k * PGSIZE :: u32) = k * 4096"
    by (simp add: PGSIZE_def unat_word_ariths unat_of_nat)
  have "unat start + unat (of_nat k * PGSIZE :: u32) < 4294967296" unfolding start uk using small sk by linarith
  then have "unat (start + of_nat k * PGSIZE) = (A + i) div 4096 * 4096"
    unfolding sk uk [symmetric] start [symmetric] by (rule unat_add_less)
  moreover have "unat a = (A + i) div 4096 * 4096" unfolding a_def ROUNDDOWN_pg ai ..
  ultimately have "start + of_nat k * PGSIZE = a" by (simp only: word_unat_eq_iff)
  moreover have "user_mem_check_loop (env_pgdir (envs s env)) va start (unat ((fin - start) div PGSIZE)) perm s = Ok 0 t"
    using assms(1) lt by (simp add: user_mem_check_def start_def fin_def Let_def)
  ultimately show ?thesis using user_mem_check_loop_ok kn by metis
qed

theorem user_mem_check_sound_witness:
  "(0x10 :: u32) \<le> ULIM \<and> (\<exists>e. pgdir_walk (Some 1) (ROUNDDOWN (0x10 + of_nat 3) PGSIZE) False ex_jos = Ok (Some e) ex_jos
    \<and> rd_ent e ex_jos AND 5 = 5)"
proof -
  have "ROUNDDOWN 0x10 PGSIZE = 0" "ROUNDUP 24 PGSIZE = 4096" "4096 div PGSIZE = (1 :: u32)"
    by (simp_all add: word_unat_eq_iff ROUNDDOWN_pg ROUNDUP_def) (simp_all add: PGSIZE_def)
  note r = this
  have c: "user_mem_check 0 0x10 8 5 ex_jos = Ok 0 ex_jos"
    by (simp add: user_mem_check_def r pgdir_walk_def rd_ent_def PDX_def PTX_def PDXSHIFT_def PTXSHIFT_def
        PTE_P_def KADDR_def PGNUM_def PTE_ADDR_def Let_def ex_jos_def ULIM_def)
  have "env_pgdir (envs ex_jos 0) = Some 1" by (simp add: ex_jos_def)
  with user_mem_check_sound [OF c, of 3] show ?thesis by (simp add: jos_layout)
qed

text \<open>C30: a length that makes the range wrap around the top of the address space defeats the check: the
  rounded end lies below the start, no page is looked at, and the range is accepted whatever the page
  tables hold, kernel memory included.
\<close>

theorem user_mem_check_wraps:
  assumes "4294967296 \<le> unat va + unat len" "unat len \<le> 4294959104"
  shows "user_mem_check env va len perm s = Ok 0 s"
proof -
  have l: "unat va + unat len < 4294967296 + 4294967296" using u32_less [of va] u32_less [of len] by linarith
  have w: "unat (va + len) = unat va + unat len - 4294967296"
    using assms(1) l by (simp add: unat_word_ariths mod_if)
  then have b: "unat (va + len) + 8192 \<le> unat va" using assms by linarith
  then have "unat (va + len) < 4294963201" using u32_less [of va] by linarith
  then have "unat (4095 + (va + len)) = 4095 + unat (va + len)" using unat_add_less [of 4095 "va + len"] by simp
  moreover have "va + len + 4096 - 1 = 4095 + (va + len)" by simp
  ultimately have "unat (va + len + 4096 - 1) \<le> unat va" using b by simp
  then have "(unat (va + len + 4096 - 1)) div 4096 * 4096 \<le> unat va div 4096 * 4096"
    by (intro mult_le_mono1 div_le_mono)
  then have "\<not> ROUNDDOWN va PGSIZE < ROUNDUP (va + len) PGSIZE"
    by (simp add: word_less_nat_alt ROUNDUP_def ROUNDDOWN_pg) (simp add: PGSIZE_def ROUNDDOWN_pg [unfolded PGSIZE_def])
  then show ?thesis by (simp add: user_mem_check_def)
qed

theorem user_mem_check_wraps_witness: "user_mem_check 0 0xF0100000 0xFF00000 (PTE_U OR PTE_W) ex_jos = Ok 0 ex_jos"
  using user_mem_check_wraps [of "0xF0100000" "0xFF00000"] by simp

text \<open>The pages the boot code leaves for allocation: not page 0, not the one of the entry code of the other
  CPUs, not the I/O hole with the kernel after it.\<close>

definition usable :: "nat \<Rightarrow> nat \<Rightarrow> nat \<Rightarrow> bool" where
  "usable base lim i \<longleftrightarrow> i \<noteq> 0 \<and> i \<noteq> 7 \<and> \<not> (base \<le> i \<and> i < lim)"

lemma page_init_fold:
  fixes lim :: nat
  assumes "page_free_list s = None" "\<And>p. pages s p = \<lparr>pp_link = None, pp_ref = 0\<rparr>"
  defines "t \<equiv> \<lambda>n. fold (page_init_one lim) [0..<n] s"
  shows "npages (t n) = npages s \<and> npages_basemem (t n) = npages_basemem s
    \<and> page_list (pages (t n)) (page_free_list (t n)) (rev (filter (usable (npages_basemem s) lim) [0..<n]))
    \<and> (\<forall>p. pp_ref (pages (t n) p) = (if p < n \<and> p \<noteq> 7 \<and> \<not> usable (npages_basemem s) lim p then 1 else 0))
    \<and> (\<forall>p. \<not> (p < n \<and> usable (npages_basemem s) lim p) \<longrightarrow> pp_link (pages (t n) p) = None)"
proof (induction n)
  case 0
  then show ?case using assms by simp
next
  case (Suc n)
  define u where "u = t n"
  have mp: "unat (MPENTRY_PADDR div PGSIZE) = 7" by (simp add: MPENTRY_PADDR_def PGSIZE_def)
  have st: "t (Suc n) = page_init_one lim n u" by (simp add: t_def u_def)
  note ih = Suc.IH [folded u_def]
  have fl: "page_list ((pages u)(n := x)) p (rev (filter (usable (npages_basemem s) lim) [0..<n]))
      = page_list (pages u) p (rev (filter (usable (npages_basemem s) lim) [0..<n]))" for x p
    by (rule page_list_cong) auto
  show ?case
  proof (cases "usable (npages_basemem s) lim n")
    case True
    then have "t (Suc n) = (upd_page n (\<lambda>p. p\<lparr>pp_link := page_free_list u, pp_ref := 0\<rparr>) u)\<lparr>page_free_list := Some n\<rparr>"
      using ih by (auto simp: st page_init_one_def usable_def mp)
    then show ?thesis using ih True by (auto simp: fl fl [unfolded fun_upd_def] less_Suc_eq upd_page_def)
  next
    case False
    then have "t (Suc n) = (if n = 7 then u else upd_page n (\<lambda>p. p\<lparr>pp_link := None, pp_ref := 1\<rparr>) u)"
      using ih by (auto simp: st page_init_one_def usable_def mp)
    then show ?thesis using ih False by (auto simp: fl fl [unfolded fun_upd_def] less_Suc_eq upd_page_def)
  qed
qed



end
