(* ===== verification/JEnv.thy ===== *)
theory JEnv
  imports JPmap
begin

text \<open>
  Environments of JOS: \<open>src/lab/kern/env.c\<close>, the scheduler \<open>kern/sched.c\<close>, the big kernel lock
  (\<open>kern/spinlock.c\<close>), the system calls \<open>kern/syscall.c\<close> and the trap handler \<open>kern/trap.c\<close>. A
  \<open>struct Env *\<close> is the index in \<open>envs\<close>. Leaving the kernel for an environment, and halting the CPU,
  is the outcome \<open>Switch\<close>; the messages of the kernel on the console are not state.
\<close>

section \<open>The big kernel lock\<close>

definition spin_lock :: "'a jos_scheme \<Rightarrow> (unit, 'a jos_scheme) res" where
  "spin_lock s = (case kernel_lock s of
     Some c \<Rightarrow> if c = cpunum s then Panic ''CPU cannot acquire kernel_lock: already holding'' else Spin LkKernel s
   | None \<Rightarrow> Ok () (s\<lparr>kernel_lock := Some (cpunum s)\<rparr>))"

definition spin_unlock :: "'a jos_scheme \<Rightarrow> (unit, 'a jos_scheme) res" where
  "spin_unlock s = (if kernel_lock s \<noteq> Some (cpunum s) then Panic ''spin_unlock''
     else Ok () (s\<lparr>kernel_lock := None\<rparr>))"

section \<open>Environments\<close>

definition NENV :: nat where "NENV = 1024"
definition ENVX :: "u32 \<Rightarrow> nat" where "ENVX envid = unat (envid AND 0x3FF)"
definition ENVGENSHIFT :: nat where "ENVGENSHIFT = 12"
definition GD_KT :: u16 where "GD_KT = 0x08"
definition GD_UT :: u16 where "GD_UT = 0x18"
definition GD_UD :: u16 where "GD_UD = 0x20"

definition upd_env :: "nat \<Rightarrow> (Env \<Rightarrow> Env) \<Rightarrow> 'a jos_scheme \<Rightarrow> 'a jos_scheme" where
  "upd_env e f s = s\<lparr>envs := (envs s)(e := f (envs s e))\<rparr>"

definition set_curenv :: "nat option \<Rightarrow> 'a jos_scheme \<Rightarrow> 'a jos_scheme" where
  "set_curenv e s = s\<lparr>jcpus := (jcpus s)(cpunum s := (jcpus s (cpunum s))\<lparr>cpu_env := e\<rparr>)\<rparr>"

text \<open>\<open>lcr3(PADDR(pgdir))\<close>: loading the page directory empties the TLB.\<close>

definition lcr3 :: "nat option \<Rightarrow> 'a jos_scheme \<Rightarrow> (unit, 'a jos_scheme) res" where
  "lcr3 pgdir s = (case pgdir of None \<Rightarrow> Panic ''PADDR called with invalid kva''
     | Some pd \<Rightarrow> Ok () (s\<lparr>cr3 := pd, tlb := {}\<rparr>))"

definition envid2env :: "u32 \<Rightarrow> bool \<Rightarrow> 'a jos_scheme \<Rightarrow> (int \<times> nat option, 'a jos_scheme) res" where
  "envid2env envid checkperm s =
    (if envid = 0 then Ok (0, curenv s) s
     else let e = ENVX envid in
       if env_status (envs s e) = ENV_FREE \<or> env_id (envs s e) \<noteq> envid then Ok (- E_BAD_ENV, None) s
       else if checkperm \<and> curenv s \<noteq> Some e then
         (case curenv s of None \<Rightarrow> Fault
          | Some c \<Rightarrow> if env_parent_id (envs s e) \<noteq> env_id (envs s c) then Ok (- E_BAD_ENV, None) s
              else Ok (0, Some e) s)
       else Ok (0, Some e) s)"

definition env_init_one :: "nat \<Rightarrow> 'a jos_scheme \<Rightarrow> 'a jos_scheme" where
  "env_init_one i s = (upd_env i (\<lambda>e. e\<lparr>env_link := env_free_list s, env_id := 0, env_status := ENV_FREE\<rparr>) s)
     \<lparr>env_free_list := Some i\<rparr>"

definition env_init :: "'a jos_scheme \<Rightarrow> 'a jos_scheme" where
  "env_init s = fold env_init_one (rev [0..<NENV]) (s\<lparr>env_free_list := None\<rparr>)"

definition env_setup_vm :: "nat \<Rightarrow> 'a jos_scheme \<Rightarrow> (int, 'a jos_scheme) res" where
  "env_setup_vm e s = bind (page_alloc ALLOC_ZERO s) (\<lambda>r s. case r of None \<Rightarrow> Ok (- E_NO_MEM) s
     | Some p \<Rightarrow> bind (page2kva p s) (\<lambda>pd s.
         let s = incref p (upd_env e (\<lambda>x. x\<lparr>env_pgdir := Some pd\<rparr>) s);
             s = s\<lparr>frames := (frames s)(pd := (\<lambda>i. if i < unat (PDX UTOP) then 0
               else if i < NPDENTRIES then frames s (kern_pgdir s) i else frames s pd i))\<rparr> in
         Ok 0 (wr_ent (pd, unat (PDX UVPT)) (page2pa pd OR PTE_P OR PTE_U) s)))"

definition new_envid :: "u32 \<Rightarrow> nat \<Rightarrow> u32" where
  "new_envid old e =
    (let generation = (old + push_bit ENVGENSHIFT 1) AND NOT (of_nat NENV - 1);
         generation = (if sint generation \<le> 0 then push_bit ENVGENSHIFT 1 else generation) in
     generation OR of_nat e)"

definition env_alloc :: "u32 \<Rightarrow> 'a jos_scheme \<Rightarrow> (int \<times> nat option, 'a jos_scheme) res" where
  "env_alloc parent_id s = (case env_free_list s of None \<Rightarrow> Ok (- E_NO_FREE_ENV, None) s
     | Some e \<Rightarrow> bind (env_setup_vm e s) (\<lambda>r s. if r < 0 then Ok (r, None) s else
         let s = upd_env e (\<lambda>x. x\<lparr>env_id := new_envid (env_id x) e, env_parent_id := parent_id, env_type := 0,
               env_status := ENV_RUNNABLE, env_runs := 0,
               env_tf := zero_tf\<lparr>tf_ds := GD_UD OR 3, tf_es := GD_UD OR 3, tf_ss := GD_UD OR 3,
                 tf_esp := USTACKTOP, tf_cs := GD_UT OR 3\<rparr>,
               env_pgfault_upcall := 0, env_ipc_recving := False\<rparr>) s in
         Ok (0, Some e) (s\<lparr>env_free_list := env_link (envs s e)\<rparr>)))"

primrec region_loop :: "nat \<Rightarrow> u32 \<Rightarrow> nat \<Rightarrow> 'a jos_scheme \<Rightarrow> (unit, 'a jos_scheme) res" where
  "region_loop e i 0 s = Ok () s"
| "region_loop e i (Suc n) s = bind (page_alloc 0 s) (\<lambda>p s. case p of
     None \<Rightarrow> Panic '' region alloc failed: allocation failed.''
   | Some p \<Rightarrow> bind (page_insert (env_pgdir (envs s e)) p i (PTE_W OR PTE_U) s) (\<lambda>r s.
       if r \<noteq> 0 then Panic ''region alloc failed. page_insert failed'' else region_loop e (i + PGSIZE) n s))"

definition region_alloc :: "nat \<Rightarrow> u32 \<Rightarrow> u32 \<Rightarrow> 'a jos_scheme \<Rightarrow> (unit, 'a jos_scheme) res" where
  "region_alloc e va len s =
    (let start = ROUNDDOWN va PGSIZE; fin = ROUNDUP (va + len) PGSIZE in
     region_loop e start (if start < fin then unat ((fin - start) div PGSIZE) else 0) s)"

text \<open>
  Bytes at virtual addresses, through the page directory in \<open>cr3\<close>; a write needs a writable page, also
  in the kernel (\<open>CR0_WP\<close>).
\<close>

definition vaddr :: "u32 \<Rightarrow> bool \<Rightarrow> 'a jos_scheme \<Rightarrow> (nat \<times> nat \<times> nat) option" where
  "vaddr va wr s =
    (let pde = frames s (cr3 s) (unat (PDX va)); pte = frames s (pg pde) (unat (PTX va)) in
     if pr pde \<and> pr pte \<and> (wr \<longrightarrow> pde AND PTE_W \<noteq> 0 \<and> pte AND PTE_W \<noteq> 0)
     then Some (pg pte, unat (PGOFF va) div 4, unat (PGOFF va) mod 4) else None)"

definition vget :: "u32 \<Rightarrow> 'a jos_scheme \<Rightarrow> (u8, 'a jos_scheme) res" where
  "vget va s = (case vaddr va False s of None \<Rightarrow> Fault
     | Some (p, i, b) \<Rightarrow> Ok (ucast (drop_bit (8 * b) (frames s p i))) s)"

definition vput :: "u32 \<Rightarrow> u8 \<Rightarrow> 'a jos_scheme \<Rightarrow> (unit, 'a jos_scheme) res" where
  "vput va v s = (case vaddr va True s of None \<Rightarrow> Fault
     | Some (p, i, b) \<Rightarrow> Ok () (wr_ent (p, i)
         ((frames s p i AND NOT (push_bit (8 * b) 0xFF)) OR push_bit (8 * b) (ucast v)) s))"

primrec vputs :: "u32 \<Rightarrow> u8 list \<Rightarrow> 'a jos_scheme \<Rightarrow> (unit, 'a jos_scheme) res" where
  "vputs va [] s = Ok () s"
| "vputs va (v # vs) s = bind (vput va v s) (\<lambda>_ s. vputs (va + 1) vs s)"

primrec vfill :: "u32 \<Rightarrow> nat \<Rightarrow> 'a jos_scheme \<Rightarrow> (unit, 'a jos_scheme) res" where
  "vfill va 0 s = Ok () s"
| "vfill va (Suc n) s = bind (vput va 0 s) (\<lambda>_ s. vfill (va + 1) n s)"

text \<open>An executable image is the bytes of an ELF file, by offset.\<close>

definition le32 :: "(nat \<Rightarrow> u8) \<Rightarrow> nat \<Rightarrow> u32" where
  "le32 b i = ucast (b i) OR push_bit 8 (ucast (b (i + 1))) OR push_bit 16 (ucast (b (i + 2))) OR push_bit 24 (ucast (b (i + 3)))"

definition e_magic :: "(nat \<Rightarrow> u8) \<Rightarrow> u32" where "e_magic b = le32 b 0"
definition e_entry :: "(nat \<Rightarrow> u8) \<Rightarrow> u32" where "e_entry b = le32 b 24"
definition e_phoff :: "(nat \<Rightarrow> u8) \<Rightarrow> u32" where "e_phoff b = le32 b 28"
definition e_phnum :: "(nat \<Rightarrow> u8) \<Rightarrow> nat" where "e_phnum b = unat (le32 b 44 AND 0xFFFF)"
definition J_ELF_MAGIC :: u32 where "J_ELF_MAGIC = 0x464C457F"

primrec load_segs :: "nat \<Rightarrow> (nat \<Rightarrow> u8) \<Rightarrow> nat \<Rightarrow> nat \<Rightarrow> 'a jos_scheme \<Rightarrow> (unit, 'a jos_scheme) res" where
  "load_segs e b ph 0 s = Ok () s"
| "load_segs e b ph (Suc n) s =
    (let p_type = le32 b ph; p_offset = le32 b (ph + 4); p_va = le32 b (ph + 8);
         p_filesz = le32 b (ph + 16); p_memsz = le32 b (ph + 20) in
     bind (if p_type = 1 then
         bind (region_alloc e p_va p_memsz s) (\<lambda>_ s.
         bind (vputs p_va (map (\<lambda>k. b (unat p_offset + k)) [0..<unat p_filesz]) s) (\<lambda>_ s.
         vfill (p_va + p_filesz) (unat (p_memsz - p_filesz)) s))
       else Ok () s) (\<lambda>_ s. load_segs e b (ph + 32) n s))"

definition load_icode :: "nat \<Rightarrow> (nat \<Rightarrow> u8) \<Rightarrow> 'a jos_scheme \<Rightarrow> (unit, 'a jos_scheme) res" where
  "load_icode e b s =
    (if e_magic b \<noteq> J_ELF_MAGIC then Panic ''load_icode failed: The binary we load is not elf.''
     else if e_entry b = 0 then Panic ''load_icode failed: The elf file cannot be executed.''
     else
       bind (lcr3 (env_pgdir (envs s e)) (upd_env e (\<lambda>x. x\<lparr>env_tf := (env_tf x)\<lparr>tf_eip := e_entry b\<rparr>\<rparr>) s)) (\<lambda>_ s.
       bind (load_segs e b (unat (e_phoff b)) (e_phnum b) s) (\<lambda>_ s.
       region_alloc e (USTACKTOP - PGSIZE) PGSIZE s)))"

definition env_create :: "(nat \<Rightarrow> u8) \<Rightarrow> nat \<Rightarrow> 'a jos_scheme \<Rightarrow> (unit, 'a jos_scheme) res" where
  "env_create b ty s = bind (env_alloc 0 s) (\<lambda>r s. case r of
     (rc, e) \<Rightarrow> if rc \<noteq> 0 then Panic ''env_create failed: env_alloc failed''
       else bind (load_icode (the e) b s) (\<lambda>_ s. Ok () (upd_env (the e) (\<lambda>x. x\<lparr>env_type := ty\<rparr>) s)))"

primrec for_each :: "('x \<Rightarrow> 's \<Rightarrow> (unit, 's) res) \<Rightarrow> 'x list \<Rightarrow> 's \<Rightarrow> (unit, 's) res" where
  "for_each f [] s = Ok () s"
| "for_each f (x # xs) s = bind (f x s) (\<lambda>_ s. for_each f xs s)"

definition env_free_table :: "nat \<Rightarrow> nat \<Rightarrow> 'a jos_scheme \<Rightarrow> (unit, 'a jos_scheme) res" where
  "env_free_table e pdeno s = (case env_pgdir (envs s e) of None \<Rightarrow> Fault
     | Some pd \<Rightarrow>
         if rd_ent (pd, pdeno) s AND PTE_P = 0 then Ok () s
         else let pa = PTE_ADDR (rd_ent (pd, pdeno) s) in
           bind (KADDR pa s) (\<lambda>pt s.
           bind (for_each (\<lambda>pteno s. if rd_ent (pt, pteno) s AND PTE_P \<noteq> 0
               then page_remove (Some pd) (PGADDR (of_nat pdeno) (of_nat pteno) 0) s else Ok () s) [0..<1024] s) (\<lambda>_ s.
           bind (pa2page pa (wr_ent (pd, pdeno) 0 s)) (\<lambda>p s. page_decref p s))))"

definition env_free :: "nat \<Rightarrow> 'a jos_scheme \<Rightarrow> (unit, 'a jos_scheme) res" where
  "env_free e s =
     bind (if curenv s = Some e then lcr3 (Some (kern_pgdir s)) s else Ok () s) (\<lambda>_ s.
     bind (for_each (env_free_table e) [0..<unat (PDX UTOP)] s) (\<lambda>_ s.
     case env_pgdir (envs s e) of None \<Rightarrow> Panic ''PADDR called with invalid kva''
     | Some pd \<Rightarrow>
         bind (pa2page (page2pa pd) (upd_env e (\<lambda>x. x\<lparr>env_pgdir := None\<rparr>) s)) (\<lambda>p s.
         bind (page_decref p s) (\<lambda>_ s.
         Ok () ((upd_env e (\<lambda>x. x\<lparr>env_status := ENV_FREE, env_link := env_free_list s\<rparr>) s)\<lparr>env_free_list := Some e\<rparr>)))))"

section \<open>Scheduling\<close>

definition env_pop_tf :: "'a jos_scheme \<Rightarrow> (unit, 'a jos_scheme) res" where
  "env_pop_tf s = (case curenv s of None \<Rightarrow> Fault
     | Some c \<Rightarrow> Switch (upd_env c (\<lambda>x. x\<lparr>env_cpunum := cpunum s\<rparr>) s))"

definition env_run :: "nat \<Rightarrow> 'a jos_scheme \<Rightarrow> (unit, 'a jos_scheme) res" where
  "env_run e s =
    (let s = (case curenv s of None \<Rightarrow> s
           | Some c \<Rightarrow> if env_status (envs s c) = ENV_RUNNING then upd_env c (\<lambda>x. x\<lparr>env_status := ENV_RUNNABLE\<rparr>) s else s);
         s = set_curenv (Some e) s;
         s = upd_env e (\<lambda>x. x\<lparr>env_status := ENV_RUNNING, env_runs := env_runs x + 1\<rparr>) s in
     bind (lcr3 (env_pgdir (envs s e)) s) (\<lambda>_ s.
     bind (spin_unlock s) (\<lambda>_ s. env_pop_tf s)))"

definition sched_halt :: "'a jos_scheme \<Rightarrow> (unit, 'a jos_scheme) res" where
  "sched_halt s =
    (if \<not> (\<exists>i\<in>set [0..<NENV]. env_status (envs s i) \<in> {ENV_RUNNABLE, ENV_RUNNING, ENV_DYING}) then Hang
     else bind (lcr3 (Some (kern_pgdir s)) (set_curenv None s)) (\<lambda>_ s.
       bind (spin_unlock (s\<lparr>jcpus := (jcpus s)(cpunum s := (jcpus s (cpunum s))\<lparr>cpu_status := CPU_HALTED\<rparr>)\<rparr>)) (\<lambda>_ s.
       Switch s)))"

text \<open>The first runnable environment in circular order from \<open>startid\<close>, in the next \<open>k\<close> slots from offset \<open>i\<close> on.\<close>

fun pick :: "(nat \<Rightarrow> Env) \<Rightarrow> nat \<Rightarrow> nat \<Rightarrow> nat \<Rightarrow> nat option" where
  "pick es startid i 0 = None"
| "pick es startid i (Suc k) =
    (let nextid = (startid + i) mod NENV in
     if env_status (es nextid) = ENV_RUNNABLE then Some nextid else pick es startid (Suc i) k)"

definition sched_yield :: "'a jos_scheme \<Rightarrow> (unit, 'a jos_scheme) res" where
  "sched_yield s =
    (let startid = (case curenv s of None \<Rightarrow> 0 | Some c \<Rightarrow> ENVX (env_id (envs s c))) in
     case pick (envs s) startid 0 NENV of Some e \<Rightarrow> env_run e s
     | None \<Rightarrow> if env_status (envs s startid) = ENV_RUNNING \<and> env_cpunum (envs s startid) = cpunum s
         then env_run startid s else sched_halt s)"

definition env_destroy :: "nat \<Rightarrow> 'a jos_scheme \<Rightarrow> (unit, 'a jos_scheme) res" where
  "env_destroy e s =
    (if env_status (envs s e) = ENV_RUNNING \<and> curenv s \<noteq> Some e
     then Ok () (upd_env e (\<lambda>x. x\<lparr>env_status := ENV_DYING\<rparr>) s)
     else bind (env_free e s) (\<lambda>_ s.
       if curenv s = Some e then sched_yield (set_curenv None s) else Ok () s))"

definition user_mem_assert :: "nat \<Rightarrow> u32 \<Rightarrow> u32 \<Rightarrow> u32 \<Rightarrow> 'a jos_scheme \<Rightarrow> (unit, 'a jos_scheme) res" where
  "user_mem_assert env va len perm s = bind (user_mem_check env va len (perm OR PTE_U) s) (\<lambda>r s.
     if r < 0 then env_destroy env s else Ok () s)"

section \<open>System calls\<close>

definition J_E_INVAL :: int where "J_E_INVAL = 3"

text \<open>
  \<open>cprintf("%.*s", len, s)\<close>: the bytes up to a null, at most \<open>len\<close>; a length that is negative as an \<open>int\<close>
  is no limit, and the loop could then go round the address space.
\<close>

primrec put_user :: "bool \<Rightarrow> u32 \<Rightarrow> nat \<Rightarrow> 'a jos_scheme \<Rightarrow> (unit, 'a jos_scheme) res" where
  "put_user lim va 0 s = (if lim then Ok () s else Hang)"
| "put_user lim va (Suc n) s = bind (vget va s) (\<lambda>c s.
     if c = 0 then Ok () s else put_user lim (va + 1) n (s\<lparr>cons_out := cons_out s @ [c]\<rparr>))"

definition sys_cputs :: "u32 \<Rightarrow> u32 \<Rightarrow> 'a jos_scheme \<Rightarrow> (unit, 'a jos_scheme) res" where
  "sys_cputs a len s = (case curenv s of None \<Rightarrow> Fault | Some c \<Rightarrow>
     bind (user_mem_assert c a len 0 s) (\<lambda>_ s.
     if sint len < 0 then put_user False a (2 ^ 32) s else put_user True a (unat len) s))"

definition sys_getenvid :: "'a jos_scheme \<Rightarrow> (u32, 'a jos_scheme) res" where
  "sys_getenvid s = (case curenv s of None \<Rightarrow> Fault | Some c \<Rightarrow> Ok (env_id (envs s c)) s)"

definition sys_env_destroy :: "u32 \<Rightarrow> 'a jos_scheme \<Rightarrow> (int, 'a jos_scheme) res" where
  "sys_env_destroy envid s = bind (envid2env envid True s) (\<lambda>r s. case r of
     (rc, None) \<Rightarrow> if rc < 0 then Ok rc s else Fault
   | (rc, Some e) \<Rightarrow> bind (env_destroy e s) (\<lambda>_ s. Ok 0 s))"

definition sys_yield :: "'a jos_scheme \<Rightarrow> (unit, 'a jos_scheme) res" where
  "sys_yield s = sched_yield s"

definition sys_exofork :: "'a jos_scheme \<Rightarrow> (int, 'a jos_scheme) res" where
  "sys_exofork s = bind (sys_getenvid s) (\<lambda>me s. bind (env_alloc me s) (\<lambda>r s. case r of
     (ret, None) \<Rightarrow> Ok ret s
   | (ret, Some e) \<Rightarrow>
       let tf = env_tf (envs s (the (curenv s)));
           s = upd_env e (\<lambda>x. x\<lparr>env_status := ENV_NOT_RUNNABLE,
             env_tf := tf\<lparr>tf_regs := (tf_regs tf)\<lparr>reg_eax := 0\<rparr>\<rparr>\<rparr>) s in
       Ok (sint (env_id (envs s e))) s))"

text \<open>The status codes the call accepts, by their number.\<close>

definition sys_env_set_status :: "u32 \<Rightarrow> int \<Rightarrow> 'a jos_scheme \<Rightarrow> (int, 'a jos_scheme) res" where
  "sys_env_set_status envid status s =
    (if status \<noteq> 2 \<and> status \<noteq> 3 then Ok (- J_E_INVAL) s
     else bind (envid2env envid True s) (\<lambda>r s. case r of
       (rc, None) \<Rightarrow> if rc < 0 then Ok rc s else Fault
     | (rc, Some e) \<Rightarrow> Ok 0 (upd_env e (\<lambda>x. x\<lparr>env_status := (if status = 2 then ENV_RUNNABLE else ENV_RUNNING)\<rparr>) s)))"

definition sys_env_set_pgfault_upcall :: "u32 \<Rightarrow> u32 \<Rightarrow> 'a jos_scheme \<Rightarrow> (int, 'a jos_scheme) res" where
  "sys_env_set_pgfault_upcall envid func s = bind (envid2env envid True s) (\<lambda>r s. case r of
     (rc, None) \<Rightarrow> if rc \<noteq> 0 then Ok (- E_BAD_ENV) s else Fault
   | (rc, Some e) \<Rightarrow> Ok 0 (upd_env e (\<lambda>x. x\<lparr>env_pgfault_upcall := func\<rparr>) s))"

definition sys_page_alloc :: "u32 \<Rightarrow> u32 \<Rightarrow> u32 \<Rightarrow> 'a jos_scheme \<Rightarrow> (int, 'a jos_scheme) res" where
  "sys_page_alloc envid va perm s = bind (envid2env envid True s) (\<lambda>r s. case r of
     (rc, eo) \<Rightarrow> if rc < 0 then Ok (- E_BAD_ENV) s
       else if va \<ge> UTOP \<or> PGOFF va \<noteq> 0 then Ok (- J_E_INVAL) s
       else if perm AND PTE_U = 0 \<or> perm AND PTE_P = 0 then Ok (- J_E_INVAL) s
       else if perm AND NOT PTE_SYSCALL \<noteq> 0 then Ok (- J_E_INVAL) s
       else bind (page_alloc ALLOC_ZERO s) (\<lambda>p s. case p of None \<Rightarrow> Ok (- E_NO_MEM) s
         | Some pp \<Rightarrow> (case eo of None \<Rightarrow> Fault
           | Some e \<Rightarrow> bind (page_insert (env_pgdir (envs s e)) pp va perm s) (\<lambda>r s.
               if r < 0 then bind (page_free pp s) (\<lambda>_ s. Ok (- E_NO_MEM) s) else Ok 0 s))))"

definition sys_page_map :: "u32 \<Rightarrow> u32 \<Rightarrow> u32 \<Rightarrow> u32 \<Rightarrow> u32 \<Rightarrow> 'a jos_scheme \<Rightarrow> (int, 'a jos_scheme) res" where
  "sys_page_map srcenvid srcva dstenvid dstva perm s = bind (envid2env srcenvid True s) (\<lambda>r1 s.
     if fst r1 < 0 then Ok (- E_BAD_ENV) s else bind (envid2env dstenvid True s) (\<lambda>r2 s.
     if fst r2 < 0 then Ok (- E_BAD_ENV) s
     else if srcva \<ge> UTOP \<or> PGOFF srcva \<noteq> 0 \<or> dstva \<ge> UTOP \<or> PGOFF dstva \<noteq> 0 then Ok (- J_E_INVAL) s
     else if perm AND PTE_SYSCALL = 0 \<or> perm AND NOT PTE_SYSCALL \<noteq> 0 then Ok (- J_E_INVAL) s
     else case (snd r1, snd r2) of (Some se, Some de) \<Rightarrow>
         bind (page_lookup (env_pgdir (envs s se)) srcva s) (\<lambda>l s. case l of None \<Rightarrow> Ok (- J_E_INVAL) s
         | Some (srcpp, pte) \<Rightarrow>
             if perm AND PTE_W \<noteq> 0 \<and> rd_ent pte s AND PTE_W = 0 then Ok (- J_E_INVAL) s
             else bind (page_insert (env_pgdir (envs s de)) srcpp dstva perm s) (\<lambda>r s.
               if r < 0 then Ok (- E_NO_MEM) s else Ok 0 s))
       | _ \<Rightarrow> Fault))"

definition sys_page_unmap :: "u32 \<Rightarrow> u32 \<Rightarrow> 'a jos_scheme \<Rightarrow> (int, 'a jos_scheme) res" where
  "sys_page_unmap envid va s = bind (envid2env envid True s) (\<lambda>r s. case r of
     (rc, eo) \<Rightarrow> if rc < 0 then Ok (- E_BAD_ENV) s
       else if va \<ge> UTOP \<or> PGOFF va \<noteq> 0 then Ok (- J_E_INVAL) s
       else case eo of None \<Rightarrow> Fault
         | Some e \<Rightarrow> bind (page_remove (env_pgdir (envs s e)) va s) (\<lambda>_ s. Ok 0 s))"

definition sys_ipc_try_send :: "u32 \<Rightarrow> u32 \<Rightarrow> u32 \<Rightarrow> u32 \<Rightarrow> 'a jos_scheme \<Rightarrow> (int, 'a jos_scheme) res" where
  "sys_ipc_try_send envid v srcva perm s = Panic ''sys_ipc_try_send not implemented''"

definition sys_ipc_recv :: "u32 \<Rightarrow> 'a jos_scheme \<Rightarrow> (int, 'a jos_scheme) res" where
  "sys_ipc_recv dstva s = Panic ''sys_ipc_recv not implemented''"

text \<open>The dispatcher; \<open>cons_getc\<close>, the console driver, is an argument.\<close>

definition jos_syscall :: "('a jos_scheme \<Rightarrow> (int, 'a jos_scheme) res) \<Rightarrow> u32 \<Rightarrow> u32 \<Rightarrow> u32 \<Rightarrow> u32 \<Rightarrow> u32 \<Rightarrow> u32
    \<Rightarrow> 'a jos_scheme \<Rightarrow> (int, 'a jos_scheme) res" where
  "jos_syscall cons_getc syscallno a1 a2 a3 a4 a5 s =
    (if syscallno = 0 then bind (sys_cputs a1 a2 s) (\<lambda>_ s. Ok 0 s)
     else if syscallno = 1 then cons_getc s
     else if syscallno = 2 then bind (sys_getenvid s) (\<lambda>i s. Ok (sint i) s)
     else if syscallno = 3 then sys_env_destroy a1 s
     else if syscallno = 7 then sys_exofork s
     else if syscallno = 4 then sys_page_alloc a1 a2 a3 s
     else if syscallno = 5 then sys_page_map a1 a2 a3 a4 a5 s
     else if syscallno = 6 then sys_page_unmap a1 a2 s
     else if syscallno = 8 then sys_env_set_status a1 (sint a2) s
     else if syscallno = 10 then bind (sys_yield s) (\<lambda>_ s. Ok 0 s)
     else Ok (- J_E_INVAL) s)"

section \<open>Traps\<close>

definition T_BRKPT :: u32 where "T_BRKPT = 3"
definition J_T_PGFLT :: u32 where "J_T_PGFLT = 14"
definition J_T_SYSCALL :: u32 where "J_T_SYSCALL = 48"

definition le_bytes :: "u32 \<Rightarrow> u8 list" where
  "le_bytes v = [ucast v, ucast (drop_bit 8 v), ucast (drop_bit 16 v), ucast (drop_bit 24 v)]"

text \<open>The bytes of a \<open>struct UTrapframe\<close>, in the order of its fields.\<close>

definition utrapframe :: "u32 \<Rightarrow> Trapframe \<Rightarrow> u8 list" where
  "utrapframe fault_va tf = concat (map le_bytes
     [fault_va, tf_trapno tf, reg_edi (tf_regs tf), reg_esi (tf_regs tf), reg_ebp (tf_regs tf), reg_oesp (tf_regs tf),
      reg_ebx (tf_regs tf), reg_edx (tf_regs tf), reg_ecx (tf_regs tf), reg_eax (tf_regs tf),
      tf_eip tf, tf_eflags tf, tf_esp tf])"

definition page_fault_handler :: "Trapframe \<Rightarrow> 'a jos_scheme \<Rightarrow> (unit, 'a jos_scheme) res" where
  "page_fault_handler tf s =
    (let fault_va = cr2 s in
     case curenv s of None \<Rightarrow> Fault
     | Some c \<Rightarrow>
         if env_pgfault_upcall (envs s c) \<noteq> 0 then
           let utf = (if tf_esp tf \<ge> UXSTACKTOP - PGSIZE \<and> tf_esp tf < UXSTACKTOP then tf_esp tf - 52 - 4 else UXSTACKTOP - 52) in
           bind (user_mem_assert c utf 52 (PTE_P OR PTE_W) s) (\<lambda>_ s.
           bind (vputs utf (utrapframe fault_va tf) s) (\<lambda>_ s.
           env_run c (upd_env c (\<lambda>x. x\<lparr>env_tf := (env_tf x)\<lparr>tf_eip := env_pgfault_upcall x, tf_esp := utf\<rparr>\<rparr>) s)))
         else env_destroy c s)"

text \<open>
  \<open>tfp\<close> is the environment whose saved frame \<open>tf\<close> points to, for a trap from user mode; \<open>monitor\<close> is the
  interactive monitor.
\<close>

definition trap_dispatch :: "('a jos_scheme \<Rightarrow> (int, 'a jos_scheme) res) \<Rightarrow> ('a jos_scheme \<Rightarrow> (unit, 'a jos_scheme) res)
    \<Rightarrow> nat option \<Rightarrow> Trapframe \<Rightarrow> 'a jos_scheme \<Rightarrow> (unit, 'a jos_scheme) res" where
  "trap_dispatch cons_getc monitor tfp tf s =
    (if tf_trapno tf = J_T_PGFLT then page_fault_handler tf s
     else if tf_trapno tf = T_BRKPT then monitor s
     else if tf_trapno tf = J_T_SYSCALL then
       bind (jos_syscall cons_getc (reg_eax (tf_regs tf)) (reg_edx (tf_regs tf)) (reg_ecx (tf_regs tf))
         (reg_ebx (tf_regs tf)) (reg_edi (tf_regs tf)) (reg_esi (tf_regs tf)) s) (\<lambda>ret_code s.
       Ok () (case tfp of None \<Rightarrow> s | Some e \<Rightarrow> upd_env e (\<lambda>x. x\<lparr>env_tf := (env_tf x)
         \<lparr>tf_regs := (tf_regs (env_tf x))\<lparr>reg_eax := of_int ret_code\<rparr>\<rparr>\<rparr>) s))
     else if tf_cs tf = GD_KT then Panic ''unhandled trap in kernel''
     else case curenv s of None \<Rightarrow> Fault | Some c \<Rightarrow> env_destroy c s)"

definition jos_trap :: "('a jos_scheme \<Rightarrow> (int, 'a jos_scheme) res) \<Rightarrow> ('a jos_scheme \<Rightarrow> (unit, 'a jos_scheme) res)
    \<Rightarrow> bool \<Rightarrow> Trapframe \<Rightarrow> 'a jos_scheme \<Rightarrow> (unit, 'a jos_scheme) res" where
  "jos_trap cons_getc monitor iflag tf s =
    (let halted = (cpu_status (jcpus s (cpunum s)) = CPU_HALTED);
         s = s\<lparr>jcpus := (jcpus s)(cpunum s := (jcpus s (cpunum s))\<lparr>cpu_status := CPU_STARTED\<rparr>)\<rparr>;
         finish = (\<lambda>s. case curenv s of
             Some c \<Rightarrow> if env_status (envs s c) = ENV_RUNNING then env_run c s else sched_yield s
           | None \<Rightarrow> sched_yield s) in
     bind (if halted then spin_lock s else Ok () s) (\<lambda>_ s.
     if iflag then Panic ''assertion failed: !(read_eflags() & FL_IF)''
     else if tf_cs tf AND 3 = 3 then
       bind (spin_lock s) (\<lambda>_ s. case curenv s of None \<Rightarrow> Panic ''assertion failed: curenv''
       | Some c \<Rightarrow>
           if env_status (envs s c) = ENV_DYING
           then bind (env_free c s) (\<lambda>_ s. sched_yield (set_curenv None s))
           else bind (trap_dispatch cons_getc monitor (Some c) tf (upd_env c (\<lambda>x. x\<lparr>env_tf := tf\<rparr>) s)) (\<lambda>_ s. finish s))
     else bind (trap_dispatch cons_getc monitor None tf s) (\<lambda>_ s. finish s)))"

section \<open>Environment ids\<close>

lemma ENVX_less: "ENVX i < NENV"
  by (simp add: ENVX_def NENV_def unat_and_3FF)

lemma low_bits: "unat (w :: u32) < 1024 \<Longrightarrow> w AND 1023 = w"
  by (simp add: word_unat_eq_iff unat_and_3FF)

lemma unat_and_not_1023: "unat ((a :: u32) AND NOT 1023) = unat a div 1024 * 1024"
proof -
  have "a = (a AND 1023) OR (a AND NOT 1023)" by (rule bit_word_eqI) (auto simp: bit_simps)
  moreover have "(a AND 1023) AND (a AND NOT 1023) = 0" by (rule bit_word_eqI) (auto simp: bit_simps)
  ultimately have "a = (a AND 1023) + (a AND NOT 1023)" by (metis disjunctive_add_eq_or)
  then have "a AND NOT 1023 = a - (a AND 1023)" by (metis add_diff_cancel_left')
  moreover have "unat (a AND 1023) \<le> unat a" by (simp add: unat_and_3FF)
  ultimately have "unat (a AND NOT 1023) = unat a - unat a mod 1024" by (simp add: unat_sub_le unat_and_3FF)
  then show ?thesis by (simp only: minus_mod_eq_div_mult)
qed

lemma next_generation: "(old + 4096 :: u32) AND NOT 1023 \<noteq> old AND NOT 1023"
proof
  assume "(old + 4096) AND NOT 1023 = old AND NOT 1023"
  then have "unat (old + 4096) div 1024 * 1024 = unat old div 1024 * 1024"
    unfolding unat_and_not_1023 [symmetric] by (rule arg_cong)
  then have "unat (old + 4096) div 1024 = unat old div 1024" by simp
  moreover have "unat (old + 4096) div 1024 \<noteq> unat old div 1024"
  proof (cases "unat old + 4096 < 4294967296")
    case True
    then have "unat (old + 4096) = unat old + 4 * 1024" using unat_add_less [of old 4096] by simp
    then show ?thesis by simp
  next
    case False
    have "unat (old + 4096) = (unat old + 4096) mod 4294967296" by (simp add: unat_word_ariths)
    also have "\<dots> = (unat old + 4096 - 4294967296) mod 4294967296" using False by (intro le_mod_geq) simp
    also have "\<dots> = unat old + 4096 - 4294967296" using u32_less [of old] by (intro mod_less) linarith
    finally have "unat (old + 4096) < 4096" using u32_less [of old] by linarith
    then have "unat (old + 4096) div 1024 < 4" by (intro less_mult_imp_div_less) simp
    moreover have "4096 div 1024 \<le> unat old div 1024" using False by (intro div_le_mono) linarith
    ultimately show ?thesis by simp
  qed
  ultimately show False by simp
qed

text \<open>C32: the id of a new environment is positive, carries the slot in its low bits, so that \<open>envid2env\<close> finds
  the slot again, and differs from the id the slot had before: a stale id is not accepted for the
  environment that reuses the slot. This includes the wrap-around of the generation.
\<close>

theorem new_envid_fresh:
  assumes "e < NENV"
  shows "0 < sint (new_envid old e) \<and> ENVX (new_envid old e) = e \<and> new_envid old e \<noteq> old"
proof -
  define g where "g = (old + 4096) AND NOT 1023"
  define h where "h = (if sint g \<le> 0 then 4096 else g)"
  define w :: u32 where "w = of_nat e"
  have id: "new_envid old e = h OR w"
    by (simp add: new_envid_def g_def h_def w_def ENVGENSHIFT_def NENV_def Let_def)
  have w: "unat w = e" "unat w < 1024" using assms by (simp_all add: w_def NENV_def unat_of_nat)
  have wl: "w AND 1023 = w" by (rule low_bits [OF w(2)])
  have wh: "w AND NOT 1023 = 0" by (subst wl [symmetric]) (rule bit_word_eqI, auto simp: bit_simps)
  have hh: "h AND NOT 1023 = h" by (auto simp: h_def g_def ac_simps)
  have hl: "h AND 1023 = 0" by (subst hh [symmetric]) (rule bit_word_eqI, auto simp: bit_simps)
  have h: "0 < sint h" by (simp add: h_def)
  have hw: "(h OR w) AND NOT 1023 = h" unfolding bit.conj_disj_distrib2 hh wh by simp
  have "\<not> bit h 31" using h bit_last_iff [of h] by auto
  moreover have "\<not> bit w 31" by (subst wl [symmetric]) (simp add: bit_simps)
  ultimately have "0 \<le> sint (h OR w)" using bit_last_iff [of "h OR w"] by (auto simp: bit_or_iff)
  moreover have "h OR w \<noteq> 0" using h hw by auto
  ultimately have "0 < sint (h OR w)" by (metis order_le_less signed_eq_0_iff)
  moreover have "ENVX (h OR w) = e" by (simp add: ENVX_def bit.conj_disj_distrib2 hl wl w)
  moreover have "h OR w \<noteq> old"
  proof
    assume "h OR w = old"
    then have o: "old AND NOT 1023 = h" using hw by simp
    show False
    proof (cases "sint g \<le> 0")
      case False
      then show False using o next_generation [of old] by (simp add: h_def g_def)
    next
      case True
      then have "unat old div 1024 * 1024 = 4096" using unat_and_not_1023 [of old] unfolding o by (simp add: h_def)
      then have "unat old div 1024 = 4" by simp
      then have "unat old < 5120" "4096 \<le> unat old"
        using div_mult_mod_eq [of "unat old" 1024] mod_less_divisor [of 1024 "unat old"] by linarith+
      then have "unat (old + 4096) = unat old + 4096" by (simp add: unat_word_ariths)
      then have "unat g = 8192" using \<open>unat old div 1024 = 4\<close> unat_and_not_1023 [of "old + 4096"] unfolding g_def by simp
      then have "g = 8192" by (simp add: word_unat_eq_iff)
      then show False using True by simp
    qed
  qed
  ultimately show ?thesis by (simp add: id)
qed

theorem new_envid_fresh_witness:
  "0 < sint (new_envid 0x7FFFF003 3) \<and> ENVX (new_envid 0x7FFFF003 3) = 3 \<and> new_envid 0x7FFFF003 3 \<noteq> 0x7FFFF003"
  by (rule new_envid_fresh) (simp add: NENV_def)

section \<open>Round robin\<close>

lemma pick_Some:
  assumes "pick es st i k = Some e"
  shows "\<exists>j. i \<le> j \<and> j < i + k \<and> e = (st + j) mod NENV \<and> env_status (es e) = ENV_RUNNABLE
    \<and> (\<forall>l. i \<le> l \<and> l < j \<longrightarrow> env_status (es ((st + l) mod NENV)) \<noteq> ENV_RUNNABLE)"
  using assms
proof (induction k arbitrary: i)
  case (Suc k)
  show ?case
  proof (cases "env_status (es ((st + i) mod NENV)) = ENV_RUNNABLE")
    case True
    then show ?thesis using Suc.prems by (intro exI [of _ i]) (auto simp: Let_def)
  next
    case False
    then obtain j where j: "Suc i \<le> j" "j < Suc i + k" "e = (st + j) mod NENV" "env_status (es e) = ENV_RUNNABLE"
        "\<forall>l. Suc i \<le> l \<and> l < j \<longrightarrow> env_status (es ((st + l) mod NENV)) \<noteq> ENV_RUNNABLE"
      using Suc.IH [of "Suc i"] Suc.prems by (auto simp: Let_def)
    moreover have "env_status (es ((st + l) mod NENV)) \<noteq> ENV_RUNNABLE" if "i \<le> l" "l < j" for l
      using that False j(5) by (cases "l = i") auto
    ultimately show ?thesis by (intro exI [of _ j]) auto
  qed
qed simp

lemma pick_None: "pick es st i k = None \<Longrightarrow> i \<le> j \<Longrightarrow> j < i + k \<Longrightarrow> env_status (es ((st + j) mod NENV)) \<noteq> ENV_RUNNABLE"
proof (induction k arbitrary: i)
  case (Suc k)
  then show ?case by (cases "j = i") (auto simp: Let_def split: if_splits)
qed simp

text \<open>The distance of slot \<open>e\<close> after slot \<open>c\<close> in circular order.\<close>

definition ahead :: "nat \<Rightarrow> nat \<Rightarrow> nat" where "ahead c e = (if c \<le> e then e - c else e + NENV - c)"

lemma mod_NENV: "m < 2 * NENV \<Longrightarrow> m mod NENV = (if m < NENV then m else m - NENV)"
  by (auto simp: NENV_def le_mod_geq)

lemma ahead_add: "c < NENV \<Longrightarrow> e < NENV \<Longrightarrow> (c + ahead c e) mod NENV = e"
  by (subst mod_NENV) (auto simp: ahead_def)

lemma ahead_less: "c < NENV \<Longrightarrow> e < NENV \<Longrightarrow> ahead c e < NENV"
  by (auto simp: ahead_def)

lemma ahead_0: "c < NENV \<Longrightarrow> e < NENV \<Longrightarrow> ahead c e = 0 \<longleftrightarrow> e = c"
  by (auto simp: ahead_def)

lemma ahead_step:
  assumes "c < NENV" "e < NENV" "j \<le> ahead c e"
  shows "ahead ((c + j) mod NENV) e = ahead c e - j"
proof -
  have "c + j < 2 * NENV" using assms by (auto simp: ahead_def split: if_splits)
  from mod_NENV [OF this] assms show ?thesis by (auto simp: ahead_def split: if_splits)
qed

text \<open>
  A CPU that runs environment \<open>c\<close> outside the kernel: the ids name their slots, the environments in use
  have an address space.
\<close>

definition sched_ok :: "nat \<Rightarrow> 'a jos_scheme \<Rightarrow> bool" where
  "sched_ok c s \<longleftrightarrow> c < NENV \<and> curenv s = Some c \<and> env_status (envs s c) = ENV_RUNNING \<and> env_cpunum (envs s c) = cpunum s
     \<and> kernel_lock s = None \<and> cpu_status (jcpus s (cpunum s)) = CPU_STARTED
     \<and> (\<forall>i<NENV. env_status (envs s i) \<noteq> ENV_FREE \<longrightarrow> ENVX (env_id (envs s i)) = i \<and> env_pgdir (envs s i) \<noteq> None)"

text \<open>The trap frame of an environment that calls \<open>sys_yield\<close>.\<close>

definition yield_tf :: "Trapframe \<Rightarrow> bool" where
  "yield_tf tf \<longleftrightarrow> tf_trapno tf = J_T_SYSCALL \<and> reg_eax (tf_regs tf) = 10 \<and> tf_cs tf AND 3 = 3"

lemma env_run_step:
  assumes "c < NENV" "curenv s = Some c" "env_status (envs s c) = ENV_RUNNING" "kernel_lock s = Some (cpunum s)"
    "cpu_status (jcpus s (cpunum s)) = CPU_STARTED" "e < NENV" "env_status (envs s e) \<noteq> ENV_FREE"
    "\<forall>i<NENV. env_status (envs s i) \<noteq> ENV_FREE \<longrightarrow> ENVX (env_id (envs s i)) = i \<and> env_pgdir (envs s i) \<noteq> None"
  shows "\<exists>t. env_run e s = Switch t \<and> sched_ok e t
    \<and> (\<forall>i. i \<noteq> c \<and> i \<noteq> e \<longrightarrow> env_status (envs t i) = env_status (envs s i))"
proof -
  obtain d where d: "env_pgdir (envs s e) = Some d" using assms(6-8) by auto
  show ?thesis using assms d
    by (auto simp: env_run_def lcr3_def spin_unlock_def env_pop_tf_def Let_def sched_ok_def curenv_def
        upd_env_def set_curenv_def)
qed

lemma trap_yield:
  assumes "sched_ok c s" "yield_tf tf"
  shows "\<exists>t. jos_trap getc mon False tf s = Switch t \<and>
    (case pick (envs s) c 0 NENV of None \<Rightarrow> sched_ok c t
     | Some e \<Rightarrow> sched_ok e t \<and> (\<forall>i. i \<noteq> c \<and> i \<noteq> e \<longrightarrow> env_status (envs t i) = env_status (envs s i)))"
proof -
  define u where "u = upd_env c (\<lambda>x. x\<lparr>env_tf := tf\<rparr>)
    (s\<lparr>jcpus := (jcpus s)(cpunum s := (jcpus s (cpunum s))\<lparr>cpu_status := CPU_STARTED\<rparr>), kernel_lock := Some (cpunum s)\<rparr>)"
  note ok = assms(1) [unfolded sched_ok_def]
  have st: "env_status (envs u i) = env_status (envs s i)" "env_id (envs u i) = env_id (envs s i)"
      "env_pgdir (envs u i) = env_pgdir (envs s i)" "env_cpunum (envs u i) = env_cpunum (envs s i)" for i
    by (simp_all add: u_def upd_env_def)
  have pk: "pick (envs u) st i k = pick (envs s) st i k" for st i k
    by (induction k arbitrary: i) (simp_all add: st Let_def)
  have u: "curenv u = Some c" "kernel_lock u = Some (cpunum u)" "cpunum u = cpunum s"
      "cpu_status (jcpus u (cpunum u)) = CPU_STARTED"
    using ok by (simp_all add: u_def upd_env_def curenv_def)
  have id: "ENVX (env_id (envs u c)) = c" using ok by (simp add: st)
  have run: "\<exists>t. env_run e u = Switch t \<and> sched_ok e t
      \<and> (\<forall>i. i \<noteq> c \<and> i \<noteq> e \<longrightarrow> env_status (envs t i) = env_status (envs s i))"
    if "e < NENV" "env_status (envs s e) \<noteq> ENV_FREE" for e
    using env_run_step [of c u e] ok u that by (simp add: st)
  have y: "\<exists>t. sched_yield u = Switch t \<and> (case pick (envs s) c 0 NENV of None \<Rightarrow> sched_ok c t
     | Some e \<Rightarrow> sched_ok e t \<and> (\<forall>i. i \<noteq> c \<and> i \<noteq> e \<longrightarrow> env_status (envs t i) = env_status (envs s i)))"
  proof (cases "pick (envs s) c 0 NENV")
    case None
    then show ?thesis using run [of c] ok u by (auto simp: sched_yield_def id pk st)
  next
    case (Some e)
    then have "e < NENV" "env_status (envs s e) \<noteq> ENV_FREE" using pick_Some [OF Some] by (auto simp: NENV_def)
    then show ?thesis using run [of e] Some u by (auto simp: sched_yield_def id pk)
  qed
  then obtain t where t: "sched_yield u = Switch t" by blast
  have D: "trap_dispatch getc mon (Some c) tf u = Switch t"
    using assms(2) t by (simp add: trap_dispatch_def yield_tf_def jos_syscall_def sys_yield_def
        J_T_SYSCALL_def J_T_PGFLT_def T_BRKPT_def)
  have "jos_trap getc mon False tf s = Switch t"
    using ok assms(2) D unfolding u_def
    by (simp add: jos_trap_def yield_tf_def spin_lock_def curenv_def Let_def)
  then show ?thesis using y t by auto
qed

text \<open>Successive traps of the environments the CPU runs.\<close>

primrec traps :: "('a jos_scheme \<Rightarrow> (int, 'a jos_scheme) res) \<Rightarrow> ('a jos_scheme \<Rightarrow> (unit, 'a jos_scheme) res)
    \<Rightarrow> Trapframe list \<Rightarrow> 'a jos_scheme \<Rightarrow> (unit, 'a jos_scheme) res" where
  "traps getc mon [] s = Switch s"
| "traps getc mon (tf # tfs) s = (case jos_trap getc mon False tf s of Switch t \<Rightarrow> traps getc mon tfs t | r \<Rightarrow> r)"

text \<open>C33: round robin is fair. Whenever an environment is runnable and the environments that get the CPU give
  it up with \<open>sys_yield\<close>, it is running after at most as many yields as slots lie between the
  current environment and it; every trap on the way ends in an environment, never in a panic or a halt.
\<close>

theorem yield_fair:
  assumes "sched_ok c s" "e < NENV" "env_status (envs s e) = ENV_RUNNABLE"
    "ahead c e \<le> length tfs" "list_all yield_tf tfs"
  shows "\<exists>n u. n \<le> ahead c e \<and> traps getc mon (take n tfs) s = Switch u \<and> curenv u = Some e"
  using assms
proof (induction "ahead c e" arbitrary: c s tfs rule: less_induct)
  case less
  note ok = less.prems(1) [unfolded sched_ok_def]
  have ce: "e \<noteq> c" "c < NENV" using ok less.prems(3) by auto
  then have a0: "ahead c e \<noteq> 0" using ahead_0 less.prems(2) by blast
  then obtain tf rest where tfs: "tfs = tf # rest" using less.prems(4) by (cases tfs) auto
  obtain t where t: "jos_trap getc mon False tf s = Switch t"
      "case pick (envs s) c 0 NENV of None \<Rightarrow> sched_ok c t
       | Some e \<Rightarrow> sched_ok e t \<and> (\<forall>i. i \<noteq> c \<and> i \<noteq> e \<longrightarrow> env_status (envs t i) = env_status (envs s i))"
    using trap_yield [OF less.prems(1), of tf] less.prems(5) tfs by auto
  have at: "(c + ahead c e) mod NENV = e" "ahead c e < NENV"
    using ahead_add ahead_less ce less.prems(2) by blast+
  then obtain e' where e': "pick (envs s) c 0 NENV = Some e'"
    using pick_None [of "envs s" c 0 NENV "ahead c e"] less.prems(3) by (cases "pick (envs s) c 0 NENV") auto
  obtain j where j: "j < NENV" "e' = (c + j) mod NENV" "env_status (envs s e') = ENV_RUNNABLE"
      "\<forall>l. l < j \<longrightarrow> env_status (envs s ((c + l) mod NENV)) \<noteq> ENV_RUNNABLE"
    using pick_Some [OF e'] by auto
  have ja: "j \<le> ahead c e" using j(4) at less.prems(3) by (metis not_le)
  have j0: "j \<noteq> 0"
  proof
    assume "j = 0"
    then have "e' = c" using j(2) ce(2) by simp
    then show False using j(3) ok by simp
  qed
  have okt: "sched_ok e' t" "\<And>i. i \<noteq> c \<Longrightarrow> i \<noteq> e' \<Longrightarrow> env_status (envs t i) = env_status (envs s i)"
    using t(2) e' by auto
  show ?case
  proof (cases "e' = e")
    case True
    then show ?thesis using okt(1) t(1) tfs a0 by (intro exI [of _ 1] exI [of _ t]) (auto simp: sched_ok_def)
  next
    case False
    have d: "ahead e' e = ahead c e - j" using ahead_step [OF ce(2) less.prems(2) ja] j(2) by simp
    have "ahead e' e \<le> length rest" unfolding d using less.prems(4) tfs j0 by simp
    then obtain n u where "n \<le> ahead e' e" "traps getc mon (take n rest) t = Switch u" "curenv u = Some e"
      using d less.hyps [of e' t rest] okt ce False less.prems j0 a0 tfs by auto
    then show ?thesis using d j0 ja t(1) tfs by (intro exI [of _ "Suc n"] exI [of _ u]) auto
  qed
qed

text \<open>The machine with three environments, the first running.\<close>

definition ex_sched :: jos where
  "ex_sched = ex_jos\<lparr>kernel_lock := None, envs := (\<lambda>i. if i < 3 then zero_env\<lparr>env_id := 0x1000 + of_nat i,
     env_status := (if i = 0 then ENV_RUNNING else ENV_RUNNABLE), env_pgdir := Some 1\<rparr> else zero_env)\<rparr>"

definition ex_yield :: Trapframe where
  "ex_yield = zero_tf\<lparr>tf_trapno := 48, tf_cs := 0x1b, tf_regs := (tf_regs zero_tf)\<lparr>reg_eax := 10\<rparr>\<rparr>"

lemma ex_sched_ok: "sched_ok 0 ex_sched"
proof -
  have "ENVX (0x1000 + of_nat i) = i" if i: "i < 3" for i
  proof -
    consider "i = 0" | "i = 1" | "i = 2" using i by fastforce
    then show ?thesis by cases (simp_all add: ENVX_def)
  qed
  then show ?thesis
    by (auto simp: sched_ok_def ex_sched_def ex_jos_def NENV_def curenv_def zero_env_def)
qed

theorem yield_fair_witness:
  "\<exists>n u. n \<le> 2 \<and> traps (\<lambda>s. Ok 0 s) (\<lambda>s. Ok () s) (take n [ex_yield, ex_yield]) ex_sched = Switch u \<and> curenv u = Some 2"
  using yield_fair [OF ex_sched_ok, of 2 "[ex_yield, ex_yield]" "\<lambda>s. Ok 0 s" "\<lambda>s. Ok () s"]
  by (simp add: NENV_def ahead_def ex_sched_def yield_tf_def ex_yield_def J_T_SYSCALL_def)

section \<open>System calls on address spaces\<close>

lemma syscall_perm: "perm AND NOT PTE_SYSCALL = 0 \<Longrightarrow> perm < 4096"
proof -
  assume a: "perm AND NOT PTE_SYSCALL = 0"
  have "perm = (perm AND PTE_SYSCALL) OR (perm AND NOT PTE_SYSCALL)" by (rule bit_word_eqI) (auto simp: bit_simps)
  then have "perm \<le> PTE_SYSCALL" using a word_and_le1 [of perm PTE_SYSCALL] by simp
  then show "perm < 4096"
    by (rule le_less_trans) (simp add: PTE_SYSCALL_def PTE_AVAIL_def PTE_P_def PTE_W_def PTE_U_def)
qed

text \<open>The current environment is \<open>c\<close>, and the environments in use have their page directory in \<open>D\<close>.\<close>

definition envs_ok :: "nat set \<Rightarrow> nat \<Rightarrow> 'a jos_scheme \<Rightarrow> bool" where
  "envs_ok D c s \<longleftrightarrow> curenv s = Some c \<and> c < NENV \<and> env_status (envs s c) \<noteq> ENV_FREE
     \<and> (\<forall>e<NENV. env_status (envs s e) \<noteq> ENV_FREE \<longrightarrow> (\<exists>d\<in>D. env_pgdir (envs s e) = Some d))"

lemma envid2env_ok:
  assumes "envs_ok D c s"
  shows "envid2env envid True s = Ok (- E_BAD_ENV, None) s
    \<or> (\<exists>e d. envid2env envid True s = Ok (0, Some e) s \<and> d \<in> D \<and> env_pgdir (envs s e) = Some d)"
proof -
  obtain dc where c: "curenv s = Some c" "env_pgdir (envs s c) = Some dc" "dc \<in> D"
    using assms by (auto simp: envs_ok_def)
  show ?thesis
  proof (cases "envid = 0 \<or> env_status (envs s (ENVX envid)) = ENV_FREE")
    case True
    then show ?thesis using c by (auto simp: envid2env_def)
  next
    case False
    then obtain d where "env_pgdir (envs s (ENVX envid)) = Some d" "d \<in> D"
      using assms ENVX_less [of envid] by (auto simp: envs_ok_def)
    then show ?thesis using False c by (simp add: envid2env_def Let_def)
  qed
qed

lemma sys_page_alloc_safe:
  assumes inv: "vm_inv D ext xs s" and ok: "envs_ok D c s"
  shows "returns (sys_page_alloc envid va perm s) (\<lambda>r t. (\<exists>ys. vm_inv D ext ys t) \<and>
    (r = 0 \<and> (\<exists>d\<in>D. \<exists>p\<in>set xs. \<forall>z\<in>slots D. ent t z = ((ent s)(slot d va := Some p)) z)
     \<or> r \<in> {- E_BAD_ENV, - J_E_INVAL, - E_NO_MEM}))"
proof (cases "envid2env envid True s = Ok (- E_BAD_ENV, None) s")
  case True
  then show ?thesis using inv by (auto simp: sys_page_alloc_def E_BAD_ENV_def)
next
  case False
  then obtain e d where e: "envid2env envid True s = Ok (0, Some e) s" "d \<in> D" "env_pgdir (envs s e) = Some d"
    using envid2env_ok [OF ok] by blast
  show ?thesis
  proof (cases "va \<ge> UTOP \<or> PGOFF va \<noteq> 0 \<or> perm AND PTE_U = 0 \<or> perm AND PTE_P = 0 \<or> perm AND NOT PTE_SYSCALL \<noteq> 0")
    case True
    then show ?thesis using inv e by (auto simp: sys_page_alloc_def)
  next
    case args: False
    then have va: "va < UTOP" and pm: "perm < 4096" using syscall_perm by auto
    show ?thesis
    proof (cases xs)
      case Nil
      then show ?thesis using inv e args vm_invD(1) [OF inv] by (auto simp: sys_page_alloc_def page_alloc_none)
    next
      case (Cons x ys)
      have x0: "pp_ref (pages s x) = 0" "x < npages s" "x \<notin> D" "x \<notin> set ys" "\<forall>y\<in>dirs D. tab s y \<noteq> Some x"
        using vm_inv_free [OF inv, of x] vm_invD(1) [OF inv] Cons by (auto simp: free_pages_def)
      obtain t where t: "page_alloc ALLOC_ZERO s = Ok (Some x) t" "vm_inv D ext ys t"
          "\<forall>z\<in>slots D. ent t z = ent s z" "\<forall>y\<in>dirs D. tab t y = tab s y" "\<forall>p. pp_ref (pages t p) = pp_ref (pages s p)"
          "pm_frame s t"
        using page_alloc_vm [of D ext x ys s ALLOC_ZERO] inv Cons by (auto simp: returns_iff)
      have n: "npages t = npages s" "envs t = envs s" using t(6) by (simp_all add: pm_frame_def)
      have "holders (dirs D) (tab t) x = 0"
        using holders_0 [of "dirs D" "tab t" x] vm_invD(2) [OF inv] t(4) x0(5) by auto
      from page_insert_spec [OF t(2) e(2) va _ x0(3,4) this _ pm]
      have pi: "returns (page_insert (Some d) x va perm t) (\<lambda>r u. (\<exists>ys. vm_inv D ext ys u) \<and>
          (if tab t (d, unat (PDX va)) = None \<and> ys = [] then r = - E_NO_MEM \<and> u = t
           else r = 0 \<and> (\<forall>z\<in>slots D. ent u z = ((ent t)(slot d va := Some x)) z)))"
        using x0 n t(5) by simp
      have pf: "returns (page_free x t) (\<lambda>_ u. vm_inv D ext (x # ys) u)"
        by (rule page_free_vm [OF t(2)]) (use x0 n t(5) in auto)
      have sp: "sys_page_alloc envid va perm s = bind (page_insert (Some d) x va perm t) (\<lambda>r s.
          if r < 0 then bind (page_free x s) (\<lambda>_ s. Ok (- E_NO_MEM) s) else Ok 0 s)"
        using args e n by (simp add: sys_page_alloc_def t(1))
      show ?thesis unfolding sp returns_bind using pi
        by (rule returns_mono) (use pf Cons e(2) t(3) in \<open>auto simp: E_NO_MEM_def split: if_splits elim!: returns_mono\<close>)
    qed
  qed
qed

lemma sys_page_unmap_safe:
  assumes inv: "vm_inv D ext xs s" and ok: "envs_ok D c s"
  shows "returns (sys_page_unmap envid va s) (\<lambda>r t. (\<exists>ys. vm_inv D ext ys t) \<and> r \<in> {0, - E_BAD_ENV, - J_E_INVAL})"
proof (cases "envid2env envid True s = Ok (- E_BAD_ENV, None) s")
  case True
  then show ?thesis using inv by (auto simp: sys_page_unmap_def E_BAD_ENV_def)
next
  case False
  then obtain e d where e: "envid2env envid True s = Ok (0, Some e) s" "d \<in> D" "env_pgdir (envs s e) = Some d"
    using envid2env_ok [OF ok] by blast
  show ?thesis
  proof (cases "va \<ge> UTOP \<or> PGOFF va \<noteq> 0")
    case True
    then show ?thesis using inv e by (auto simp: sys_page_unmap_def)
  next
    case va: False
    then have "va < UTOP" by auto
    from page_remove_spec [OF inv e(2) this]
    have "returns (page_remove (Some d) va s) (\<lambda>_ t. \<exists>ys. vm_inv D ext ys t)" by (auto elim!: returns_mono)
    then show ?thesis using va e by (auto simp: sys_page_unmap_def elim!: returns_mono)
  qed
qed

lemma sys_page_map_safe:
  assumes inv: "vm_inv D ext xs s" and ok: "envs_ok D c s"
    and ref: "\<forall>p<npages s. unat (pp_ref (pages s p)) < 65535"
  shows "returns (sys_page_map src sva dst dva perm s) (\<lambda>r t. (\<exists>ys. vm_inv D ext ys t)
    \<and> r \<in> {0, - E_BAD_ENV, - J_E_INVAL, - E_NO_MEM})"
proof (cases "envid2env src True s = Ok (- E_BAD_ENV, None) s \<or> envid2env dst True s = Ok (- E_BAD_ENV, None) s")
  case True
  then show ?thesis
    using inv envid2env_ok [OF ok, of src] envid2env_ok [OF ok, of dst] by (auto simp: sys_page_map_def E_BAD_ENV_def)
next
  case False
  then obtain e d e' d' where e: "envid2env src True s = Ok (0, Some e) s" "d \<in> D" "env_pgdir (envs s e) = Some d"
      and e': "envid2env dst True s = Ok (0, Some e') s" "d' \<in> D" "env_pgdir (envs s e') = Some d'"
    using envid2env_ok [OF ok] by blast
  show ?thesis
  proof (cases "sva \<ge> UTOP \<or> PGOFF sva \<noteq> 0 \<or> dva \<ge> UTOP \<or> PGOFF dva \<noteq> 0 \<or> perm AND PTE_SYSCALL = 0 \<or> perm AND NOT PTE_SYSCALL \<noteq> 0")
    case True
    then show ?thesis using inv e e' by (auto simp: sys_page_map_def)
  next
    case args: False
    then have va: "sva < UTOP" "dva < UTOP" and pm: "perm < 4096" using syscall_perm by auto
    show ?thesis
    proof (cases "ent s (slot d sva)")
      case None
      then show ?thesis using args e e' inv page_lookup_none [OF inv e(2) va(1)] by (auto simp: sys_page_map_def)
    next
      case (Some q)
      then obtain p where p: "tab s (d, unat (PDX sva)) = Some p" using ent_tab by (metis slot_def)
      note lk = page_lookup_some [OF inv e(2) va(1) Some p]
      note q = vm_invD(8,9,10) [OF inv slot_in [OF e(2) va(1)] Some]
      have "q \<notin> set xs" using vm_inv_free(4) [OF inv _ slot_in [OF e(2) va(1)]] Some by auto
      from page_insert_spec [OF inv e'(2) va(2) q(1,2) this q(3) _ pm]
      have "returns (page_insert (Some d') q dva perm s) (\<lambda>r t. (\<exists>ys. vm_inv D ext ys t) \<and> r \<in> {0, - E_NO_MEM})"
        using ref q(1) by (auto split: if_splits elim!: returns_mono)
      then show ?thesis using args e e' lk inv
        by (auto simp: sys_page_map_def E_NO_MEM_def elim!: returns_mono)
    qed
  qed
qed

text \<open>C34: the system calls on address spaces never break the kernel. Whatever an environment passes to
  \<open>sys_page_alloc\<close>, \<open>sys_page_map\<close> and \<open>sys_page_unmap\<close>, the call comes back with 0 or an error code, no panic and
  no fault, and the reference counts stay exact; a page that \<open>sys_page_alloc\<close> hands out comes from the free
  list, so it is mapped nowhere else. The counts are 16 bits wide: for \<open>sys_page_map\<close> they must not be full.
\<close>

theorem page_syscalls_safe:
  assumes "vm_inv D ext xs s" "envs_ok D c s" "\<forall>p<npages s. unat (pp_ref (pages s p)) < 65535"
  shows "returns (sys_page_alloc envid va perm s) (\<lambda>r t. (\<exists>ys. vm_inv D ext ys t) \<and>
      (r = 0 \<and> (\<exists>d\<in>D. \<exists>p\<in>set xs. \<forall>z\<in>slots D. ent t z = ((ent s)(slot d va := Some p)) z)
       \<or> r \<in> {- E_BAD_ENV, - J_E_INVAL, - E_NO_MEM}))
    \<and> returns (sys_page_map src sva dst dva mperm s) (\<lambda>r t. (\<exists>ys. vm_inv D ext ys t)
      \<and> r \<in> {0, - E_BAD_ENV, - J_E_INVAL, - E_NO_MEM})
    \<and> returns (sys_page_unmap envid va s) (\<lambda>r t. (\<exists>ys. vm_inv D ext ys t) \<and> r \<in> {0, - E_BAD_ENV, - J_E_INVAL})"
  using sys_page_alloc_safe [OF assms(1,2)] sys_page_map_safe [OF assms] sys_page_unmap_safe [OF assms(1,2)] by blast

theorem page_syscalls_safe_witness:
  "returns (sys_page_unmap 0 0 ex_jos) (\<lambda>r t. (\<exists>ys. vm_inv {1} ex_ext ys t) \<and> r \<in> {0, - E_BAD_ENV, - J_E_INVAL})"
proof -
  have "envs_ok {1} 0 ex_jos" by (auto simp: envs_ok_def ex_jos_def curenv_def NENV_def zero_env_def)
  moreover have "\<forall>p<npages ex_jos. unat (pp_ref (pages ex_jos p)) < 65535" by (simp add: ex_jos_def)
  ultimately show ?thesis using page_syscalls_safe [OF ex_inv, of 0 0 0] by blast
qed

text \<open>C35: an environment can change only itself and its children. On an id that names no environment, or one
  that is neither the caller nor a child of the caller, the system calls refuse with \<open>-E_BAD_ENV\<close> (or,
  for a bad status, \<open>-E_INVAL\<close>) and leave the kernel state as it was.
\<close>

theorem env_syscalls_guarded:
  assumes "curenv s = Some c" "envid \<noteq> 0"
    "env_status (envs s (ENVX envid)) = ENV_FREE \<or> env_id (envs s (ENVX envid)) \<noteq> envid
      \<or> ENVX envid \<noteq> c \<and> env_parent_id (envs s (ENVX envid)) \<noteq> env_id (envs s c)"
  shows "sys_env_destroy envid s = Ok (- E_BAD_ENV) s \<and> sys_page_alloc envid va perm s = Ok (- E_BAD_ENV) s
    \<and> sys_page_unmap envid va s = Ok (- E_BAD_ENV) s
    \<and> sys_page_map envid va 0 dva perm s = Ok (- E_BAD_ENV) s \<and> sys_page_map 0 va envid dva perm s = Ok (- E_BAD_ENV) s
    \<and> sys_env_set_pgfault_upcall envid f s = Ok (- E_BAD_ENV) s
    \<and> sys_env_set_status envid st s = Ok (if st = 2 \<or> st = 3 then - E_BAD_ENV else - J_E_INVAL) s"
proof -
  have e: "envid2env envid True s = Ok (- E_BAD_ENV, None) s" using assms by (auto simp: envid2env_def Let_def)
  have z: "envid2env 0 True s = Ok (0, Some c) s" using assms(1) by (simp add: envid2env_def)
  have n: "- E_BAD_ENV < 0" by (simp add: E_BAD_ENV_def)
  show ?thesis using n
    by (simp add: e z sys_env_destroy_def sys_page_alloc_def sys_page_unmap_def sys_page_map_def
        sys_env_set_pgfault_upcall_def sys_env_set_status_def)
qed

theorem env_syscalls_guarded_witness:
  "sys_env_destroy 0x1001 ex_sched = Ok (- E_BAD_ENV) ex_sched \<and> sys_page_unmap 0x1001 0 ex_sched = Ok (- E_BAD_ENV) ex_sched"
  using env_syscalls_guarded [of ex_sched 0 "0x1001"]
  by (simp add: ex_sched_def ex_jos_def curenv_def ENVX_def zero_env_def)

end
