(* ===== verification/JDebug.thy ===== *)
theory JDebug
  imports Prelude
begin

text \<open>
  Debugging information of JOS, \<open>src/lab/kern/kdebug.c\<close>: the binary search in the table of stabs and
  the search for the function, file and line of an address in given tables. An \<open>int\<close> index is an
  integer; the indices the code passes are not negative.
\<close>

section \<open>The search\<close>

record Stab =
  n_strx :: u32
  n_type :: u8
  n_other :: u8
  n_desc :: u16
  n_value :: u32

function find_type :: "(int \<Rightarrow> Stab) \<Rightarrow> u8 \<Rightarrow> int \<Rightarrow> int \<Rightarrow> int" where
  "find_type st ty l m = (if m \<ge> l \<and> n_type (st m) \<noteq> ty then find_type st ty l (m - 1) else m)"
  by pat_completeness auto
termination by (relation "measure (\<lambda>(st, ty, l, m). nat (m - l + 1))") auto

declare find_type.simps [simp del]

lemma find_type_le: "find_type st ty l m \<le> m"
proof (induction st ty l m rule: find_type.induct)
  case (1 st ty l m)
  then show ?case by (subst find_type.simps) (auto split: if_splits)
qed

lemma find_type_at: "l \<le> find_type st ty l m \<Longrightarrow> n_type (st (find_type st ty l m)) = ty"
proof (induction st ty l m rule: find_type.induct)
  case (1 st ty l m)
  then show ?case by (cases "m \<ge> l \<and> n_type (st m) \<noteq> ty") (simp_all add: find_type.simps [of st ty l m])
qed

lemma find_type_none: "l \<le> k \<Longrightarrow> find_type st ty l m < k \<Longrightarrow> k \<le> m \<Longrightarrow> n_type (st k) \<noteq> ty"
proof (induction st ty l m rule: find_type.induct)
  case (1 st ty l m)
  then show ?case
    by (cases "m \<ge> l \<and> n_type (st m) \<noteq> ty"; cases "k = m") (simp_all add: find_type.simps [of st ty l m])
qed

lemma find_type_ge: "l \<le> m + 1 \<Longrightarrow> l - 1 \<le> find_type st ty l m"
proof (induction st ty l m rule: find_type.induct)
  case (1 st ty l m)
  then show ?case by (subst find_type.simps) auto
qed

text \<open>
  The loop of \<open>stab_binsearch\<close>: \<open>left\<close>, \<open>right\<close> are \<open>*region_left\<close>, \<open>*region_right\<close>. After an exact match \<open>l\<close> may
  stay where it is, but the next round is then no exact match, because \<open>addr\<close> was incremented.
\<close>

lemma double_less: "a < b \<Longrightarrow> c \<le> 1 \<Longrightarrow> 2 * a + c < 2 * b + (d :: nat)"
  by linarith

function stab_loop :: "(int \<Rightarrow> Stab) \<Rightarrow> u8 \<Rightarrow> int \<Rightarrow> int \<Rightarrow> int \<Rightarrow> int \<Rightarrow> bool \<Rightarrow> u32 \<Rightarrow> int \<times> int \<times> bool" where
  "stab_loop st ty l r left right any_matches addr =
    (if l \<le> r then
       let true_m = (l + r) div 2; m = find_type st ty l true_m in
       if m < l then stab_loop st ty (true_m + 1) r left right any_matches addr
       else if n_value (st m) < addr then stab_loop st ty (true_m + 1) r m right True addr
       else if n_value (st m) > addr then stab_loop st ty l (m - 1) left (m - 1) True addr
       else stab_loop st ty m r m right True (addr + 1)
     else (left, right, any_matches))"
  by pat_completeness auto
termination
proof (relation "measure (\<lambda>(st, ty, l, r, left, right, a, addr).
    2 * nat (r - l + 1) + (if n_value (st (find_type st ty l ((l + r) div 2))) = addr then 1 else 0))", goal_cases)
  case (5 st ty l r left right any addr tm m)
  have m: "m \<le> tm" using 5(3) find_type_le by metis
  show ?case
  proof (cases "m = l")
    case True
    then have "n_value (st (find_type st ty m ((m + r) div 2))) = addr" using 5 by auto
    then show ?thesis using True 5 by simp
  next
    case False
    then have "nat (r - m + 1) < nat (r - l + 1)" using 5 m by auto
    then show ?thesis unfolding in_measure prod.case by (rule double_less) simp
  qed
next
  case (4 st ty l r left right any addr tm m)
  then have "m \<le> tm" "tm \<le> r" using find_type_le by auto
  then have "nat ((m - 1) - l + 1) < nat (r - l + 1)" using 4 by auto
  then show ?case unfolding in_measure prod.case by (rule double_less) simp
next
  case (2 st ty l r left right any addr tm m)
  then have "nat (r - (tm + 1) + 1) < nat (r - l + 1)" by auto
  then show ?case unfolding in_measure prod.case by (rule double_less) simp
next
  case (3 st ty l r left right any addr tm m)
  then have "nat (r - (tm + 1) + 1) < nat (r - l + 1)" by auto
  then show ?case unfolding in_measure prod.case by (rule double_less) simp
qed auto

declare stab_loop.simps [simp del]

definition stab_binsearch :: "(int \<Rightarrow> Stab) \<Rightarrow> int \<Rightarrow> int \<Rightarrow> u8 \<Rightarrow> u32 \<Rightarrow> int \<times> int" where
  "stab_binsearch st region_left region_right ty addr =
    (let (left, right, any_matches) = stab_loop st ty region_left region_right region_left region_right False addr in
     if \<not> any_matches then (left, left - 1)
     else (find_type st ty (left + 1) right, right))"

section \<open>Debugging information of an address\<close>

definition N_FUN :: u8 where
  "N_FUN = 0x24"

definition N_SLINE :: u8 where
  "N_SLINE = 0x44"

definition N_SO :: u8 where
  "N_SO = 0x64"

definition N_SOL :: u8 where
  "N_SOL = 0x84"

definition N_PSYM :: u8 where
  "N_PSYM = 0xa0"

record Eipdebuginfo =
  eip_file :: string
  eip_line :: int
  eip_fn_name :: string
  eip_fn_namelen :: int
  eip_fn_addr :: u32
  eip_fn_narg :: int

text \<open>A pointer into the string table stands for the string that begins there.\<close>

definition str_at :: "string \<Rightarrow> u32 \<Rightarrow> string" where
  "str_at stabstr x = takeWhile (\<lambda>c. c \<noteq> CHR 0x00) (drop (unat x) stabstr)"

function file_stab :: "(int \<Rightarrow> Stab) \<Rightarrow> int \<Rightarrow> int \<Rightarrow> int" where
  "file_stab st lfile lline =
    (if lline \<ge> lfile \<and> n_type (st lline) \<noteq> N_SOL \<and> (n_type (st lline) \<noteq> N_SO \<or> n_value (st lline) = 0)
     then file_stab st lfile (lline - 1) else lline)"
  by pat_completeness auto
termination by (relation "measure (\<lambda>(st, lfile, lline). nat (lline - lfile + 1))") auto

declare file_stab.simps [simp del]

function count_args :: "(int \<Rightarrow> Stab) \<Rightarrow> int \<Rightarrow> int \<Rightarrow> int \<Rightarrow> int" where
  "count_args st rfun lline n =
    (if lline < rfun \<and> n_type (st lline) = N_PSYM then count_args st rfun (lline + 1) (n + 1) else n)"
  by pat_completeness auto
termination by (relation "measure (\<lambda>(st, rfun, lline, n). nat (rfun - lline))") auto

declare count_args.simps [simp del]

definition info_init :: "u32 \<Rightarrow> Eipdebuginfo" where
  "info_init addr = \<lparr>eip_file = ''<unknown>'', eip_line = 0, eip_fn_name = ''<unknown>'', eip_fn_namelen = 9,
     eip_fn_addr = addr, eip_fn_narg = 0\<rparr>"

text \<open>
  \<open>debuginfo_eip\<close> once the tables are chosen: \<open>st\<close> holds \<open>n\<close> stabs, \<open>stabstr\<close> is the string table. The result is the
  returned value and \<open>*info\<close>.
\<close>

definition debuginfo_eip :: "(int \<Rightarrow> Stab) \<Rightarrow> int \<Rightarrow> string \<Rightarrow> u32 \<Rightarrow> int \<times> Eipdebuginfo" where
  "debuginfo_eip st n stabstr addr =
    (let info = info_init addr in
     if stabstr = [] \<or> last stabstr \<noteq> CHR 0x00 then (- 1, info)
     else
       let (lfile, rfile) = stab_binsearch st 0 (n - 1) N_SO addr in
       if lfile = 0 then (- 1, info)
       else
         let (lfun, rfun) = stab_binsearch st lfile rfile N_FUN addr;
             (info, addr, lline, rline) =
               (if lfun \<le> rfun then
                  let info = (if unat (n_strx (st lfun)) < length stabstr
                              then info\<lparr>eip_fn_name := str_at stabstr (n_strx (st lfun))\<rparr> else info);
                      info = info\<lparr>eip_fn_addr := n_value (st lfun)\<rparr>
                  in (info, addr - eip_fn_addr info, lfun, rfun)
                else (info\<lparr>eip_fn_addr := addr\<rparr>, addr, lfile, rfile));
             info = info\<lparr>eip_fn_namelen := int (length (takeWhile (\<lambda>c. c \<noteq> CHR '':'') (eip_fn_name info)))\<rparr>;
             (lline, rline) = stab_binsearch st lline rline N_SLINE addr;
             info = info\<lparr>eip_line := (if lline \<le> rline then uint (n_desc (st rline)) else - 1)\<rparr>;
             lline = file_stab st lfile lline;
             info = (if lline \<ge> lfile \<and> unat (n_strx (st lline)) < length stabstr
                     then info\<lparr>eip_file := str_at stabstr (n_strx (st lline))\<rparr> else info);
             info = (if lfun < rfun then info\<lparr>eip_fn_narg := count_args st rfun (lfun + 1) (eip_fn_narg info)\<rparr> else info)
         in (0, info))"

lemma count_args_bounds: "n \<le> count_args st rfun lline n \<and> count_args st rfun lline n \<le> n + max 0 (rfun - lline)"
proof (induction st rfun lline n rule: count_args.induct)
  case (1 st rfun lline n)
  then show ?case by (subst (1 2) count_args.simps) auto
qed

lemma debuginfo_eip_result:
  "debuginfo_eip st n stabstr addr = (v, info) \<Longrightarrow>
   (v = 0 \<or> v = - 1 \<and> info = info_init addr) \<and> 0 \<le> eip_fn_narg info \<and>
   eip_fn_namelen info \<le> int (length (eip_fn_name info))"
  using count_args_bounds
  by (auto simp: debuginfo_eip_def info_init_def Let_def length_takeWhile_le split: prod.splits if_splits)

section \<open>The search finds the enclosing stab\<close>

text \<open>
  The stabs of the wanted type in the region are in the order of their addresses. An entry at exactly
  \<open>addr + 1\<close> is excluded: the increment of \<open>addr\<close> after an exact match takes it for a second match.
\<close>

definition stabs_sorted :: "(int \<Rightarrow> Stab) \<Rightarrow> u8 \<Rightarrow> int \<Rightarrow> int \<Rightarrow> bool" where
  "stabs_sorted st ty L R \<longleftrightarrow> (\<forall>i j. L \<le> i \<longrightarrow> i < j \<longrightarrow> j \<le> R \<longrightarrow> n_type (st i) = ty \<longrightarrow> n_type (st j) = ty \<longrightarrow>
     n_value (st i) < n_value (st j))"

definition stab_at :: "(int \<Rightarrow> Stab) \<Rightarrow> u8 \<Rightarrow> int \<Rightarrow> int \<Rightarrow> int \<Rightarrow> bool" where
  "stab_at st ty L R k \<longleftrightarrow> L \<le> k \<and> k \<le> R \<and> n_type (st k) = ty"

text \<open>The loop invariant: \<open>A\<close> is the address searched for, \<open>a\<close> the current value of \<open>addr\<close>.\<close>

definition search_inv :: "(int \<Rightarrow> Stab) \<Rightarrow> u8 \<Rightarrow> int \<Rightarrow> int \<Rightarrow> u32 \<Rightarrow> int \<Rightarrow> int \<Rightarrow> int \<Rightarrow> bool \<Rightarrow> u32 \<Rightarrow> bool" where
  "search_inv st ty L R A l r left any a \<longleftrightarrow>
     (a = A \<or> a = A + 1) \<and> L \<le> l \<and> r \<le> R \<and>
     (\<forall>k. stab_at st ty L R k \<longrightarrow> r < k \<longrightarrow> A < n_value (st k) \<and> any) \<and>
     (\<forall>k. stab_at st ty L R k \<longrightarrow> k < l \<longrightarrow> n_value (st k) \<le> A \<and> k \<le> left \<and> any) \<and>
     (stab_at st ty L R left \<and> n_value (st left) \<le> A \<or> (\<forall>k. stab_at st ty L R k \<longrightarrow> \<not> k < l))"

lemma search_inv_start: "search_inv st ty L R A L R L False A"
  by (auto simp: search_inv_def stab_at_def)

lemma search_invI:
  assumes "a = A \<or> a = A + 1" "L \<le> l" "r \<le> R"
    and "\<And>k. stab_at st ty L R k \<Longrightarrow> r < k \<Longrightarrow> A < n_value (st k) \<and> any"
    and "\<And>k. stab_at st ty L R k \<Longrightarrow> k < l \<Longrightarrow> n_value (st k) \<le> A \<and> k \<le> left \<and> any"
    and "stab_at st ty L R left \<and> n_value (st left) \<le> A \<or> (\<forall>k. stab_at st ty L R k \<longrightarrow> \<not> k < l)"
  shows "search_inv st ty L R A l r left any a"
  using assms unfolding search_inv_def by simp

lemma search_invD:
  assumes "search_inv st ty L R A l r left any a"
  shows "a = A \<or> a = A + 1" "L \<le> l" "r \<le> R"
    and "\<And>k. stab_at st ty L R k \<Longrightarrow> r < k \<Longrightarrow> A < n_value (st k) \<and> any"
    and "\<And>k. stab_at st ty L R k \<Longrightarrow> k < l \<Longrightarrow> n_value (st k) \<le> A \<and> k \<le> left \<and> any"
    and "stab_at st ty L R left \<and> n_value (st left) \<le> A \<or> (\<forall>k. stab_at st ty L R k \<longrightarrow> \<not> k < l)"
  using assms unfolding search_inv_def by simp_all

lemma stab_lt:
  "stabs_sorted st ty L R \<Longrightarrow> stab_at st ty L R j \<Longrightarrow> stab_at st ty L R k \<Longrightarrow> j < k \<Longrightarrow> n_value (st j) < n_value (st k)"
  by (simp add: stabs_sorted_def stab_at_def)

lemma find_type_greatest:
  "stab_at st ty L R k \<Longrightarrow> l \<le> k \<Longrightarrow> k \<le> tm \<Longrightarrow> k \<le> find_type st ty l tm"
  using find_type_none [of l k st ty tm] unfolding stab_at_def by (meson not_le)

lemma step_skip:
  assumes inv: "search_inv st ty L R A l r left any a" and m: "find_type st ty l tm < l" and lt: "l \<le> tm"
  shows "search_inv st ty L R A (tm + 1) r left any a"
proof -
  note d = search_invD [OF inv]
  have below: "k < l" if "stab_at st ty L R k" "k < tm + 1" for k
  proof (rule ccontr)
    assume "\<not> k < l"
    then show False using find_type_greatest [OF that(1), of l tm] that(2) m by linarith
  qed
  show ?thesis
  proof (rule search_invI)
    show "a = A \<or> a = A + 1" "r \<le> R" by fact+
    show "L \<le> tm + 1" using d(2) lt by linarith
  qed (use d(4) d(5) d(6) below in blast)+
qed

lemma step_below:
  assumes inv: "search_inv st ty L R A l r left any a" and m: "m = find_type st ty l tm" "l \<le> m" and lt: "l \<le> tm"
    and at: "stab_at st ty L R m" and v: "n_value (st m) \<le> A" and sorted: "stabs_sorted st ty L R"
  shows "search_inv st ty L R A (tm + 1) r m True a"
proof -
  note d = search_invD [OF inv]
  have below: "n_value (st k) \<le> A \<and> k \<le> m" if k: "stab_at st ty L R k" "k < tm + 1" for k
  proof -
    have le: "k \<le> m" using find_type_greatest [OF k(1), of l tm] k(2) m by linarith
    then show ?thesis using stab_lt [OF sorted k(1) at] v by (cases "k = m") auto
  qed
  show ?thesis
  proof (rule search_invI)
    show "a = A \<or> a = A + 1" "r \<le> R" by fact+
    show "L \<le> tm + 1" using d(2) lt by linarith
  qed (use d(4) below at v in blast)+
qed

lemma step_above:
  assumes inv: "search_inv st ty L R A l r left any a" and m: "l \<le> m" "m \<le> r"
    and at: "stab_at st ty L R m" and v: "A < n_value (st m)" and sorted: "stabs_sorted st ty L R"
  shows "search_inv st ty L R A l (m - 1) left True a"
proof -
  note d = search_invD [OF inv]
  have above: "A < n_value (st k)" if k: "stab_at st ty L R k" "m - 1 < k" for k
    using stab_lt [OF sorted at k(1)] v k(2) by (cases "k = m") auto
  show ?thesis
  proof (rule search_invI)
    show "a = A \<or> a = A + 1" "L \<le> l" by fact+
    show "m - 1 \<le> R" using d(3) m by linarith
  qed (use above d(5) d(6) in blast)+
qed

lemma step_exact:
  assumes inv: "search_inv st ty L R A l r left any A" and m: "l \<le> m"
    and at: "stab_at st ty L R m" and v: "n_value (st m) = A" and sorted: "stabs_sorted st ty L R"
  shows "search_inv st ty L R A m r m True (A + 1)"
proof -
  note d = search_invD [OF inv]
  have below: "n_value (st k) \<le> A \<and> k \<le> m" if k: "stab_at st ty L R k" "k < m" for k
    using stab_lt [OF sorted k(1) at k(2)] v k(2) by auto
  have v': "n_value (st m) \<le> A" using v by simp
  show ?thesis
  proof (rule search_invI)
    show "A + 1 = A \<or> A + 1 = A + 1" "r \<le> R" using d(3) by simp_all
    show "L \<le> m" using d(2) m by linarith
  qed (use d(4) below at v' in blast)+
qed

lemma below_inc: "(A :: u32) < A + 1 \<Longrightarrow> a = A \<or> a = A + 1 \<Longrightarrow> x < a \<Longrightarrow> x \<le> A"
  by unat_arith

lemma above_inc: "(A :: u32) < A + 1 \<Longrightarrow> a = A \<or> a = A + 1 \<Longrightarrow> a < x \<Longrightarrow> A < x"
  by unat_arith

lemma stab_loop_inv:
  "search_inv st ty L R A l r left any a \<Longrightarrow> right = r \<Longrightarrow>
   stab_loop st ty l r left right any a = (left', right', any') \<Longrightarrow>
   stabs_sorted st ty L R \<Longrightarrow> A < A + 1 \<Longrightarrow> (\<And>k. stab_at st ty L R k \<Longrightarrow> n_value (st k) \<noteq> A + 1) \<Longrightarrow>
   \<exists>l' a'. right' < l' \<and> search_inv st ty L R A l' right' left' any' a'"
proof (induction st ty l r left right any a rule: stab_loop.induct)
  case (1 st ty l r left right any a)
  define tm where "tm = (l + r) div 2"
  define m where "m = find_type st ty l tm"
  note inv = "1.prems"(1) and sorted = "1.prems"(4) and A = "1.prems"(5) and gap = "1.prems"(6)
  note d = search_invD [OF inv]
  note loop = "1.prems"(3) [unfolded stab_loop.simps [of st ty l r], folded tm_def, unfolded Let_def, folded m_def]
  note IH = "1.IH" [OF _ tm_def m_def]
  show ?case
  proof (cases "l \<le> r")
    case False
    then have "right' = r" "left' = left" "any' = any" using loop "1.prems"(2) by auto
    then show ?thesis using inv False by (meson not_le)
  next
    case lr: True
    have b: "l \<le> tm" "tm \<le> r" "m \<le> tm" using lr find_type_le by (auto simp: tm_def m_def)
    consider (skip) "m < l" | (below) "\<not> m < l" "n_value (st m) < a" | (above) "\<not> m < l" "a < n_value (st m)"
      | (exact) "\<not> m < l" "n_value (st m) = a" by fastforce
    then show ?thesis
    proof cases
      case skip
      then have "stab_loop st ty (tm + 1) r left right any a = (left', right', any')" using loop lr by simp
      then show ?thesis
        using IH(1) [OF lr skip step_skip [OF inv] "1.prems"(2)] skip b sorted A gap m_def by blast
    next
      case below
      have at: "stab_at st ty L R m" using below b d find_type_at [of l st ty tm] by (simp add: m_def stab_at_def)
      have v: "n_value (st m) \<le> A" by (rule below_inc [OF A d(1) below(2)])
      have "stab_loop st ty (tm + 1) r m right True a = (left', right', any')" using loop lr below by simp
      then show ?thesis
        using IH(2) [OF lr below step_below [OF inv m_def _ b(1) at v sorted] "1.prems"(2)] below sorted A gap by simp
    next
      case above
      have at: "stab_at st ty L R m" using above b d find_type_at [of l st ty tm] by (simp add: m_def stab_at_def)
      have v: "A < n_value (st m)" by (rule above_inc [OF A d(1) above(2)])
      have ml: "l \<le> m" "m \<le> r" using above b by auto
      have "\<not> n_value (st m) < a" using above by auto
      moreover from this have "stab_loop st ty l (m - 1) left (m - 1) True a = (left', right', any')"
        using loop lr above by simp
      ultimately show ?thesis
        using IH(3) [OF lr above(1) _ above(2) step_above [OF inv ml at v sorted] refl] sorted A gap by simp
    next
      case exact
      have at: "stab_at st ty L R m" using exact b d find_type_at [of l st ty tm] by (simp add: m_def stab_at_def)
      have a: "a = A" using d(1) gap [OF at] exact by auto
      have inv': "search_inv st ty L R A m r m True (a + 1)"
        unfolding a by (rule step_exact [OF inv [unfolded a] _ at _ sorted]) (use exact a in simp_all)
      have "stab_loop st ty m r m right True (a + 1) = (left', right', any')" using loop lr exact by simp
      then show ?thesis using IH(4) [OF lr exact(1) _ _ inv' "1.prems"(2)] exact sorted A gap by simp
    qed
  qed
qed


text \<open>The table of the comment above \<open>stab_binsearch\<close>.\<close>

definition so_stabs :: "int \<Rightarrow> Stab" where
  "so_stabs k =
    (case map_of [(0, 0xf0100000), (13, 0xf0100040), (117, 0xf0100176), (118, 0xf0100178), (555, 0xf0100652),
       (556, 0xf0100654), (657, 0xf0100849)] k of
       Some v \<Rightarrow> \<lparr>n_strx = 0, n_type = 0x64, n_other = 0, n_desc = 0, n_value = v\<rparr>
     | None \<Rightarrow> \<lparr>n_strx = 0, n_type = 0x44, n_other = 0, n_desc = 0, n_value = 0\<rparr>)"

lemma so_stabs_at: "stab_at so_stabs 0x64 0 657 k \<longleftrightarrow> k \<in> {0, 13, 117, 118, 555, 556, 657}"
  by (auto simp: stab_at_def so_stabs_def)

lemma so_stabs_sorted: "stabs_sorted so_stabs 0x64 0 657"
proof -
  have "n_value (so_stabs i) < n_value (so_stabs j)"
    if "stab_at so_stabs 0x64 0 657 i" "stab_at so_stabs 0x64 0 657 j" "i < j" for i j
    using that unfolding so_stabs_at by (elim insertE emptyE) (simp_all add: so_stabs_def)
  then show ?thesis by (auto simp: stabs_sorted_def stab_at_def)
qed

lemma so_stabs_search: "stab_binsearch so_stabs 0 657 0x64 0xf0100184 = (118, 554)"
  by code_simp


text \<open>
  With stabs at \<open>addr\<close> and at \<open>addr + 1\<close> the search answers with the second one, which lies above the address.
\<close>

definition adjacent_stabs :: "int \<Rightarrow> Stab" where
  "adjacent_stabs k = \<lparr>n_strx = 0, n_type = 0x44, n_other = 0, n_desc = 0, n_value = word_of_int k\<rparr>"

lemma stab_binsearch_adjacent:
  "stab_binsearch adjacent_stabs 0 3 0x44 1 = (3, 3) \<and> n_value (adjacent_stabs 3) > 1"
  by code_simp

end
