(* ===== verification/Shell.thy ===== *)
theory Shell
  imports Prelude
begin

text \<open>
  The shell of xv6, \<open>src/my-xv6-public/sh.c\<close> (the parser of \<open>src/lab2_shell/sh.c\<close> is the same code): tokens,
  the recursive-descent parser, and the system calls a parsed command makes. The line is the list of
  its characters, without the final null; a \<open>char *\<close> into it is an index, the end \<open>es\<close> its length. The
  position \<open>*ps\<close> is the state of the outcomes. Memory for commands is taken as available.
\<close>

section \<open>Commands\<close>

definition MAXARGS :: nat where "MAXARGS = 10"
definition SH_O_RDONLY :: int where "SH_O_RDONLY = 0"
definition SH_O_WRCREATE :: int where "SH_O_WRCREATE = 0x201"

text \<open>\<open>struct redircmd\<close> without the command it is about: file name, mode and descriptor.\<close>

record redir =
  rfile :: nat
  refile :: nat
  rmode :: int
  rfd :: nat

text \<open>The commands; an argument is the pair of its entries in \<open>argv\<close> and \<open>eargv\<close>.\<close>

datatype cmd = EXEC "(nat \<times> nat) list" | REDIR cmd redir | PIPE cmd cmd | LIST cmd cmd | BACK cmd

section \<open>Tokens\<close>

definition char_at :: "string \<Rightarrow> nat \<Rightarrow> char" where
  "char_at b i = (if i < length b then b ! i else CHR 0x00)"

definition whitespace :: string where
  "whitespace = [CHR 0x20, CHR 0x09, CHR 0x0D, CHR 0x0A, CHR 0x0B]"

definition symbols :: string where
  "symbols = ''<|>&;()''"

function skip_while :: "(char \<Rightarrow> bool) \<Rightarrow> string \<Rightarrow> nat \<Rightarrow> nat" where
  "skip_while P b i = (if i < length b \<and> P (b ! i) then skip_while P b (Suc i) else i)"
  by pat_completeness auto
termination by (relation "measure (\<lambda>(P, b, i). length b - i)") auto

declare skip_while.simps [simp del]

definition skip_ws :: "string \<Rightarrow> nat \<Rightarrow> nat" where
  "skip_ws b i = skip_while (\<lambda>c. c \<in> set whitespace) b i"

text \<open>\<open>gettoken\<close> returns the kind of the token, its start and end, and moves the position.\<close>

definition gettoken :: "string \<Rightarrow> nat \<Rightarrow> char \<times> nat \<times> nat \<times> nat" where
  "gettoken b i =
    (let q = skip_ws b i; c = char_at b q;
         (ret, eq) = (if c = CHR 0x00 then (c, q)
           else if c \<in> set ''|();&<'' then (c, q + 1)
           else if c = CHR ''>'' then (if char_at b (q + 1) = CHR ''>'' then (CHR ''+'', q + 2) else (c, q + 1))
           else (CHR ''a'', skip_while (\<lambda>c. c \<notin> set whitespace \<and> c \<notin> set symbols) b q)) in
     (ret, q, eq, skip_ws b eq))"

definition tok_kind :: "char \<times> nat \<times> nat \<times> nat \<Rightarrow> char" where "tok_kind t = fst t"
definition tok_q :: "char \<times> nat \<times> nat \<times> nat \<Rightarrow> nat" where "tok_q t = fst (snd t)"
definition tok_eq :: "char \<times> nat \<times> nat \<times> nat \<Rightarrow> nat" where "tok_eq t = fst (snd (snd t))"
definition tok_next :: "char \<times> nat \<times> nat \<times> nat \<Rightarrow> nat" where "tok_next t = snd (snd (snd t))"

text \<open>\<open>peek\<close> also moves the position, to \<open>skip_ws\<close>.\<close>

definition peek :: "string \<Rightarrow> nat \<Rightarrow> string \<Rightarrow> bool" where
  "peek b i toks \<longleftrightarrow> char_at b (skip_ws b i) \<noteq> CHR 0x00 \<and> char_at b (skip_ws b i) \<in> set toks"

section \<open>Progress of the scanner\<close>

lemma skip_while_ge: "i \<le> skip_while P b i"
proof (induction P b i rule: skip_while.induct)
  case (1 P b i)
  then show ?case by (subst skip_while.simps) (auto simp: Suc_leD)
qed

lemma skip_while_le: "i \<le> length b \<Longrightarrow> skip_while P b i \<le> length b"
proof (induction P b i rule: skip_while.induct)
  case (1 P b i)
  then show ?case by (subst skip_while.simps) auto
qed

lemma skip_while_stop: "skip_while P b i < length b \<Longrightarrow> \<not> P (b ! skip_while P b i)"
proof (induction P b i rule: skip_while.induct)
  case (1 P b i)
  then show ?case
    by (cases "i < length b \<and> P (b ! i)") (simp_all add: skip_while.simps [of P b i])
qed

lemma skip_while_pass: "i \<le> k \<Longrightarrow> k < skip_while P b i \<Longrightarrow> k < length b \<and> P (b ! k)"
proof (induction P b i rule: skip_while.induct)
  case (1 P b i)
  then show ?case
    by (cases "i < length b \<and> P (b ! i)"; cases "k = i") (simp_all add: skip_while.simps [of P b i])
qed

lemma skip_ws_ge: "i \<le> skip_ws b i" and skip_ws_le: "i \<le> length b \<Longrightarrow> skip_ws b i \<le> length b"
  by (simp_all add: skip_ws_def skip_while_ge skip_while_le)

text \<open>A word: a longest run of characters that are neither white space nor symbols.\<close>

definition is_word :: "string \<Rightarrow> nat \<Rightarrow> nat \<Rightarrow> bool" where
  "is_word b q e \<longleftrightarrow> q < e \<and> e \<le> length b
     \<and> (\<forall>k. q \<le> k \<and> k < e \<longrightarrow> b ! k \<notin> set whitespace \<and> b ! k \<notin> set symbols)
     \<and> (e < length b \<longrightarrow> b ! e \<in> set whitespace \<or> b ! e \<in> set symbols)"

lemma char_at_nz: "char_at b i \<noteq> CHR 0x00 \<Longrightarrow> i < length b"
  by (auto simp: char_at_def split: if_splits)

lemma gettoken_facts:
  assumes "i \<le> length b"
  defines "t \<equiv> gettoken b i"
  shows "tok_next t \<le> length b" "i \<le> tok_next t"
    "tok_kind t \<noteq> CHR 0x00 \<Longrightarrow> i < tok_next t"
    "tok_kind t = CHR ''a'' \<Longrightarrow> is_word b (tok_q t) (tok_eq t)"
    "tok_kind t = CHR 0x00 \<Longrightarrow> CHR 0x00 \<notin> set b \<Longrightarrow> skip_ws b i = length b"
    "char_at b (skip_ws b i) \<noteq> CHR 0x00 \<Longrightarrow> tok_kind t \<noteq> CHR 0x00"
proof -
  define q where "q = skip_ws b i"
  define c where "c = char_at b q"
  define W where "W = skip_while (\<lambda>c. c \<notin> set whitespace \<and> c \<notin> set symbols) b q"
  define e where "e = tok_eq t"
  have q: "i \<le> q" "q \<le> length b" using skip_ws_ge skip_ws_le assms by (simp_all add: q_def)
  have t: "t = (let (ret, eq) = (if c = CHR 0x00 then (c, q)
           else if c \<in> set ''|();&<'' then (c, q + 1)
           else if c = CHR ''>'' then (if char_at b (q + 1) = CHR ''>'' then (CHR ''+'', q + 2) else (c, q + 1))
           else (CHR ''a'', W)) in (ret, q, eq, skip_ws b eq))"
    by (simp add: t_def gettoken_def Let_def q_def c_def W_def)
  have ql: "c \<noteq> CHR 0x00 \<Longrightarrow> q < length b \<and> c = b ! q"
    by (cases "q < length b") (simp_all add: c_def char_at_def)
  have nws: "c \<notin> set whitespace" if "c \<noteq> CHR 0x00"
    using skip_while_stop [of "\<lambda>c. c \<in> set whitespace" b i] ql [OF that] by (simp add: q_def skip_ws_def)
  have word_ok: "q < W \<and> is_word b q W" if "c \<noteq> CHR 0x00" "c \<notin> set symbols"
  proof -
    have "q < W"
      using ql [OF that(1)] nws [OF that(1)] that(2) skip_while_ge [of "Suc q"]
      by (subst W_def, subst skip_while.simps) (simp add: Suc_le_lessD)
    moreover have "W \<le> length b" using q skip_while_le by (simp add: W_def)
    moreover have "b ! W \<in> set whitespace \<or> b ! W \<in> set symbols" if "W < length b"
      using skip_while_stop [OF that [unfolded W_def]] by (simp add: W_def)
    moreover have "b ! k \<notin> set whitespace \<and> b ! k \<notin> set symbols" if "q \<le> k" "k < W" for k
      using skip_while_pass [OF that(1) that(2) [unfolded W_def]] by simp
    ultimately show ?thesis by (auto simp: is_word_def)
  qed
  have sy: "c \<in> set symbols \<longleftrightarrow> c \<in> set ''|();&<'' \<or> c = CHR ''>''" by (auto simp: symbols_def)
  consider (nul) "c = CHR 0x00" "t = (c, q, q, skip_ws b q)"
    | (one) "c \<noteq> CHR 0x00" "c \<noteq> CHR ''a''" "t = (c, q, q + 1, skip_ws b (q + 1))"
    | (two) "c \<noteq> CHR 0x00" "char_at b (q + 1) \<noteq> CHR 0x00" "t = (CHR ''+'', q, q + 2, skip_ws b (q + 2))"
    | (word) "c \<noteq> CHR 0x00" "c \<notin> set symbols" "t = (CHR ''a'', q, W, skip_ws b W)"
  proof (cases "c = CHR 0x00")
    case True
    then show ?thesis using nul t by simp
  next
    case nz: False
    show ?thesis
    proof (cases "c \<in> set ''|();&<''")
      case True
      then have "c \<noteq> CHR ''a''" by auto
      then show ?thesis using one nz True t by (simp del: list.set)
    next
      case na: False
      show ?thesis
      proof (cases "c = CHR ''>''")
        case True
        then show ?thesis using one two nz na t by (simp del: list.set split: if_splits)
      next
        case False
        then show ?thesis using word nz na t sy by (simp del: list.set)
      qed
    qed
  qed
  note cs = this
  have e: "e \<le> length b \<and> q \<le> e \<and> (c \<noteq> CHR 0x00 \<longrightarrow> q < e) \<and> tok_next t = skip_ws b e
      \<and> (tok_kind t = CHR 0x00 \<longleftrightarrow> c = CHR 0x00)"
    using cs
  proof cases
    case nul
    then show ?thesis using q by (simp add: e_def tok_eq_def tok_next_def tok_kind_def)
  next
    case one
    then show ?thesis using ql [OF one(1)] by (simp add: e_def tok_eq_def tok_next_def tok_kind_def)
  next
    case two
    then show ?thesis using char_at_nz [OF two(2)] by (simp add: e_def tok_eq_def tok_next_def tok_kind_def)
  next
    case word
    then show ?thesis using word_ok [OF word(1,2)] by (simp add: e_def tok_eq_def tok_next_def tok_kind_def is_word_def)
  qed
  show "tok_next t \<le> length b" "i \<le> tok_next t" "tok_kind t \<noteq> CHR 0x00 \<Longrightarrow> i < tok_next t"
    using e q skip_ws_ge [of e b] skip_ws_le [of e b] by auto
  show "is_word b (tok_q t) (tok_eq t)" if "tok_kind t = CHR ''a''"
    using cs that word_ok by cases (auto simp: tok_kind_def tok_q_def tok_eq_def)
  show "skip_ws b i = length b" if "tok_kind t = CHR 0x00" "CHR 0x00 \<notin> set b"
  proof (rule ccontr)
    assume "skip_ws b i \<noteq> length b"
    then have "q < length b" using q by (simp add: q_def)
    then show False using e that nth_mem [of q b] by (simp add: c_def char_at_def)
  qed
  show "char_at b (skip_ws b i) \<noteq> CHR 0x00 \<Longrightarrow> tok_kind t \<noteq> CHR 0x00" using e by (simp add: c_def q_def)
qed

section \<open>The parser\<close>

lemma peek_next:
  assumes "peek b i ts"
  shows "i < tok_next (gettoken b (skip_ws b i))" "tok_next (gettoken b (skip_ws b i)) \<le> length b" "i < length b"
proof -
  have j: "i \<le> skip_ws b i" "skip_ws b i < length b"
    using assms skip_ws_ge char_at_nz by (auto simp: peek_def)
  have "skip_ws b (skip_ws b i) = skip_ws b i"
    using skip_while_stop [of "\<lambda>c. c \<in> set whitespace" b i] j(2)
    by (subst skip_ws_def, subst skip_while.simps) (simp add: skip_ws_def)
  then have "tok_kind (gettoken b (skip_ws b i)) \<noteq> CHR 0x00"
    using assms gettoken_facts(6) [of "skip_ws b i" b] j by (simp add: peek_def)
  then show "i < tok_next (gettoken b (skip_ws b i))" "tok_next (gettoken b (skip_ws b i)) \<le> length b" "i < length b"
    using gettoken_facts(1,3) [of "skip_ws b i" b] j by auto
qed

text \<open>The redirection of the token kinds \<open><\<close>, \<open>>\<close> and \<open>+\<close> (for \<open>>>\<close>).\<close>

definition mk_redir :: "char \<Rightarrow> nat \<Rightarrow> nat \<Rightarrow> redir" where
  "mk_redir tok q eq = (if tok = CHR ''<'' then \<lparr>rfile = q, refile = eq, rmode = SH_O_RDONLY, rfd = 0\<rparr>
     else \<lparr>rfile = q, refile = eq, rmode = SH_O_WRCREATE, rfd = 1\<rparr>)"

text \<open>\<open>parseredirs\<close> returns the redirections to be put around the command, in order.\<close>

function parseredirs :: "string \<Rightarrow> nat \<Rightarrow> (redir list, nat) res" where
  "parseredirs b i =
    (if peek b i ''<>'' then
       let t = gettoken b (skip_ws b i); f = gettoken b (tok_next t) in
       if tok_kind f \<noteq> CHR ''a'' then Panic ''missing file for redirection''
       else bind (parseredirs b (tok_next f)) (\<lambda>rs k. Ok (mk_redir (tok_kind t) (tok_q f) (tok_eq f) # rs) k)
     else Ok [] (skip_ws b i))"
  by pat_completeness auto
termination
proof (relation "measure (\<lambda>(b, i). length b - i)", goal_cases)
  case (2 b i t f)
  then show ?case using peek_next [of b i "''<>''"] gettoken_facts(2) [of "tok_next t" b] by auto
qed auto

declare parseredirs.simps [simp del]

lemma parseredirs_ge: "parseredirs b i = Ok rs k \<Longrightarrow> i \<le> k"
proof (induction b i arbitrary: rs rule: parseredirs.induct)
  case (1 b i)
  note p = "1.prems" [unfolded parseredirs.simps [of b i]]
  show ?case
  proof (cases "peek b i ''<>''")
    case False
    then show ?thesis using p skip_ws_ge by auto
  next
    case True
    define t f where "t = gettoken b (skip_ws b i)" and "f = gettoken b (tok_next t)"
    have "tok_kind f = CHR ''a''" using p True by (auto simp: t_def f_def Let_def split: if_splits)
    moreover obtain rs' where "parseredirs b (tok_next f) = Ok rs' k"
      using p True calculation by (auto simp: t_def f_def Let_def)
    ultimately have "tok_next f \<le> k" using "1.IH" True by (auto simp: t_def f_def)
    then show ?thesis
      using peek_next [OF True] gettoken_facts(2) [of "tok_next t" b] by (auto simp: t_def f_def)
  qed
qed

text \<open>The arguments of a simple command with the redirections among them; \<open>argc\<close> arguments came before.\<close>

function exec_loop :: "string \<Rightarrow> nat \<Rightarrow> nat \<Rightarrow> ((nat \<times> nat) list \<times> redir list, nat) res" where
  "exec_loop b argc i =
    (if peek b i ''|)&;'' then Ok ([], []) (skip_ws b i)
     else let t = gettoken b (skip_ws b i) in
       if tok_kind t = CHR 0x00 then Ok ([], []) (tok_next t)
       else if tok_kind t \<noteq> CHR ''a'' then Panic ''syntax''
       else if argc + 1 \<ge> MAXARGS then Panic ''too many args''
       else bind (parseredirs b (tok_next t)) (\<lambda>rs k. bind (exec_loop b (argc + 1) k) (\<lambda>r k.
         Ok ((tok_q t, tok_eq t) # fst r, rs @ snd r) k)))"
  by pat_completeness auto
termination by (relation "measure (\<lambda>(b, n, i). MAXARGS - n)") auto

declare exec_loop.simps [simp del]

text \<open>The loop of \<open>parseline\<close> that takes the ampersands.\<close>

function back_loop :: "string \<Rightarrow> cmd \<Rightarrow> nat \<Rightarrow> cmd \<times> nat" where
  "back_loop b c i = (if peek b i ''&'' then back_loop b (BACK c) (tok_next (gettoken b (skip_ws b i))) else (c, skip_ws b i))"
  by pat_completeness auto
termination
proof (relation "measure (\<lambda>(b, c, i). length b - i)", goal_cases)
  case (2 b c i)
  then show ?case using peek_next [of b i "''&''"] by auto
qed auto

declare back_loop.simps [simp del]

text \<open>The functions that call each other carry fuel; without it they would be \<open>Hang\<close>.\<close>

fun parseline :: "nat \<Rightarrow> string \<Rightarrow> nat \<Rightarrow> (cmd, nat) res"
  and parsepipe :: "nat \<Rightarrow> string \<Rightarrow> nat \<Rightarrow> (cmd, nat) res"
  and parseexec :: "nat \<Rightarrow> string \<Rightarrow> nat \<Rightarrow> (cmd, nat) res"
  and parseblock :: "nat \<Rightarrow> string \<Rightarrow> nat \<Rightarrow> (cmd, nat) res" where
  "parseline 0 b i = Hang"
| "parseline (Suc n) b i = bind (parsepipe n b i) (\<lambda>c k.
     let r = back_loop b c k; c = fst r; k = snd r in
     if peek b k '';'' then bind (parseline n b (tok_next (gettoken b (skip_ws b k)))) (\<lambda>c' k. Ok (LIST c c') k)
     else Ok c (skip_ws b k))"
| "parsepipe 0 b i = Hang"
| "parsepipe (Suc n) b i = bind (parseexec n b i) (\<lambda>c k.
     if peek b k ''|'' then bind (parsepipe n b (tok_next (gettoken b (skip_ws b k)))) (\<lambda>c' k. Ok (PIPE c c') k)
     else Ok c (skip_ws b k))"
| "parseexec 0 b i = Hang"
| "parseexec (Suc n) b i =
    (if peek b i ''('' then parseblock n b (skip_ws b i)
     else bind (parseredirs b (skip_ws b i)) (\<lambda>rs k. bind (exec_loop b 0 k) (\<lambda>r k.
       Ok (foldl REDIR (EXEC (fst r)) (rs @ snd r)) k)))"
| "parseblock 0 b i = Hang"
| "parseblock (Suc n) b i =
    (if \<not> peek b i ''('' then Panic ''parseblock''
     else bind (parseline n b (tok_next (gettoken b (skip_ws b i)))) (\<lambda>c k.
       if \<not> peek b k '')'' then Panic ''syntax - missing )''
       else bind (parseredirs b (tok_next (gettoken b (skip_ws b k)))) (\<lambda>rs k. Ok (foldl REDIR c rs) k)))"

definition parse_top :: "string \<Rightarrow> (cmd, nat) res" where
  "parse_top b = bind (parseline (4 * length b + 4) b 0) (\<lambda>c k.
     if skip_ws b k \<noteq> length b then Panic ''syntax'' else Ok c (skip_ws b k))"

text \<open>\<open>nulterminate\<close> writes a null at the end of every word; the buffer includes the final null.\<close>

fun nulterminate :: "cmd \<Rightarrow> string \<Rightarrow> string" where
  "nulterminate (EXEC as) m = foldl (\<lambda>m a. m[snd a := CHR 0x00]) m as"
| "nulterminate (REDIR c r) m = (nulterminate c m)[refile r := CHR 0x00]"
| "nulterminate (PIPE l r) m = nulterminate r (nulterminate l m)"
| "nulterminate (LIST l r) m = nulterminate r (nulterminate l m)"
| "nulterminate (BACK c) m = nulterminate c m"

text \<open>\<open>parsecmd\<close>: the command and the buffer it points into.\<close>

definition parsecmd :: "string \<Rightarrow> (cmd \<times> string, nat) res" where
  "parsecmd b = bind (parse_top b) (\<lambda>c k. Ok (c, nulterminate c (b @ [CHR 0x00])) k)"

section \<open>Well-formed commands\<close>

definition wf_redir :: "string \<Rightarrow> redir \<Rightarrow> bool" where
  "wf_redir b r \<longleftrightarrow> is_word b (rfile r) (refile r) \<and> (rfd r = 0 \<and> rmode r = SH_O_RDONLY \<or> rfd r = 1 \<and> rmode r = SH_O_WRCREATE)"

fun wf_cmd :: "string \<Rightarrow> cmd \<Rightarrow> bool" where
  "wf_cmd b (EXEC as) \<longleftrightarrow> length as < MAXARGS \<and> list_all (\<lambda>a. is_word b (fst a) (snd a)) as"
| "wf_cmd b (REDIR c r) \<longleftrightarrow> wf_cmd b c \<and> wf_redir b r"
| "wf_cmd b (PIPE l r) \<longleftrightarrow> wf_cmd b l \<and> wf_cmd b r"
| "wf_cmd b (LIST l r) \<longleftrightarrow> wf_cmd b l \<and> wf_cmd b r"
| "wf_cmd b (BACK c) \<longleftrightarrow> wf_cmd b c"

text \<open>What the functions of the parser promise: they stay inside the line, make progress, and return or panic.\<close>

definition parses :: "string \<Rightarrow> nat \<Rightarrow> ('x \<Rightarrow> bool) \<Rightarrow> ('x, nat) res \<Rightarrow> bool" where
  "parses b i Q r \<longleftrightarrow> (case r of Ok x k \<Rightarrow> i \<le> k \<and> k \<le> length b \<and> Q x | Panic m \<Rightarrow> True | _ \<Rightarrow> False)"

lemma parses_simps [simp]:
  "parses b i Q (Ok x k) \<longleftrightarrow> i \<le> k \<and> k \<le> length b \<and> Q x" "parses b i Q (Panic m)" "\<not> parses b i Q Hang"
  by (simp_all add: parses_def)

lemma parses_bind:
  assumes "parses b i Q r" "\<And>x k. r = Ok x k \<Longrightarrow> Q x \<Longrightarrow> i \<le> k \<Longrightarrow> k \<le> length b \<Longrightarrow> parses b k Q' (f x k)"
  shows "parses b i Q' (bind r f)"
proof (cases r)
  case (Ok x k)
  then have "parses b k Q' (f x k)" "i \<le> k" using assms by auto
  then show ?thesis using Ok by (cases "f x k") (auto simp: parses_def)
qed (use assms(1) in \<open>auto simp: parses_def\<close>)

lemma parses_weaken: "parses b k Q r \<Longrightarrow> i \<le> k \<Longrightarrow> parses b i Q r"
  by (cases r) (auto simp: parses_def)

lemma parseredirs_parses: "i \<le> length b \<Longrightarrow> parses b i (list_all (wf_redir b)) (parseredirs b i)"
proof (induction b i rule: parseredirs.induct)
  case (1 b i)
  show ?case
  proof (cases "peek b i ''<>''")
    case False
    then show ?thesis using "1.prems" skip_ws_ge skip_ws_le by (simp add: parseredirs.simps [of b i])
  next
    case True
    define t f where "t = gettoken b (skip_ws b i)" and "f = gettoken b (tok_next t)"
    have t: "i < tok_next t" "tok_next t \<le> length b" using peek_next [OF True] by (simp_all add: t_def)
    note f = gettoken_facts [OF t(2), folded f_def]
    show ?thesis
    proof (cases "tok_kind f = CHR ''a''")
      case False
      then show ?thesis using True by (simp add: parseredirs.simps [of b i] t_def f_def)
    next
      case a: True
      have ih: "parses b (tok_next f) (list_all (wf_redir b)) (parseredirs b (tok_next f))"
        using "1.IH" [OF True t_def f_def] a f(1) by simp
      have w: "wf_redir b (mk_redir (tok_kind t) (tok_q f) (tok_eq f))"
        using f(4) [OF a] by (auto simp: wf_redir_def mk_redir_def)
      have "parses b (tok_next f) (list_all (wf_redir b))
          (bind (parseredirs b (tok_next f)) (\<lambda>rs k. Ok (mk_redir (tok_kind t) (tok_q f) (tok_eq f) # rs) k))"
        by (rule parses_bind [OF ih]) (use w in simp)
      then have "parses b i (list_all (wf_redir b))
          (bind (parseredirs b (tok_next f)) (\<lambda>rs k. Ok (mk_redir (tok_kind t) (tok_q f) (tok_eq f) # rs) k))"
        by (rule parses_weaken) (use t f(2) in simp)
      then show ?thesis using True a by (simp add: parseredirs.simps [of b i] t_def f_def Let_def)
    qed
  qed
qed

lemma exec_loop_parses:
  "i \<le> length b \<Longrightarrow> argc < MAXARGS \<Longrightarrow>
    parses b i (\<lambda>r. argc + length (fst r) < MAXARGS \<and> list_all (\<lambda>a. is_word b (fst a) (snd a)) (fst r)
      \<and> list_all (wf_redir b) (snd r)) (exec_loop b argc i)"
proof (induction b argc i rule: exec_loop.induct)
  case (1 b argc i)
  define t where "t = gettoken b (skip_ws b i)"
  have j: "skip_ws b i \<le> length b" "i \<le> skip_ws b i" using "1.prems" skip_ws_le skip_ws_ge by auto
  note f = gettoken_facts [OF j(1), folded t_def]
  show ?case
  proof (cases "peek b i ''|)&;'' \<or> tok_kind t \<noteq> CHR ''a'' \<or> argc + 1 \<ge> MAXARGS")
    case True
    then show ?thesis using j f(1,2) "1.prems" by (auto simp: exec_loop.simps [of b argc i] t_def [symmetric] Let_def)
  next
    case False
    have r: "parses b (tok_next t) (list_all (wf_redir b)) (parseredirs b (tok_next t))"
      using f(1) by (rule parseredirs_parses)
    have "parses b (tok_next t) (\<lambda>r. argc + length (fst r) < MAXARGS \<and> list_all (\<lambda>a. is_word b (fst a) (snd a)) (fst r)
        \<and> list_all (wf_redir b) (snd r))
      (bind (parseredirs b (tok_next t)) (\<lambda>rs k. bind (exec_loop b (argc + 1) k) (\<lambda>r k.
         Ok ((tok_q t, tok_eq t) # fst r, rs @ snd r) k)))"
    proof (rule parses_bind [OF r])
      fix rs k assume "parseredirs b (tok_next t) = Ok rs k" "list_all (wf_redir b) rs" "tok_next t \<le> k" "k \<le> length b"
      then show "parses b k (\<lambda>r. argc + length (fst r) < MAXARGS \<and> list_all (\<lambda>a. is_word b (fst a) (snd a)) (fst r)
        \<and> list_all (wf_redir b) (snd r)) (bind (exec_loop b (argc + 1) k) (\<lambda>r k. Ok ((tok_q t, tok_eq t) # fst r, rs @ snd r) k))"
        using "1.IH" [OF _ t_def] False f(4) by (intro parses_bind [of _ _ _ "exec_loop b (argc + 1) k"]) auto
    qed
    then show ?thesis
      using False j f(2) by (auto simp: exec_loop.simps [of b argc i] t_def [symmetric] Let_def intro: parses_weaken)
  qed
qed

lemma foldl_REDIR_wf: "wf_cmd b c \<Longrightarrow> list_all (wf_redir b) rs \<Longrightarrow> wf_cmd b (foldl REDIR c rs)"
  by (induction rs arbitrary: c) auto

lemma back_loop_wf:
  "i \<le> length b \<Longrightarrow> wf_cmd b c \<Longrightarrow>
    i \<le> snd (back_loop b c i) \<and> snd (back_loop b c i) \<le> length b \<and> wf_cmd b (fst (back_loop b c i))"
proof (induction b c i rule: back_loop.induct)
  case (1 b c i)
  show ?case
  proof (cases "peek b i ''&''")
    case True
    then show ?thesis using "1.IH" "1.prems" peek_next [OF True] by (auto simp: back_loop.simps [of b c i])
  next
    case False
    then show ?thesis using "1.prems" skip_ws_ge skip_ws_le by (simp add: back_loop.simps [of b c i])
  qed
qed

lemma parses_then:
  assumes "parses b k Q r" "i \<le> k" "\<And>x. Q x \<Longrightarrow> Q' (f x)"
  shows "parses b i Q' (bind r (\<lambda>x k. Ok (f x) k))"
  using assms by (cases r) (auto simp: parses_def)

lemma parseline_step:
  assumes pipe: "parses b i (wf_cmd b) (parsepipe n b i)"
    and line: "\<And>k. i < k \<Longrightarrow> k \<le> length b \<Longrightarrow> parses b k (wf_cmd b) (parseline n b k)"
  shows "parses b i (wf_cmd b) (parseline (Suc n) b i)"
  unfolding parseline.simps
proof (rule parses_bind [OF pipe])
  fix c k assume c: "wf_cmd b c" "i \<le> k" "k \<le> length b"
  define r where "r = back_loop b c k"
  have r: "k \<le> snd r" "snd r \<le> length b" "wf_cmd b (fst r)" using back_loop_wf [OF c(3,1)] by (simp_all add: r_def)
  have "parses b k (wf_cmd b) (bind (parseline n b (tok_next (gettoken b (skip_ws b (snd r))))) (\<lambda>c' k. Ok (LIST (fst r) c') k))"
    if p: "peek b (snd r) '';''"
    by (rule parses_then [OF line]) (use peek_next [OF p] c r in auto)
  then show "parses b k (wf_cmd b) (let r = back_loop b c k; c = fst r; k = snd r in
     if peek b k '';'' then bind (parseline n b (tok_next (gettoken b (skip_ws b k)))) (\<lambda>c' k. Ok (LIST c c') k)
     else Ok c (skip_ws b k))"
    using r skip_ws_ge [of "snd r" b] skip_ws_le [of "snd r" b] by (auto simp: r_def [symmetric] Let_def)
qed

lemma parsepipe_step:
  assumes exec: "parses b i (wf_cmd b) (parseexec n b i)"
    and pipe: "\<And>k. i < k \<Longrightarrow> k \<le> length b \<Longrightarrow> parses b k (wf_cmd b) (parsepipe n b k)"
  shows "parses b i (wf_cmd b) (parsepipe (Suc n) b i)"
  unfolding parsepipe.simps
proof (rule parses_bind [OF exec])
  fix c k assume c: "wf_cmd b c" "i \<le> k" "k \<le> length b"
  have "parses b k (wf_cmd b) (bind (parsepipe n b (tok_next (gettoken b (skip_ws b k)))) (\<lambda>c' k. Ok (PIPE c c') k))"
    if p: "peek b k ''|''"
    by (rule parses_then [OF pipe]) (use peek_next [OF p] c in auto)
  then show "parses b k (wf_cmd b) (if peek b k ''|''
     then bind (parsepipe n b (tok_next (gettoken b (skip_ws b k)))) (\<lambda>c' k. Ok (PIPE c c') k) else Ok c (skip_ws b k))"
    using c skip_ws_ge [of k b] skip_ws_le [of k b] by auto
qed

lemma simple_command_parses:
  assumes "j \<le> length b"
  shows "parses b j (wf_cmd b) (bind (parseredirs b j) (\<lambda>rs k. bind (exec_loop b 0 k) (\<lambda>r k.
    Ok (foldl REDIR (EXEC (fst r)) (rs @ snd r)) k)))"
proof (rule parses_bind [OF parseredirs_parses [OF assms]])
  fix rs k assume rs: "list_all (wf_redir b) rs" "j \<le> k" "k \<le> length b"
  show "parses b k (wf_cmd b) (bind (exec_loop b 0 k) (\<lambda>r k. Ok (foldl REDIR (EXEC (fst r)) (rs @ snd r)) k))"
    by (rule parses_then [OF exec_loop_parses [OF rs(3)] order_refl])
      (use rs in \<open>auto simp: MAXARGS_def intro!: foldl_REDIR_wf\<close>)
qed

lemma parseexec_step:
  assumes "i \<le> length b" "\<And>k. i \<le> k \<Longrightarrow> k \<le> length b \<Longrightarrow> parses b k (wf_cmd b) (parseblock n b k)"
  shows "parses b i (wf_cmd b) (parseexec (Suc n) b i)"
proof -
  have j: "skip_ws b i \<le> length b" "i \<le> skip_ws b i" using assms(1) skip_ws_le skip_ws_ge by auto
  show ?thesis
    using parses_weaken [OF assms(2) [OF j(2,1)] j(2)] parses_weaken [OF simple_command_parses [OF j(1)] j(2)] by simp
qed

lemma parseblock_step:
  assumes line: "\<And>k. i < k \<Longrightarrow> k \<le> length b \<Longrightarrow> parses b k (wf_cmd b) (parseline n b k)"
  shows "parses b i (wf_cmd b) (parseblock (Suc n) b i)"
proof (cases "peek b i ''(''")
  case True
  note p = peek_next [OF True]
  have "parses b (tok_next (gettoken b (skip_ws b i))) (wf_cmd b) (bind (parseline n b (tok_next (gettoken b (skip_ws b i)))) (\<lambda>c k.
     if \<not> peek b k '')'' then Panic ''syntax - missing )''
     else bind (parseredirs b (tok_next (gettoken b (skip_ws b k)))) (\<lambda>rs k. Ok (foldl REDIR c rs) k)))"
  proof (rule parses_bind [OF line [OF p(1,2)]])
    fix c k assume c: "wf_cmd b c" "k \<le> length b"
    have "parses b k (wf_cmd b) (bind (parseredirs b (tok_next (gettoken b (skip_ws b k)))) (\<lambda>rs k. Ok (foldl REDIR c rs) k))"
      if q: "peek b k '')''"
      by (rule parses_then [OF parseredirs_parses [OF peek_next(2) [OF q]]])
        (use peek_next [OF q] c in \<open>auto intro: foldl_REDIR_wf\<close>)
    then show "parses b k (wf_cmd b) (if \<not> peek b k '')'' then Panic ''syntax - missing )''
       else bind (parseredirs b (tok_next (gettoken b (skip_ws b k)))) (\<lambda>rs k. Ok (foldl REDIR c rs) k))" by simp
  qed
  from parses_weaken [OF this less_imp_le [OF p(1)]] show ?thesis using True by simp
qed simp

text \<open>Fuel of four times the rest of the line is enough for all of them.\<close>

lemma parse_parses:
  "i \<le> length b \<Longrightarrow>
    (4 * (length b - i) + 4 \<le> n \<longrightarrow> parses b i (wf_cmd b) (parseline n b i))
    \<and> (4 * (length b - i) + 3 \<le> n \<longrightarrow> parses b i (wf_cmd b) (parsepipe n b i))
    \<and> (4 * (length b - i) + 2 \<le> n \<longrightarrow> parses b i (wf_cmd b) (parseexec n b i))
    \<and> (4 * (length b - i) + 1 \<le> n \<longrightarrow> parses b i (wf_cmd b) (parseblock n b i))"
proof (induction n arbitrary: i)
  case (Suc n)
  have "parses b i (wf_cmd b) (parseline (Suc n) b i)" if "4 * (length b - i) + 4 \<le> Suc n"
    by (rule parseline_step) (use Suc that in auto)
  moreover have "parses b i (wf_cmd b) (parsepipe (Suc n) b i)" if "4 * (length b - i) + 3 \<le> Suc n"
    by (rule parsepipe_step) (use Suc that in auto)
  moreover have "parses b i (wf_cmd b) (parseexec (Suc n) b i)" if "4 * (length b - i) + 2 \<le> Suc n"
    by (rule parseexec_step) (use Suc that in auto)
  moreover have "parses b i (wf_cmd b) (parseblock (Suc n) b i)" if "4 * (length b - i) + 1 \<le> Suc n"
    by (rule parseblock_step) (use Suc that in auto)
  ultimately show ?case by blast
qed simp

lemma parse_top_parses: "parses b 0 (wf_cmd b) (parse_top b)"
  unfolding parse_top_def using parse_parses [of 0 b "4 * length b + 4"]
  by (intro parses_bind [of b 0 "wf_cmd b"]) (auto intro: skip_ws_ge)

text \<open>C36: the shell's parser ends on every line: \<open>parsecmd\<close> returns a command or stops with one of the messages of
  the source, it never loops; when it returns, the whole line is consumed.
\<close>

theorem parsecmd_terminates:
  "(\<exists>c m. parsecmd b = Ok (c, m) (length b)) \<or>
   (\<exists>e. parsecmd b = Panic e)"
proof -
  have "parses b 0 (wf_cmd b) (parse_top b)" by (rule parse_top_parses)
  then have "(\<exists>c k. parse_top b = Ok c k) \<or> (\<exists>e. parse_top b = Panic e)"
    by (cases "parse_top b") (auto simp: parses_def)
  moreover have "k = length b" if "parse_top b = Ok c k" for c k
    using that by (auto simp: parse_top_def split: if_splits)
  ultimately show ?thesis by (auto simp: parsecmd_def)
qed

section \<open>Null termination\<close>

fun words :: "cmd \<Rightarrow> (nat \<times> nat) list" where
  "words (EXEC as) = as"
| "words (REDIR c r) = words c @ [(rfile r, refile r)]"
| "words (PIPE l r) = words l @ words r"
| "words (LIST l r) = words l @ words r"
| "words (BACK c) = words c"

definition cstring :: "string \<Rightarrow> nat \<Rightarrow> string" where
  "cstring m q = takeWhile (\<lambda>c. c \<noteq> CHR 0x00) (drop q m)"

lemma wf_words: "wf_cmd b c \<Longrightarrow> w \<in> set (words c) \<Longrightarrow> is_word b (fst w) (snd w)"
  by (induction c) (auto simp: list_all_iff wf_redir_def)

lemma nul_args:
  "length (foldl (\<lambda>m a. m[snd a := CHR 0x00]) m as) = length m"
  "j < length m \<Longrightarrow> foldl (\<lambda>m a. m[snd a := CHR 0x00]) m as ! j = (if j \<in> snd ` set as then CHR 0x00 else m ! j)"
proof (induction as arbitrary: m)
  case (Cons a as)
  { case 1 show ?case using Cons.IH(1) by simp }
  { case 2 then show ?case using Cons.IH(2) [of "m[snd a := CHR 0x00]"] by (auto simp: nth_list_update) }
qed simp_all

lemma nulterminate_nth:
  "length (nulterminate c m) = length m"
  "j < length m \<Longrightarrow> nulterminate c m ! j = (if j \<in> snd ` set (words c) then CHR 0x00 else m ! j)"
proof (induction c arbitrary: m)
  case (EXEC as)
  { case 1 show ?case by (simp add: nul_args) }
  { case 2 then show ?case by (simp add: nul_args) }
next
  case (REDIR c r)
  { case 1 show ?case using REDIR.IH(1) by simp }
  { case 2 then show ?case
      using REDIR.IH [of m] by (cases "j = refile r") (simp_all add: nth_list_update image_Un) }
qed auto

lemma word_end_outside: "is_word b q e \<Longrightarrow> is_word b q' e' \<Longrightarrow> q \<le> e' \<Longrightarrow> \<not> e' < e"
  by (force simp: is_word_def)

text \<open>C37: what the parser returns is a well-formed command: at most nine arguments, input redirected from descriptor 0
  and output from 1, every file name and argument a word of the line. After \<open>nulterminate\<close> each of the
  pointers is a C string that reads exactly its word; ending one word damages no other.
\<close>

theorem parsecmd_well_formed:
  assumes "parsecmd b = Ok (c, m) k" "CHR 0x00 \<notin> set b"
  shows "wf_cmd b c \<and> (\<forall>(q, e)\<in>set (words c). is_word b q e \<and> cstring m q = take (e - q) (drop q b))"
proof -
  have pt: "parse_top b = Ok c k" and m: "m = nulterminate c (b @ [CHR 0x00])"
    using assms(1) by (auto simp: parsecmd_def)
  have wf: "wf_cmd b c" using parse_top_parses [of b] pt by simp
  have "is_word b q e \<and> cstring m q = take (e - q) (drop q b)" if w: "(q, e) \<in> set (words c)" for q e
  proof -
    have i: "is_word b q e" using wf_words [OF wf w] by simp
    then have qe: "q < e" "e \<le> length b" by (auto simp: is_word_def)
    have lm: "length m = Suc (length b)" by (simp add: m nulterminate_nth)
    have nul: "m ! e = CHR 0x00" using qe w by (force simp: m nulterminate_nth)
    have in_word: "m ! j = b ! j \<and> b ! j \<noteq> CHR 0x00" if "q \<le> j" "j < e" for j
    proof -
      have "j \<notin> snd ` set (words c)"
        using word_end_outside [OF i] wf_words [OF wf] that by force
      moreover have "b ! j \<in> set b" by (rule nth_mem) (use that qe in linarith)
      then have "b ! j \<noteq> CHR 0x00" using assms(2) by metis
      ultimately show ?thesis using that qe by (auto simp: m nulterminate_nth nth_append)
    qed
    have "take (e - q) (drop q m) = take (e - q) (drop q b)"
      by (rule nth_equalityI) (use qe lm in_word in auto)
    moreover have "drop (e - q) (drop q m) = CHR 0x00 # drop (Suc e) m"
      using qe lm nul Cons_nth_drop_Suc [of e m] by simp
    ultimately have "drop q m = take (e - q) (drop q b) @ CHR 0x00 # drop (Suc e) m"
      by (metis append_take_drop_id)
    moreover have "\<forall>x\<in>set (take (e - q) (drop q b)). x \<noteq> CHR 0x00"
      using assms(2) set_take_subset [of "e - q" "drop q b"] set_drop_subset [of q b] by (metis subsetD)
    ultimately show ?thesis using i by (simp add: cstring_def takeWhile_append)
  qed
  with wf show ?thesis by auto
qed

theorem parsecmd_well_formed_witness:
  "wf_cmd ''ls >f'' (REDIR (EXEC [(0, 2)]) \<lparr>rfile = 4, refile = 5, rmode = 0x201, rfd = 1\<rparr>)
    \<and> cstring [CHR ''l'', CHR ''s'', CHR 0x00, CHR ''>'', CHR ''f'', CHR 0x00] 0 = ''ls''"
proof -
  have "parsecmd ''ls >f'' = Ok (REDIR (EXEC [(0, 2)]) \<lparr>rfile = 4, refile = 5, rmode = 0x201, rfd = 1\<rparr>,
      [CHR ''l'', CHR ''s'', CHR 0x00, CHR ''>'', CHR ''f'', CHR 0x00]) 5"
    by code_simp
  from parsecmd_well_formed [OF this] show ?thesis by simp
qed

section \<open>Running a command\<close>

text \<open>
  The system calls of \<open>runcmd\<close> as a tree: the branches of a call are the program after its failure and
  after its success, or of the child and the parent (a \<open>fork\<close> that fails ends the program in \<open>fork1\<close>). \<open>PDup e\<close> and \<open>PCloseEnd e\<close> act on the ends \<open>p[e]\<close> of the pipe.
\<close>

datatype prog = PExit | PExec "(nat \<times> nat) list" prog | PClose nat prog | POpen nat int prog prog
  | PPipe prog prog | PFork prog prog | PDup nat prog | PCloseEnd nat prog | PWait prog

fun runcmd :: "cmd \<Rightarrow> prog" where
  "runcmd (EXEC as) = (if as = [] then PExit else PExec as PExit)"
| "runcmd (REDIR c r) = PClose (rfd r) (POpen (rfile r) (rmode r) PExit (runcmd c))"
| "runcmd (LIST l r) = PFork (runcmd l) (PWait (runcmd r))"
| "runcmd (PIPE l r) = PPipe PExit
     (PFork (PClose 1 (PDup 1 (PCloseEnd 0 (PCloseEnd 1 (runcmd l)))))
       (PFork (PClose 0 (PDup 0 (PCloseEnd 0 (PCloseEnd 1 (runcmd r)))))
         (PCloseEnd 0 (PCloseEnd 1 (PWait (PWait PExit))))))"
| "runcmd (BACK c) = PFork (runcmd c) PExit"

end
