(* ===== verification/Grep.thy ===== *)
theory Grep
  imports Prelude
begin

text \<open>
  The pattern matcher and the line loop of \<open>src/my-xv6-public/grep.c\<close>. Patterns and texts are C strings,
  the lists of their characters before the null. The matcher is compared with the language of the
  pattern.
\<close>

section \<open>The matcher\<close>

function matchhere :: "string \<Rightarrow> string \<Rightarrow> bool" and matchstar :: "char \<Rightarrow> string \<Rightarrow> string \<Rightarrow> bool" where
  "matchhere [] tx = True"
| "matchhere (c # re) tx =
    (if re \<noteq> [] \<and> hd re = CHR ''*'' then matchstar c (tl re) tx
     else if c = CHR ''$'' \<and> re = [] then tx = []
     else if tx \<noteq> [] \<and> (c = CHR ''.'' \<or> c = hd tx) then matchhere re (tl tx)
     else False)"
| "matchstar c re tx =
    (if matchhere re tx then True
     else if tx \<noteq> [] \<and> (hd tx = c \<or> c = CHR ''.'') then matchstar c re (tl tx)
     else False)"
  by pat_completeness auto
termination
  by (relation "measure (\<lambda>x. case x of Inl (re, tx) \<Rightarrow> 2 * (length re + length tx)
        | Inr (c, re, tx) \<Rightarrow> 2 * (length re + length tx) + 1)") auto

declare matchhere.simps(2) [simp del] matchstar.simps [simp del]

fun match_from :: "string \<Rightarrow> string \<Rightarrow> bool" where
  "match_from re [] = matchhere re []"
| "match_from re (t # ts) = (if matchhere re (t # ts) then True else match_from re ts)"

definition match :: "string \<Rightarrow> string \<Rightarrow> bool" where
  "match re tx = (if re \<noteq> [] \<and> hd re = CHR ''^'' then matchhere (tl re) tx else match_from re tx)"

section \<open>Lines\<close>

text \<open>
  The inner loop over the lines of the buffer: the output and the rest from \<open>p\<close> on. \<open>strchr\<close> does not look
  beyond a null.
\<close>

function grep_lines :: "string \<Rightarrow> string \<Rightarrow> string \<times> string" where
  "grep_lines pat p =
    (let line = takeWhile (\<lambda>c. c \<noteq> CHR 0x0A \<and> c \<noteq> CHR 0x00) p; rest = drop (length line) p in
     if rest \<noteq> [] \<and> hd rest = CHR 0x0A then
       let r = grep_lines pat (tl rest) in
       ((if match pat line then line @ [CHR 0x0A] else []) @ fst r, snd r)
     else ([], p))"
  by pat_completeness auto
termination
proof (relation "measure (\<lambda>(pat, p). length p)", goal_cases)
  case (2 pat p line rest)
  then show ?case by (cases rest) auto
qed auto

declare grep_lines.simps [simp del]

text \<open>\<open>buf\<close> holds the bytes carried over from the last round, \<open>chunks\<close> what the calls of \<open>read\<close> return.\<close>

fun grep :: "string \<Rightarrow> string \<Rightarrow> string list \<Rightarrow> string" where
  "grep pat buf [] = []"
| "grep pat buf (chunk # chunks) =
    (if chunk = [] then []
     else let data = buf @ chunk; r = grep_lines pat data in
       fst r @ grep pat (if snd r = data then [] else snd r) chunks)"

section \<open>The language of a pattern\<close>

datatype item = Lit char | Any | Star char

text \<open>The items of a pattern after \<open>^\<close>, and whether it ends in \<open>$\<close>.\<close>

function items :: "string \<Rightarrow> item list \<times> bool" where
  "items [] = ([], False)"
| "items (c # re) =
    (if re \<noteq> [] \<and> hd re = CHR ''*'' then (Star c # fst (items (tl re)), snd (items (tl re)))
     else if c = CHR ''$'' \<and> re = [] then ([], True)
     else ((if c = CHR ''.'' then Any else Lit c) # fst (items re), snd (items re)))"
  by pat_completeness auto
termination by (relation "measure length") auto

fun lang :: "item list \<Rightarrow> string set" where
  "lang [] = {[]}"
| "lang (Lit c # is) = {c # w | w. w \<in> lang is}"
| "lang (Any # is) = {t # w | t w. w \<in> lang is}"
| "lang (Star c # is) = {u @ w | u w. list_all (\<lambda>x. x = c \<or> c = CHR ''.'') u \<and> w \<in> lang is}"

definition prefix_in :: "string \<Rightarrow> string \<Rightarrow> bool" where
  "prefix_in re tx \<longleftrightarrow> (\<exists>w post. tx = w @ post \<and> w \<in> lang (fst (items re)) \<and> (snd (items re) \<longrightarrow> post = []))"

lemma lang_Star: "list_all (\<lambda>x. x = c \<or> c = CHR ''.'') u \<Longrightarrow> w \<in> lang is \<Longrightarrow> u @ w \<in> lang (Star c # is)"
  by auto

lemma lang_StarE:
  assumes "v \<in> lang (Star c # is)"
  obtains u w where "v = u @ w" "list_all (\<lambda>x. x = c \<or> c = CHR ''.'') u" "w \<in> lang is"
  using assms by auto

lemma prefix_in_Star:
  "prefix_in (c # CHR ''*'' # re) tx \<longleftrightarrow> prefix_in re tx
    \<or> tx \<noteq> [] \<and> (hd tx = c \<or> c = CHR ''.'') \<and> prefix_in (c # CHR ''*'' # re) (tl tx)"
    (is "?l \<longleftrightarrow> ?a \<or> ?b")
proof -
  have it: "fst (items (c # CHR ''*'' # re)) = Star c # fst (items re)" "snd (items (c # CHR ''*'' # re)) = snd (items re)"
    by simp_all
  show ?thesis
  proof
    assume ?l
    then obtain v post where v: "tx = v @ post" "v \<in> lang (Star c # fst (items re))" "snd (items re) \<longrightarrow> post = []"
      unfolding prefix_in_def it by blast
    obtain u w where u: "v = u @ w" "list_all (\<lambda>x. x = c \<or> c = CHR ''.'') u" "w \<in> lang (fst (items re))"
      using v(2) by (rule lang_StarE)
    show "?a \<or> ?b"
    proof (cases u)
      case Nil
      then have "tx = w @ post" using u v by simp
      then show ?thesis using u(3) v(3) unfolding prefix_in_def by blast
    next
      case (Cons x u')
      then have "tl tx = (u' @ w) @ post" "u' @ w \<in> lang (Star c # fst (items re))"
        using u v(1) lang_Star [of c u' w] by simp_all
      then have "prefix_in (c # CHR ''*'' # re) (tl tx)" using v(3) unfolding prefix_in_def it by blast
      then show ?thesis using Cons u v(1) by auto
    qed
  next
    assume "?a \<or> ?b"
    then show ?l
    proof
      assume ?a
      then obtain w post where "tx = w @ post" "w \<in> lang (fst (items re))" "snd (items re) \<longrightarrow> post = []"
        unfolding prefix_in_def by blast
      moreover have "w \<in> lang (Star c # fst (items re))"
        using lang_Star [of c "[]" w "fst (items re)"] calculation(2) by simp
      ultimately show ?l unfolding prefix_in_def it by blast
    next
      assume b: ?b
      then obtain v post where v: "tl tx = v @ post" "v \<in> lang (Star c # fst (items re))" "snd (items re) \<longrightarrow> post = []"
        unfolding prefix_in_def it by blast
      obtain u w where u: "v = u @ w" "list_all (\<lambda>x. x = c \<or> c = CHR ''.'') u" "w \<in> lang (fst (items re))"
        using v(2) by (rule lang_StarE)
      have "(hd tx # u) @ w \<in> lang (Star c # fst (items re))" using b u by (intro lang_Star) auto
      moreover have "tx = ((hd tx # u) @ w) @ post" using b u(1) v(1) by (cases tx) auto
      ultimately show ?l using v(3) unfolding prefix_in_def it by blast
    qed
  qed
qed

lemma split_first:
  "(\<exists>w post. tx = w @ post \<and> w \<noteq> [] \<and> A (hd w) \<and> B (tl w) \<and> C post)
    \<longleftrightarrow> tx \<noteq> [] \<and> A (hd tx) \<and> (\<exists>v post. tl tx = v @ post \<and> B v \<and> C post)" (is "?l \<longleftrightarrow> ?r")
proof
  assume ?l
  then obtain w post where w: "tx = w @ post" "w \<noteq> []" "A (hd w)" "B (tl w)" "C post" by blast
  then show ?r by (cases w) auto
next
  assume r: ?r
  then obtain v post where v: "tl tx = v @ post" "B v" "C post" by blast
  have "tx = (hd tx # v) @ post" using r v(1) by (cases tx) auto
  then show ?l using r v(2,3) by (intro exI [of _ "hd tx # v"] exI [of _ post]) auto
qed

lemma prefix_in_char:
  assumes "\<not> (re \<noteq> [] \<and> hd re = CHR ''*'')" "\<not> (c = CHR ''$'' \<and> re = [])"
  shows "prefix_in (c # re) tx \<longleftrightarrow> tx \<noteq> [] \<and> (c = CHR ''.'' \<or> c = hd tx) \<and> prefix_in re (tl tx)"
proof -
  have it: "fst (items (c # re)) = (if c = CHR ''.'' then Any else Lit c) # fst (items re)" "snd (items (c # re)) = snd (items re)"
    using assms by auto
  have "w \<in> lang (fst (items (c # re))) \<longleftrightarrow> w \<noteq> [] \<and> (c = CHR ''.'' \<or> c = hd w) \<and> tl w \<in> lang (fst (items re))" for w
    unfolding it by (cases w) auto
  then have "prefix_in (c # re) tx \<longleftrightarrow> (\<exists>w post. tx = w @ post \<and> w \<noteq> [] \<and> (c = CHR ''.'' \<or> c = hd w)
      \<and> tl w \<in> lang (fst (items re)) \<and> (snd (items re) \<longrightarrow> post = []))"
    unfolding prefix_in_def it(2) by simp
  also have "\<dots> \<longleftrightarrow> tx \<noteq> [] \<and> (c = CHR ''.'' \<or> c = hd tx) \<and> prefix_in re (tl tx)"
    unfolding prefix_in_def by (rule split_first)
  finally show ?thesis .
qed

lemma matchhere_prefix:
  "matchhere re tx \<longleftrightarrow> prefix_in re tx"
  "matchstar c re tx \<longleftrightarrow> prefix_in (c # CHR ''*'' # re) tx"
proof (induction re tx and c re tx rule: matchhere_matchstar.induct)
  case (1 tx)
  then show ?case by (simp add: prefix_in_def)
next
  case (2 c re tx)
  show ?case
  proof (cases "re \<noteq> [] \<and> hd re = CHR ''*''")
    case True
    then have "c # re = c # CHR ''*'' # tl re" by (cases re) auto
    then show ?thesis using 2(1) True by (simp add: matchhere.simps(2))
  next
    case ns: False
    show ?thesis
    proof (cases "c = CHR ''$'' \<and> re = []")
      case True
      then show ?thesis by (simp add: prefix_in_def matchhere.simps(2))
    next
      case False
      have "prefix_in (c # re) tx \<longleftrightarrow> tx \<noteq> [] \<and> (c = CHR ''.'' \<or> c = hd tx) \<and> prefix_in re (tl tx)"
        by (rule prefix_in_char [OF ns False])
      then show ?thesis
        unfolding matchhere.simps(2) [of c re tx] if_not_P [OF ns] if_not_P [OF False] using 2(2) [OF ns False] by auto
    qed
  qed
next
  case (3 c re tx)
  show ?case
    unfolding matchstar.simps [of c re tx] prefix_in_Star [of c re tx] using 3 by (simp split: if_split)
qed

lemma match_from_iff: "match_from re tx \<longleftrightarrow> (\<exists>pre suf. tx = pre @ suf \<and> matchhere re suf)"
proof (induction tx)
  case (Cons t ts)
  have "(\<exists>pre suf. t # ts = pre @ suf \<and> matchhere re suf) \<longleftrightarrow>
      matchhere re (t # ts) \<or> (\<exists>pre suf. ts = pre @ suf \<and> matchhere re suf)"
    by (auto simp: Cons_eq_append_conv)
  then show ?case using Cons by simp
qed simp

text \<open>C38: the matcher decides the language of the pattern: \<open>match\<close> succeeds exactly when some part of the text is a word
  of it, at the start of the text if the pattern begins with \<open>^\<close>, up to its end if it ends in \<open>$\<close>.
\<close>

theorem match_language:
  "match re tx \<longleftrightarrow>
    (let anchored = (re \<noteq> [] \<and> hd re = CHR ''^''); it = items (if anchored then tl re else re) in
     \<exists>pre w post. tx = pre @ w @ post \<and> w \<in> lang (fst it)
       \<and> (if anchored then pre = [] else True) \<and> (if snd it then post = [] else True))"
proof (cases "re \<noteq> [] \<and> hd re = CHR ''^''")
  case True
  then show ?thesis by (auto simp: match_def matchhere_prefix prefix_in_def Let_def)
next
  case False
  then have "match re tx = match_from re tx" by (auto simp: match_def)
  then show ?thesis using False
    by (simp only: match_from_iff matchhere_prefix prefix_in_def) (auto simp: Let_def)
qed

text \<open>A chunk of input that holds no end of line, and no carried-over rest before it, is dropped.\<close>

lemma grep_partial_chunk_lost:
  assumes "CHR 0x0A \<notin> set chunk" "chunk \<noteq> []"
  shows "grep pat [] (chunk # chunks) = grep pat [] chunks"
proof -
  have "rest = [] \<or> hd rest \<noteq> CHR 0x0A" if "rest = drop n chunk" for rest n
    using assms(1) that by (metis hd_in_set in_set_dropD)
  then have "grep_lines pat chunk = ([], chunk)" by (subst grep_lines.simps) (auto simp: Let_def)
  then show ?thesis using assms(2) by simp
qed

end
