(* ===== verification/Spec2Isabelle.thy ===== *)
theory Spec2Isabelle
  imports Trap JEnv JDebug Shell Grep
begin

text \<open>
  A verification library for two teaching operating systems written in C: xv6
  (\<open>src/my-xv6-public\<close>, with the extensions made there: lazy page allocation, alarms, \<open>dup2\<close> and
  \<open>date\<close>) and the JOS exokernel of the MIT labs (\<open>src/lab\<close>).

  \<^bold>\<open>How programs are modelled.\<close> An operation is a function of its arguments and the kernel state; it ends in an
  outcome of type \<open>res\<close> (theory Prelude): \<open>Ok\<close> with a result and the new state, \<open>Panic\<close> with the message of the
  source, \<open>Spin\<close> on a spinlock held elsewhere, \<open>Switch\<close> when the CPU is given to another process (inside
  \<open>swtch\<close>, or when JOS returns to an environment), \<open>Hang\<close> for a loop that does not end, \<open>Fault\<close> for a null
  pointer or an access the hardware refuses. The combinator \<open>bind\<close> sequences operations. The locale
  \<open>state_frame\<close> makes frame conditions (\<open>keeps\<close>) compositional, \<open>returns\<close> states total correctness. Machine
  integers are words of their width. Where xv6 shares memory between data structures (free pages, page
  tables, user pages) memory is a map of bytes; where a table is only reached by index it is a function of
  the index. A sleeping loop ends in \<open>Switch\<close>; the definitions named \<open>_resume\<close> are what the process does after it
  is woken. The state of xv6 is one record, extended theory by theory, so that every operation
  applies unchanged to the state of the layers above it.

  \<^bold>\<open>xv6.\<close>
  \<^item> Spinlock (\<open>spinlock.c\<close>, \<open>mycpu\<close>): locks, interrupt masking; mutual exclusion over all interleavings of the
    CPUs is proved on the step relation \<open>lk_step\<close>.
  \<^item> Kalloc (\<open>kalloc.c\<close>): the free list threaded through the free pages; no page is lost or handed out twice.
  \<^item> Strings (\<open>string.c\<close>, \<open>ulib.c\<close>): the memory routines with the string instructions; \<open>memmove\<close> copies
    overlapping ranges, the one of \<open>ulib.c\<close> does not.
  \<^item> Mmu, Vm (\<open>mmu.h\<close>, \<open>memlayout.h\<close>, \<open>vm.c\<close>): segment and page tables; mapping and copying to user memory.
  \<^item> Proc (\<open>proc.c\<close>): process table, scheduler, sleep and wakeup, \<open>wait\<close>, \<open>kill\<close>; a process runs on one CPU at a
    time, and no wakeup is lost between the test of a condition and sleeping. Syscall holds \<open>userinit\<close>, \<open>fork\<close>
    and \<open>exit\<close>.
  \<^item> Sleeplock (\<open>sleeplock.c\<close>): a waiter sleeps, and the release of the lock makes it runnable.
  \<^item> Blocks, Bio (\<open>bio.c\<close>, \<open>memide.c\<close>): the buffer cache. Blocks states what a block
    cache promises as the locale \<open>block_cache\<close>; Bio interprets it and shows least-recently-used replacement.
  \<^item> Log (\<open>log.c\<close>): write-ahead logging. A crash at any write of a commit leaves the disk, after recovery, with all
    of the transaction or none of it.
  \<^item> Fs (\<open>fs.c\<close>): block allocation, inodes, file contents, directories and paths, over the log.
  \<^item> File (\<open>file.c\<close>, \<open>pipe.c\<close>): open files and pipes; a pipe refines a bounded queue (locale \<open>bounded_queue\<close>).
  \<^item> Syscall, Sysfile, Trap, Console (\<open>syscall.c\<close>, \<open>sysproc.c\<close>, \<open>sysfile.c\<close>, \<open>exec.c\<close>, \<open>trap.c\<close>, \<open>console.c\<close>,
    \<open>kbd.c\<close>, \<open>uart.c\<close>): arguments, every system call, traps, the line discipline. Printfmt also holds the user
    level \<open>printf.c\<close>.
  \<^item> Shell (\<open>sh.c\<close>): tokens, the recursive-descent parser, null termination, and the system calls of \<open>runcmd\<close> as a
    tree. The parser ends on every line, and what it returns is a well-formed command.
  \<^item> Grep (\<open>grep.c\<close>): the matcher decides the language of its pattern; the loop over the input.

  \<^bold>\<open>JOS.\<close>
  \<^item> JString, Printfmt (\<open>lib/string.c\<close>, \<open>lib/printfmt.c\<close>): the string library, equal to that of xv6 where both have
    a routine; formatted printing, its bounds, and that \<open>strtol\<close> reads back what \<open>printnum\<close> wrote.
  \<^item> JPmap (\<open>kern/pmap.c\<close>): physical pages, page tables, \<open>user_mem_check\<close>. The invariant \<open>vm_inv\<close> says that reference
    counts are exact; every operation keeps it.
  \<^item> JEnv (\<open>kern/env.c\<close>, \<open>kern/sched.c\<close>, \<open>kern/syscall.c\<close>, \<open>kern/trap.c\<close>, \<open>kern/spinlock.c\<close>): environments, round
    robin scheduling and its fairness, system calls and their guards.
  \<^item> JDebug (\<open>kern/kdebug.c\<close>): the binary search in the debugging tables finds the entry that encloses an address,
    unless another entry lies one byte above it; function, line and file of an address.

  \<^bold>\<open>Bounds and fuel.\<close> Loops of the source are recursions on the data or on the number of rounds the source computes
  before or while it loops; those with another argument have a termination proof. Loops over an address range
  run once per page of the range. The fixed sizes (1024 entries of a table, 1024 environments, 64 processes, 30
  buffers) are those of the source. Two definitions have fuel: the printing of a user string of negative
  length, with the \<open>2 ^ 32\<close> addresses there are, and the parser of the shell, with \<open>4 * length + 4\<close> for a line, which
  \<open>parsecmd_terminates\<close> shows to be enough.

  \<^bold>\<open>Not modelled.\<close>
  \<^item> Assembly and start-up: boot loaders, \<open>entry.S\<close>, \<open>swtch.S\<close>, \<open>trapasm.S\<close>, \<open>main.c\<close>, \<open>kern/init.c\<close>, \<open>mem_init\<close>; they set up
    the machine the model starts from, and have no C semantics to translate.
  \<^item> Device drivers: \<open>ide.c\<close> (the file system runs over \<open>memide.c\<close>), \<open>lapic.c\<close>, \<open>ioapic.c\<close>, \<open>mp.c\<close>, \<open>picirq.c\<close>,
    \<open>kern/console.c\<close>, \<open>kern/kclock.c\<close>, \<open>kern/mpconfig.c\<close>; their effects are device registers. The device switch, the
    console input of JOS and the clock chip are arguments.
  \<^item> Messages printed by the kernels for information, and the JOS monitor.
  \<^item> The user libraries: \<open>umalloc.c\<close>, and \<open>lib/fork.c\<close>, \<open>lib/ipc.c\<close>, \<open>lib/pgfault.c\<close> of JOS, which run in user mode
    over the modelled calls. Of \<open>kern/kdebug.c\<close>, the choice between the tables of the kernel and of the program.
  \<^item> \<open>mkfs.c\<close>, a program of the host that writes the first disk image.
  \<^item> The other test and utility programs, which only make system calls; \<open>getcmd\<close> and \<open>main\<close> of the shell; the tables of \<open>kern/entrypgdir.c\<close>.
  \<^item> Concurrency inside an operation: between acquiring and releasing its locks an operation of xv6 is one step,
    justified by the mutual exclusion of spinlocks; the JOS kernel runs under one lock.
\<close>

end
